(* ===== verification/Go_Prelude.thy ===== *)
theory Go_Prelude
  imports Main "HOL-Library.Word" "HOL-Library.Multiset"
begin

section \<open>Go run-time conventions shared by the components\<close>

text \<open>
  What every component of the repository uses of the Go language: a panic or an endless block as
  the left value of a sum, slices as lists with the bounds checks of Go's index and slice
  expressions written out, maps as partial functions whose missing keys read as the zero value.
  The collections \<open>go_simps\<close> (unfolding of these operations) and \<open>go_intros\<close> (when they
  succeed) are what \<open>simp\<close> and \<open>auto\<close> are given in the component theories.

  Go's \<open>int\<close> is 64 bits wide. Log indices, terms and counters start near zero and only move by
  increments, so they are unbounded \<open>int\<close> here; the values whose width the code relies on
  (client identifiers, command identifiers, bit sets, hashes) are words of that width.
\<close>

named_theorems go_simps \<open>unfolding of the Go run-time operations\<close>
named_theorems go_intros \<open>conditions under which the Go run-time operations succeed\<close>

datatype go_panic =
    IndexOutOfRange
  | SliceBounds
  | Panicked string
  | Blocked
  | Fatal string

type_synonym 'a result = "go_panic + 'a"
type_synonym int32 = "32 word"
type_synonym int64 = "64 word"
type_synonym uint64 = "64 word"

definition rbind :: "'a result \<Rightarrow> ('a \<Rightarrow> 'b result) \<Rightarrow> 'b result" where
  "rbind m f = (case m of Inl e \<Rightarrow> Inl e | Inr x \<Rightarrow> f x)"

lemma rbind_simps [simp]:
  "rbind (Inl e) f = Inl e"
  "rbind (Inr x) f = f x"
  by (simp_all add: rbind_def)

lemma rbind_Inr_conv: "rbind m f = Inr y \<longleftrightarrow> (\<exists>x. m = Inr x \<and> f x = Inr y)"
  by (cases m) auto

lemma rbind_split:
  "P (rbind m f) \<longleftrightarrow> (\<forall>e. m = Inl e \<longrightarrow> P (Inl e)) \<and> (\<forall>x. m = Inr x \<longrightarrow> P (f x))"
  by (cases m) auto

lemma rbind_split_asm:
  "P (rbind m f) \<longleftrightarrow> \<not> ((\<exists>e. m = Inl e \<and> \<not> P (Inl e)) \<or> (\<exists>x. m = Inr x \<and> \<not> P (f x)))"
  by (cases m) auto

subsection \<open>Slices\<close>

text \<open>The index expression \<open>xs[i]\<close>, the assignment \<open>xs[i] = v\<close> and the slice expression
  \<open>xs[lo:hi]\<close>, each with the bounds check that makes Go panic.\<close>

definition at :: "'a list \<Rightarrow> int \<Rightarrow> 'a result" where
  "at xs i = (if 0 \<le> i \<and> i < int (length xs) then Inr (xs ! nat i) else Inl IndexOutOfRange)"

definition put_at :: "'a list \<Rightarrow> int \<Rightarrow> 'a \<Rightarrow> 'a list result" where
  "put_at xs i v = (if 0 \<le> i \<and> i < int (length xs) then Inr (xs[nat i := v]) else Inl IndexOutOfRange)"

definition slice_of :: "'a list \<Rightarrow> int \<Rightarrow> int \<Rightarrow> 'a list result" where
  "slice_of xs lo hi =
     (if 0 \<le> lo \<and> lo \<le> hi \<and> hi \<le> int (length xs) then Inr (take (nat (hi - lo)) (drop (nat lo) xs))
      else Inl SliceBounds)"

lemma at_Inr_conv [go_simps]: "at xs i = Inr x \<longleftrightarrow> 0 \<le> i \<and> i < int (length xs) \<and> xs ! nat i = x"
  by (auto simp: at_def)

lemma put_at_Inr_conv [go_simps]:
  "put_at xs i v = Inr ys \<longleftrightarrow> 0 \<le> i \<and> i < int (length xs) \<and> ys = xs[nat i := v]"
  by (auto simp: put_at_def)

lemma slice_Inr_conv [go_simps]:
  "slice_of xs lo hi = Inr ys \<longleftrightarrow>
     0 \<le> lo \<and> lo \<le> hi \<and> hi \<le> int (length xs) \<and> ys = take (nat (hi - lo)) (drop (nat lo) xs)"
  by (auto simp: slice_of_def)

lemma at_in_range [go_intros]: "0 \<le> i \<Longrightarrow> i < int (length xs) \<Longrightarrow> at xs i = Inr (xs ! nat i)"
  by (simp add: at_def)

lemma put_at_in_range [go_intros]:
  "0 \<le> i \<Longrightarrow> i < int (length xs) \<Longrightarrow> put_at xs i v = Inr (xs[nat i := v])"
  by (simp add: put_at_def)

lemma slice_in_range [go_intros]:
  "0 \<le> lo \<Longrightarrow> lo \<le> hi \<Longrightarrow> hi \<le> int (length xs) \<Longrightarrow>
     slice_of xs lo hi = Inr (take (nat (hi - lo)) (drop (nat lo) xs))"
  by (simp add: slice_of_def)

lemma at_last: "xs \<noteq> [] \<Longrightarrow> at xs (int (length xs) - 1) = Inr (last xs)"
  by (auto simp: at_def last_conv_nth nat_diff_distrib Suc_leI)

lemma map_nth_upt_drop: "map ((!) xs) [n ..< length xs] = drop n xs"
  by (rule nth_equalityI) (auto simp: add.commute)

subsection \<open>Maps\<close>

text \<open>Reading a missing key of a Go map gives the zero value of the element type.\<close>

definition mget :: "'v \<Rightarrow> ('k \<rightharpoonup> 'v) \<Rightarrow> 'k \<Rightarrow> 'v" where
  "mget z m k = (case m k of None \<Rightarrow> z | Some v \<Rightarrow> v)"

lemma mget_upd [simp]: "mget z (m(k \<mapsto> v)) k' = (if k' = k then v else mget z m k')"
  by (simp add: mget_def)

lemma mget_empty [simp]: "mget z Map.empty k = z"
  by (simp add: mget_def)

end
