(* ===== verification/Raft_State.thy ===== *)
theory Raft_State
  imports Go_Prelude
begin

section \<open>Raft: data, persistent storage and the log's index arithmetic\<close>

text \<open>
  \<^verbatim>\<open>src/raft/persister.go\<close> and the data of \<^verbatim>\<open>src/raft/raft.go\<close>: the structs, the
  accessors, \<open>truncate\<close>, \<open>makeTermIndex\<close>, \<open>persist\<close> and \<open>readPersist\<close>.
  A command is an opaque value of type \<open>'c\<close>; the nil command is \<open>None\<close>.
  The lemmas relate a log entry's name (its index in the unbounded log) to its position in the
  slice that is left after snapshots, and give the well-formedness invariant \<open>raft_wf\<close> that
  the handlers of the other Raft theories preserve.
\<close>

subsection \<open>Commands, apply messages and what labgob writes\<close>

record 'c CommandTerm =
  Command :: "'c option"
  Term :: int

record 'c ApplyMsg =
  CommandValid :: bool
  ApplyCommand :: "'c option"
  CommandIndex :: int
  ClientMaxRequestSeq :: "int32 \<rightharpoonup> int"
  Rsm :: "string \<rightharpoonup> string"

text \<open>
  A gob stream is self-describing: each \<open>Encode\<close> appends one typed value and each \<open>Decode\<close>
  takes the next value and fails on another type or at the end. The byte slices that Raft hands
  to its persister are therefore lists of typed values; the empty list is the nil slice.
\<close>

datatype 'c gob =
    GInt int
  | GLog "'c CommandTerm list"
  | GSeq "int32 \<rightharpoonup> int"
  | GRsm "string \<rightharpoonup> string"

fun decode_int :: "'c gob list \<Rightarrow> (int \<times> 'c gob list) option" where
  "decode_int (GInt i # r) = Some (i, r)"
| "decode_int _ = None"

fun decode_log :: "'c gob list \<Rightarrow> ('c CommandTerm list \<times> 'c gob list) option" where
  "decode_log (GLog l # r) = Some (l, r)"
| "decode_log _ = None"

fun decode_seq :: "'c gob list \<Rightarrow> ((int32 \<rightharpoonup> int) \<times> 'c gob list) option" where
  "decode_seq (GSeq m # r) = Some (m, r)"
| "decode_seq _ = None"

fun decode_rsm :: "'c gob list \<Rightarrow> ((string \<rightharpoonup> string) \<times> 'c gob list) option" where
  "decode_rsm (GRsm m # r) = Some (m, r)"
| "decode_rsm _ = None"

subsection \<open>The persister\<close>

record 'c Persister =
  raftstate :: "'c gob list"
  snapshot :: "'c gob list"

definition MakePersister :: "'c Persister" where
  "MakePersister = \<lparr>raftstate = [], snapshot = []\<rparr>"

definition Persister_Copy :: "'c Persister \<Rightarrow> 'c Persister" where
  "Persister_Copy ps = MakePersister\<lparr>raftstate := raftstate ps, snapshot := snapshot ps\<rparr>"

definition SaveRaftState :: "'c Persister \<Rightarrow> 'c gob list \<Rightarrow> 'c Persister" where
  "SaveRaftState ps state = ps\<lparr>raftstate := state\<rparr>"

definition ReadRaftState :: "'c Persister \<Rightarrow> 'c gob list" where
  "ReadRaftState ps = raftstate ps"

text \<open>The two sizes are lengths in bytes; the byte count of a stream is the parameter
  \<open>nbytes\<close>, gob's encoding being variable-length.\<close>

definition RaftStateSize :: "('c gob list \<Rightarrow> int) \<Rightarrow> 'c Persister \<Rightarrow> int" where
  "RaftStateSize nbytes ps = nbytes (raftstate ps)"

definition SaveStateAndSnapshot :: "'c Persister \<Rightarrow> 'c gob list \<Rightarrow> 'c gob list \<Rightarrow> 'c Persister" where
  "SaveStateAndSnapshot ps state snap = ps\<lparr>raftstate := state, snapshot := snap\<rparr>"

definition ReadSnapshot :: "'c Persister \<Rightarrow> 'c gob list" where
  "ReadSnapshot ps = snapshot ps"

definition SnapshotSize :: "('c gob list \<Rightarrow> int) \<Rightarrow> 'c Persister \<Rightarrow> int" where
  "SnapshotSize nbytes ps = nbytes (snapshot ps)"

lemmas persister_defs = MakePersister_def Persister_Copy_def SaveRaftState_def ReadRaftState_def
  RaftStateSize_def SaveStateAndSnapshot_def ReadSnapshot_def SnapshotSize_def

subsection \<open>The Raft peer\<close>

text \<open>
  The fields of the struct \<open>Raft\<close>. \<open>peers\<close> is the number of peers (its elements are only
  used to send). The two buffered channels carry only \<open>true\<close>, so they are the number of
  buffered values; \<open>applyCh\<close> is the sequence of messages sent to the service so far, in order.
  The mutexes are absent: a definition is what runs under the lock.
\<close>

record 'c Raft =
  peers :: nat
  persister :: "'c Persister"
  me :: int
  leaderNum :: int
  currentTerm :: int
  votedFor :: int
  log :: "'c CommandTerm list"
  commitIndex :: int
  lastApplied :: int
  nextIndex :: "int list"
  matchIndex :: "int list"
  exitFlag :: bool
  AENotifyChan :: nat
  commandToBeExec :: nat
  applyCh :: "'c ApplyMsg list"
  lastIndexInSnapshot :: int
  lastTermInSnapshot :: int

text \<open>\<open>&Raft{}\<close>: the zero value of every field.\<close>

definition zero_raft :: "'c Raft" where
  "zero_raft = \<lparr>peers = 0, persister = MakePersister, me = 0, leaderNum = 0, currentTerm = 0,
     votedFor = 0, log = [], commitIndex = 0, lastApplied = 0, nextIndex = [], matchIndex = [],
     exitFlag = False, AENotifyChan = 0, commandToBeExec = 0, applyCh = [],
     lastIndexInSnapshot = 0, lastTermInSnapshot = 0\<rparr>"

record TermIndex =
  TI_Term :: int
  LastIndexOfTerm :: int

definition GetState :: "'c Raft \<Rightarrow> int \<times> bool" where
  "GetState rf = (currentTerm rf, leaderNum rf = me rf)"

definition getLastLogIndex :: "'c Raft \<Rightarrow> int" where
  "getLastLogIndex rf = lastIndexInSnapshot rf + int (length (log rf)) - 1"

definition GetRaftStateSize :: "('c gob list \<Rightarrow> int) \<Rightarrow> 'c Raft \<Rightarrow> int" where
  "GetRaftStateSize nbytes rf = RaftStateSize nbytes (persister rf)"

definition getTrueIndex :: "'c Raft \<Rightarrow> int \<Rightarrow> int" where
  "getTrueIndex rf index =
     (if index - lastIndexInSnapshot rf < 0 then 0 else index - lastIndexInSnapshot rf)"

definition getNameIndex :: "'c Raft \<Rightarrow> int \<Rightarrow> int" where
  "getNameIndex rf index = index + lastIndexInSnapshot rf"

definition GetLeaderNum :: "'c Raft \<Rightarrow> int" where
  "GetLeaderNum rf = leaderNum rf"

text \<open>\<open>truncate\<close> copies the suffix of the log from \<open>endIndex - preIndex\<close> on; the copy
  of an exhausted log is one entry that carries the snapshot's term.\<close>

definition truncate_log :: "'c Raft \<Rightarrow> int \<Rightarrow> int \<Rightarrow> int \<Rightarrow> 'c CommandTerm list result" where
  "truncate_log rf endIndex preIndex lastTerm =
     (if endIndex \<le> preIndex then Inl (Panicked ''endIndex <= rf.lastIndexInSnapshot'')
      else let newLog = map ((!) (log rf)) [nat (endIndex - preIndex) ..< length (log rf)]
           in Inr (if length newLog = 0 then [\<lparr>Command = None, Term = lastTerm\<rparr>] else newLog))"

text \<open>\<open>makeTermIndex\<close> walks the log from its end and records, for each run of equal terms, the
  position of the run's last entry. \<open>i\<close> counts the entries still to visit.\<close>

fun makeTermIndex_loop :: "'c CommandTerm list \<Rightarrow> nat \<Rightarrow> int \<Rightarrow> TermIndex list \<Rightarrow> TermIndex list" where
  "makeTermIndex_loop l 0 curLastTerm termList = termList"
| "makeTermIndex_loop l (Suc i) curLastTerm termList =
     (if Term (l ! i) \<noteq> curLastTerm
      then makeTermIndex_loop l i (Term (l ! i))
             (termList @ [\<lparr>TI_Term = Term (l ! i), LastIndexOfTerm = int i\<rparr>])
      else makeTermIndex_loop l i curLastTerm termList)"

definition makeTermIndex :: "'c Raft \<Rightarrow> TermIndex list result" where
  "makeTermIndex rf =
     rbind (at (log rf) (int (length (log rf)) - 1))
       (\<lambda>e. Inr (makeTermIndex_loop (log rf) (length (log rf)) (Term e + 1) []))"

subsection \<open>Persistence\<close>

definition persist :: "'c Raft \<Rightarrow> 'c Raft" where
  "persist rf = rf\<lparr>persister := SaveRaftState (persister rf) [GInt (currentTerm rf), GLog (log rf)]\<rparr>"

definition readPersist :: "'c Raft \<Rightarrow> 'c gob list \<Rightarrow> 'c Raft result" where
  "readPersist rf data =
     (if data = [] then Inr rf
      else case decode_int data of
        None \<Rightarrow> Inl (Panicked ''first phase read persist error '')
      | Some (t, data') \<Rightarrow>
          (case decode_log data' of
             None \<Rightarrow> Inl (Panicked ''first phase read persist error '')
           | Some (l, _) \<Rightarrow> Inr (rf\<lparr>currentTerm := t, log := l\<rparr>)))"

subsection \<open>Names and positions of log entries\<close>

text \<open>\<open>log_entry rf n\<close> is the entry whose name is \<open>n\<close>, if the slice still holds it;
  entry \<open>lastIndexInSnapshot\<close> itself stays at position 0 as the anchor.\<close>

definition log_entry :: "'c Raft \<Rightarrow> int \<Rightarrow> 'c CommandTerm option" where
  "log_entry rf n =
     (if lastIndexInSnapshot rf \<le> n \<and> n \<le> getLastLogIndex rf
      then Some (log rf ! nat (n - lastIndexInSnapshot rf)) else None)"

definition lastLogTerm :: "'c Raft \<Rightarrow> int" where
  "lastLogTerm rf = Term (last (log rf))"

text \<open>Well-formedness: the slice is never empty, the commit index lies between the snapshot and
  the last entry.\<close>

definition raft_wf :: "'c Raft \<Rightarrow> bool" where
  "raft_wf rf \<longleftrightarrow> log rf \<noteq> [] \<and> 0 \<le> lastIndexInSnapshot rf \<and>
     lastIndexInSnapshot rf \<le> commitIndex rf \<and> commitIndex rf \<le> getLastLogIndex rf"

lemma raft_wfI [intro]:
  "log rf \<noteq> [] \<Longrightarrow> 0 \<le> lastIndexInSnapshot rf \<Longrightarrow> lastIndexInSnapshot rf \<le> commitIndex rf \<Longrightarrow>
     commitIndex rf \<le> getLastLogIndex rf \<Longrightarrow> raft_wf rf"
  by (simp add: raft_wf_def)

lemma raft_wfD:
  assumes "raft_wf rf"
  shows "log rf \<noteq> []" "0 \<le> lastIndexInSnapshot rf" "lastIndexInSnapshot rf \<le> commitIndex rf"
    "commitIndex rf \<le> getLastLogIndex rf"
  using assms by (auto simp: raft_wf_def)

lemmas index_defs = getLastLogIndex_def getTrueIndex_def getNameIndex_def

lemma getTrueIndex_nonneg [simp]: "0 \<le> getTrueIndex rf n"
  by (simp add: getTrueIndex_def)

lemma getTrueIndex_getNameIndex [simp]: "0 \<le> i \<Longrightarrow> getTrueIndex rf (getNameIndex rf i) = i"
  by (simp add: index_defs)

lemma getNameIndex_getTrueIndex [simp]:
  "lastIndexInSnapshot rf \<le> n \<Longrightarrow> getNameIndex rf (getTrueIndex rf n) = n"
  by (simp add: index_defs)

lemma getTrueIndex_less_length:
  "raft_wf rf \<Longrightarrow> n \<le> getLastLogIndex rf \<Longrightarrow> getTrueIndex rf n < int (length (log rf))"
  by (auto simp: raft_wf_def index_defs)

lemma at_getTrueIndex:
  assumes "raft_wf rf" "n \<le> getLastLogIndex rf"
  shows "at (log rf) (getTrueIndex rf n) = Inr (log rf ! nat (getTrueIndex rf n))"
  using getTrueIndex_less_length [OF assms] by (simp add: at_def)

lemma log_entry_last: "log rf \<noteq> [] \<Longrightarrow> log_entry rf (getLastLogIndex rf) = Some (last (log rf))"
  by (auto simp: log_entry_def getLastLogIndex_def last_conv_nth nat_diff_distrib Suc_leI)

lemma log_entry_eqI:
  assumes "lastIndexInSnapshot rf' = lastIndexInSnapshot rf"
    and "\<And>i. i < k \<Longrightarrow> i < length (log rf) \<Longrightarrow> i < length (log rf') \<and> log rf' ! i = log rf ! i"
    and "n \<le> getLastLogIndex rf" "n < lastIndexInSnapshot rf + int k"
  shows "log_entry rf' n = log_entry rf n"
proof (cases "lastIndexInSnapshot rf \<le> n")
  case True
  let ?i = "nat (n - lastIndexInSnapshot rf)"
  have "?i < k" "?i < length (log rf)"
    using True assms(3,4) by (auto simp: getLastLogIndex_def)
  then have "?i < length (log rf')" "log rf' ! ?i = log rf ! ?i"
    using assms(2) by auto
  then show ?thesis
    using True assms(1,3) by (auto simp: log_entry_def getLastLogIndex_def)
qed (use assms(1) in \<open>simp add: log_entry_def\<close>)

subsection \<open>Truncation keeps the names of the remaining entries\<close>

lemma truncate_eq:
  "preIndex < endIndex \<Longrightarrow> truncate_log rf endIndex preIndex t =
     Inr (let d = drop (nat (endIndex - preIndex)) (log rf) in
          if d = [] then [\<lparr>Command = None, Term = t\<rparr>] else d)"
  by (simp add: truncate_log_def map_nth_upt_drop)

lemma truncate_nonempty: "truncate_log rf e p t = Inr l \<Longrightarrow> l \<noteq> []"
  by (auto simp: truncate_log_def Let_def split: if_splits)

subsection \<open>The persisted state is read back\<close>

lemma ReadRaftState_persist [simp]:
  "ReadRaftState (persister (persist rf)) = [GInt (currentTerm rf), GLog (log rf)]"
  by (simp add: persist_def persister_defs)

lemma persist_frame [simp]:
  "peers (persist rf) = peers rf" "me (persist rf) = me rf" "leaderNum (persist rf) = leaderNum rf"
  "currentTerm (persist rf) = currentTerm rf" "votedFor (persist rf) = votedFor rf"
  "log (persist rf) = log rf" "commitIndex (persist rf) = commitIndex rf"
  "nextIndex (persist rf) = nextIndex rf" "matchIndex (persist rf) = matchIndex rf"
  "AENotifyChan (persist rf) = AENotifyChan rf" "applyCh (persist rf) = applyCh rf"
  "commandToBeExec (persist rf) = commandToBeExec rf" "exitFlag (persist rf) = exitFlag rf"
  "lastIndexInSnapshot (persist rf) = lastIndexInSnapshot rf"
  "lastTermInSnapshot (persist rf) = lastTermInSnapshot rf"
  "snapshot (persister (persist rf)) = snapshot (persister rf)"
  by (simp_all add: persist_def persister_defs)

lemma index_persist [simp]:
  "getLastLogIndex (persist rf) = getLastLogIndex rf" "getTrueIndex (persist rf) n = getTrueIndex rf n"
  "getNameIndex (persist rf) n = getNameIndex rf n" "log_entry (persist rf) n = log_entry rf n"
  "lastLogTerm (persist rf) = lastLogTerm rf" "raft_wf (persist rf) = raft_wf rf"
  by (simp_all add: index_defs log_entry_def lastLogTerm_def raft_wf_def)

lemma readPersist_persist:
  "readPersist rf' (ReadRaftState (persister (persist rf))) =
     Inr (rf'\<lparr>currentTerm := currentTerm rf, log := log rf\<rparr>)"
  by (simp add: readPersist_def)

end
