(* ===== verification/Raft_Vote.thy ===== *)
theory Raft_Vote
  imports Raft_State
begin

section \<open>Raft: votes and elections\<close>

text \<open>
  \<open>RequestVote\<close> and \<open>CandidateProcess\<close> of \<^verbatim>\<open>src/raft/raft.go\<close>.
  The handler reads the state without the lock and takes the lock only to raise the term, so it is
  two definitions: \<open>RequestVote_check\<close> (up to the lock) and \<open>RequestVote_locked\<close> (from the
  lock on, on the state found there). \<open>RequestVote\<close> runs one after the other.
  The candidate's select loop is a step function over the events it waits for.
\<close>

record RequestVoteArgs =
  RV_Term :: int
  CandidateID :: int
  LastLogIndex :: int
  LastLogTerm :: int

record RequestVoteReply =
  RVR_Term :: int
  VoteGranted :: bool

text \<open>\<open>if len(rf.AENotifyChan) < k { rf.AENotifyChan <- true }\<close>: the channel's buffer has
  one place per peer, and a send into a full buffer waits.\<close>

definition notify :: "nat \<Rightarrow> 'c Raft \<Rightarrow> 'c Raft result" where
  "notify k rf =
     (if AENotifyChan rf < k
      then if AENotifyChan rf < peers rf then Inr (rf\<lparr>AENotifyChan := Suc (AENotifyChan rf)\<rparr>)
           else Inl Blocked
      else Inr rf)"

subsection \<open>The RequestVote handler\<close>

datatype rv_outcome =
    RV_Return RequestVoteReply
  | RV_Lock RequestVoteReply
  | RV_Grant RequestVoteReply

definition RequestVote_check :: "'c Raft \<Rightarrow> RequestVoteArgs \<Rightarrow> rv_outcome" where
  "RequestVote_check rf args =
     (let candidateTerm = RV_Term args;
          reply = \<lparr>RVR_Term = currentTerm rf, VoteGranted = False\<rparr>;
          localLastTerm = (if length (log rf) \<ge> 1 then Term (last (log rf)) else 0)
      in if currentTerm rf > candidateTerm \<or> (currentTerm rf = candidateTerm \<and> votedFor rf \<noteq> me rf)
         then RV_Return reply
         else if currentTerm rf = candidateTerm \<and> LastLogTerm args \<le> localLastTerm
         then RV_Return reply
         else if currentTerm rf < candidateTerm then RV_Lock reply
         else RV_Grant reply)"

definition RequestVote_grant :: "'c Raft \<Rightarrow> RequestVoteReply \<Rightarrow> ('c Raft \<times> RequestVoteReply) result" where
  "RequestVote_grant rf reply = rbind (notify 2 rf) (\<lambda>rf. Inr (rf, reply\<lparr>VoteGranted := True\<rparr>))"

definition RequestVote_locked ::
  "'c Raft \<Rightarrow> RequestVoteArgs \<Rightarrow> RequestVoteReply \<Rightarrow> ('c Raft \<times> RequestVoteReply) result" where
  "RequestVote_locked rf args reply =
     (if currentTerm rf = RV_Term args then Inr (rf, reply)
      else let rf = persist (rf\<lparr>currentTerm := RV_Term args\<rparr>)
           in rbind (at (log rf) (int (length (log rf)) - 1)) (\<lambda>e.
                if LastLogTerm args < Term e then Inr (rf, reply)
                else if LastLogTerm args = Term e \<and> LastLogIndex args < getLastLogIndex rf
                then Inr (rf, reply)
                else RequestVote_grant (rf\<lparr>leaderNum := CandidateID args\<rparr>) reply))"

definition RequestVote :: "'c Raft \<Rightarrow> RequestVoteArgs \<Rightarrow> ('c Raft \<times> RequestVoteReply) result" where
  "RequestVote rf args =
     (case RequestVote_check rf args of
        RV_Return reply \<Rightarrow> Inr (rf, reply)
      | RV_Lock reply \<Rightarrow> RequestVote_locked rf args reply
      | RV_Grant reply \<Rightarrow> RequestVote_grant rf reply)"

subsection \<open>CandidateProcess\<close>

text \<open>The threshold \<open>int(float32(peersNum)/2 + 0.5)\<close> that \<open>mainProcess\<close> computes: half
  of the peers rounded up (the float is exact for any realistic number of peers).\<close>

definition majority :: "nat \<Rightarrow> nat" where
  "majority peersNum = (peersNum + 1) div 2"

definition CandidateProcess_start :: "'c Raft \<Rightarrow> ('c Raft \<times> RequestVoteArgs) result" where
  "CandidateProcess_start rf =
     rbind (at (log rf) (int (length (log rf)) - 1)) (\<lambda>e.
       Inr (rf\<lparr>votedFor := me rf, leaderNum := -1\<rparr>,
            \<lparr>RV_Term = currentTerm rf, CandidateID = me rf,
             LastLogIndex = getLastLogIndex rf, LastLogTerm = Term e\<rparr>))"

text \<open>One sender goroutine: at most three tries, each only while the peer still votes for itself;
  \<open>calls\<close> is what the calls return, \<open>None\<close> for a call that fails.\<close>

fun candidate_send :: "nat \<Rightarrow> 'c Raft \<Rightarrow> RequestVoteReply option list \<Rightarrow> RequestVoteReply option" where
  "candidate_send 0 rf calls = None"
| "candidate_send (Suc n) rf [] = None"
| "candidate_send (Suc n) rf (c # calls) =
     (if votedFor rf \<noteq> me rf then None
      else case c of Some r \<Rightarrow> Some r | None \<Rightarrow> candidate_send n rf calls)"

datatype cand_event = CE_Reply RequestVoteReply | CE_Timeout | CE_AENotify

text \<open>One turn of the select loop: the new state, the vote count, and \<open>Some b\<close> when the
  function returns \<open>b\<close>.\<close>

fun candidate_step ::
  "nat \<Rightarrow> 'c Raft \<times> nat \<Rightarrow> cand_event \<Rightarrow> ('c Raft \<times> nat) \<times> bool option" where
  "candidate_step maj (rf, granted) (CE_Reply r) =
     (let granted' = (if VoteGranted r then granted + 1 else granted)
      in if VoteGranted r \<and> granted' \<ge> maj then ((rf\<lparr>leaderNum := me rf\<rparr>, granted'), Some False)
         else if RVR_Term r > currentTerm rf
         then ((persist (rf\<lparr>currentTerm := RVR_Term r\<rparr>), granted'), Some False)
         else ((rf, granted'), None))"
| "candidate_step maj (rf, granted) CE_Timeout =
     ((persist (rf\<lparr>currentTerm := currentTerm rf + 1\<rparr>), granted), Some True)"
| "candidate_step maj (rf, granted) CE_AENotify = ((rf\<lparr>AENotifyChan := 0\<rparr>, granted), Some False)"

text \<open>The loop without interference from other goroutines, over the events that arrive;
  \<open>None\<close> while it is still waiting.\<close>

fun candidate_loop :: "nat \<Rightarrow> 'c Raft \<times> nat \<Rightarrow> cand_event list \<Rightarrow> ('c Raft \<times> bool) option" where
  "candidate_loop maj s [] = None"
| "candidate_loop maj s (e # es) =
     (case candidate_step maj s e of
        (s', Some b) \<Rightarrow> Some (fst s', b)
      | (s', None) \<Rightarrow> candidate_loop maj s' es)"

definition CandidateProcess :: "'c Raft \<Rightarrow> cand_event list \<Rightarrow> ('c Raft \<times> bool) option result" where
  "CandidateProcess rf es =
     rbind (CandidateProcess_start rf) (\<lambda>(rf, args). Inr (candidate_loop (majority (peers rf)) (rf, 1) es))"

subsection \<open>What a vote means\<close>

text \<open>The comparison of Raft's section 5.4.1: the candidate's log is at least as up to date as the
  voter's.\<close>

definition up_to_date :: "RequestVoteArgs \<Rightarrow> 'c Raft \<Rightarrow> bool" where
  "up_to_date args rf \<longleftrightarrow>
     lastLogTerm rf < LastLogTerm args \<or>
     (lastLogTerm rf = LastLogTerm args \<and> getLastLogIndex rf \<le> LastLogIndex args)"

definition grants :: "'c Raft \<Rightarrow> RequestVoteArgs \<Rightarrow> bool" where
  "grants rf args \<longleftrightarrow>
     (currentTerm rf < RV_Term args \<and> up_to_date args rf) \<or>
     (currentTerm rf = RV_Term args \<and> votedFor rf = me rf \<and> lastLogTerm rf < LastLogTerm args)"

lemma notify_Inr: "k \<le> peers rf \<Longrightarrow> \<exists>n. notify k rf = Inr (rf\<lparr>AENotifyChan := n\<rparr>)"
  by (cases "AENotifyChan rf < k") (auto simp: notify_def intro: exI [of _ "AENotifyChan rf"])

lemma notify_Inr_conv: "notify k rf = Inr rf' \<Longrightarrow> \<exists>n. rf' = rf\<lparr>AENotifyChan := n\<rparr>"
  by (cases "AENotifyChan rf < k") (auto simp: notify_def intro: exI [of _ "AENotifyChan rf"] split: if_splits)

text \<open>The answer, and the whole state afterwards: the fields that are not named stay as they are.\<close>

definition vote_effect :: "'c Raft \<Rightarrow> RequestVoteArgs \<Rightarrow> 'c Raft \<Rightarrow> RequestVoteReply \<Rightarrow> bool" where
  "vote_effect rf args rf' reply \<longleftrightarrow>
     reply = \<lparr>RVR_Term = currentTerm rf, VoteGranted = grants rf args\<rparr> \<and>
     rf' = rf\<lparr>
       persister := (if currentTerm rf < RV_Term args
                     then SaveRaftState (persister rf) [GInt (RV_Term args), GLog (log rf)] else persister rf),
       leaderNum := (if currentTerm rf < RV_Term args \<and> grants rf args then CandidateID args else leaderNum rf),
       currentTerm := max (currentTerm rf) (RV_Term args),
       AENotifyChan := (if grants rf args \<and> AENotifyChan rf < 2 then Suc (AENotifyChan rf) else AENotifyChan rf)\<rparr>"

lemma RequestVote_effect:
  assumes "log rf \<noteq> []" "RequestVote rf args = Inr (rf', reply)"
  shows "vote_effect rf args rf' reply"
proof -
  have l: "length (log rf) \<ge> 1" using assms(1) by (cases "log rf") auto
  show ?thesis
    using assms l
    by (auto simp: RequestVote_def RequestVote_check_def RequestVote_locked_def RequestVote_grant_def
        vote_effect_def grants_def up_to_date_def lastLogTerm_def Let_def rbind_Inr_conv at_last
        getLastLogIndex_def persist_def persister_defs max_def notify_def
        split: if_splits)
qed

lemma RequestVote_returns:
  assumes "log rf \<noteq> []" "2 \<le> peers rf"
  shows "\<exists>rf' reply. RequestVote rf args = Inr (rf', reply)"
proof -
  obtain n where n: "notify 2 rf = Inr (rf\<lparr>AENotifyChan := n\<rparr>)"
    using notify_Inr [of 2 rf] assms by auto
  let ?rf = "persist (rf\<lparr>currentTerm := RV_Term args\<rparr>)\<lparr>leaderNum := CandidateID args\<rparr>"
  obtain m where m: "notify 2 ?rf = Inr (?rf\<lparr>AENotifyChan := m\<rparr>)"
    using notify_Inr [of 2 ?rf] assms by auto
  show ?thesis
    using assms n m at_last [OF assms(1)]
    by (auto simp: RequestVote_def RequestVote_check_def RequestVote_locked_def
        RequestVote_grant_def Let_def)
qed

lemma vote_effect_wf: "vote_effect rf args rf' reply \<Longrightarrow> raft_wf rf \<Longrightarrow> raft_wf rf'"
  by (auto simp: vote_effect_def raft_wf_def getLastLogIndex_def)

lemma RequestVote_correct_lemma:
  assumes "log rf \<noteq> []" "2 \<le> peers rf"
  shows "\<exists>rf' reply. RequestVote rf args = Inr (rf', reply) \<and> vote_effect rf args rf' reply"
  using RequestVote_returns [OF assms] RequestVote_effect [OF assms(1)] by blast


definition fresh_peer :: "nat Raft" where
  "fresh_peer = zero_raft\<lparr>peers := 3, votedFor := -1, log := [\<lparr>Command = None, Term = 0\<rparr>]\<rparr>"

definition vote_request :: "int \<Rightarrow> int \<Rightarrow> int \<Rightarrow> int \<Rightarrow> RequestVoteArgs" where
  "vote_request t c i lt = \<lparr>RV_Term = t, CandidateID = c, LastLogIndex = i, LastLogTerm = lt\<rparr>"

lemmas sample_defs = fresh_peer_def zero_raft_def vote_request_def


subsection \<open>One vote per term\<close>

text \<open>A peer that answers a sequence of requests, nothing else happening in between.\<close>

fun serve_votes :: "'c Raft \<Rightarrow> RequestVoteArgs list \<Rightarrow> ('c Raft \<times> RequestVoteReply list) result" where
  "serve_votes rf [] = Inr (rf, [])"
| "serve_votes rf (a # as) =
     rbind (RequestVote rf a) (\<lambda>(rf, r). rbind (serve_votes rf as) (\<lambda>(rf, rs). Inr (rf, r # rs)))"

lemma serve_votes_returns:
  "log rf \<noteq> [] \<Longrightarrow> 2 \<le> peers rf \<Longrightarrow> \<exists>rf' rs. serve_votes rf as = Inr (rf', rs)"
proof (induction as arbitrary: rf)
  case (Cons a as)
  obtain rf1 r where r: "RequestVote rf a = Inr (rf1, r)" "vote_effect rf a rf1 r"
    using RequestVote_correct_lemma [OF Cons.prems] by blast
  then have "log rf1 \<noteq> []" "2 \<le> peers rf1"
    using Cons.prems by (auto simp: vote_effect_def)
  from Cons.IH [OF this] r show ?case by auto
qed simp

text \<open>The votes of a term among the answers to some requests, without those for candidates with a newer last log term
  than \<open>l\<close>.\<close>

definition votes_in :: "int \<Rightarrow> int \<Rightarrow> RequestVoteArgs list \<Rightarrow> RequestVoteReply list \<Rightarrow> nat" where
  "votes_in l t as rs = length (filter (\<lambda>(a, r). VoteGranted r \<and> RV_Term a = t \<and> LastLogTerm a \<le> l) (zip as rs))"

lemma votes_in_bound:
  assumes "log rf \<noteq> []" "serve_votes rf as = Inr (rf', rs)"
  shows "length rs = length as \<and> votes_in (lastLogTerm rf) t as rs \<le> (if t \<le> currentTerm rf then 0 else 1)"
  using assms
proof (induction as arbitrary: rf rs)
  case (Cons a as)
  from Cons.prems(2) obtain rf1 r rs1 where
    r: "RequestVote rf a = Inr (rf1, r)" "serve_votes rf1 as = Inr (rf', rs1)" "rs = r # rs1"
    by (auto simp: rbind_Inr_conv)
  have e: "vote_effect rf a rf1 r" by (rule RequestVote_effect [OF Cons.prems(1) r(1)])
  then have rf1: "log rf1 = log rf" "lastLogTerm rf1 = lastLogTerm rf" "currentTerm rf1 = max (currentTerm rf) (RV_Term a)"
    by (simp_all add: vote_effect_def lastLogTerm_def)
  have IH: "length rs1 = length as" "votes_in (lastLogTerm rf) t as rs1 \<le> (if t \<le> max (currentTerm rf) (RV_Term a) then 0 else 1)"
    using Cons.IH [OF _ r(2)] Cons.prems(1) by (simp_all add: rf1)
  have "currentTerm rf < RV_Term a" if "VoteGranted r" "LastLogTerm a \<le> lastLogTerm rf"
    using e that by (auto simp: vote_effect_def grants_def)
  then show ?case using IH by (auto simp: r(3) votes_in_def max_def split: if_splits)
qed (simp add: votes_in_def)



text \<open>The restriction on the last log terms is needed. A peer that has been a candidate once
  answers two candidates of the same term with a vote each when the second one's last term is
  newer.\<close>

theorem two_votes_in_one_term:
  "\<exists>rf' r1 r2. serve_votes (fresh_peer\<lparr>votedFor := 0\<rparr>) [vote_request 1 1 0 0, vote_request 1 2 1 1] =
       Inr (rf', [r1, r2]) \<and> VoteGranted r1 \<and> VoteGranted r2"
  by (simp add: RequestVote_def RequestVote_check_def RequestVote_locked_def RequestVote_grant_def
      notify_def at_def getLastLogIndex_def persist_def sample_defs)

text \<open>The term test inside the lock only looks for an equal term. Whatever the term has become
  between the first test and the lock, it is overwritten by the candidate's, even when that is
  older.\<close>

theorem RequestVote_locked_overwrites_term:
  assumes "currentTerm rf' \<noteq> RV_Term args" "RequestVote_locked rf' args reply = Inr (rf'', reply')"
  shows "currentTerm rf'' = RV_Term args"
  using assms
  by (auto simp: RequestVote_locked_def RequestVote_grant_def Let_def rbind_Inr_conv
      split: if_splits dest!: notify_Inr_conv)

theorem RequestVote_locked_overwrites_term_witness:
  "\<exists>reply rf'' reply'. RequestVote_check fresh_peer (vote_request 1 1 0 0) = RV_Lock reply \<and>
     RequestVote_locked (fresh_peer\<lparr>currentTerm := 7\<rparr>) (vote_request 1 1 0 0) reply = Inr (rf'', reply') \<and>
     currentTerm rf'' = 1"
proof -
  let ?r = "\<lparr>RVR_Term = 0, VoteGranted = False\<rparr>"
  have c: "RequestVote_check fresh_peer (vote_request 1 1 0 0) = RV_Lock ?r"
    by (simp add: RequestVote_check_def sample_defs)
  obtain rf'' reply' where
    l: "RequestVote_locked (fresh_peer\<lparr>currentTerm := 7\<rparr>) (vote_request 1 1 0 0) ?r = Inr (rf'', reply')"
    by (simp add: RequestVote_locked_def RequestVote_grant_def notify_def at_def getLastLogIndex_def
        persist_def sample_defs)
  have "currentTerm (fresh_peer\<lparr>currentTerm := 7\<rparr>) \<noteq> RV_Term (vote_request 1 1 0 0)"
    by (simp add: sample_defs)
  from RequestVote_locked_overwrites_term [OF this l] have "currentTerm rf'' = 1"
    by (simp add: vote_request_def)
  with c l show ?thesis by blast
qed

subsection \<open>Quorums\<close>

text \<open>What an election relies on: a family of peer sets of which any two meet.\<close>

locale quorum_system =
  fixes quorum :: "nat set \<Rightarrow> bool"
  assumes quorum_meet: "quorum A \<Longrightarrow> quorum B \<Longrightarrow> A \<inter> B \<noteq> {}"
begin

lemma quorum_nonempty: "quorum A \<Longrightarrow> A \<noteq> {}"
  using quorum_meet [of A A] by auto

lemma common_member: "quorum A \<Longrightarrow> quorum B \<Longrightarrow> \<exists>v. v \<in> A \<and> v \<in> B"
  using quorum_meet by blast

lemma single_winner:
  assumes "quorum A" "quorum B" "\<And>v. v \<in> A \<Longrightarrow> vote v = c" "\<And>v. v \<in> B \<Longrightarrow> vote v = d"
  shows "c = d"
  using common_member [OF assms(1,2)] assms(3,4) by auto

end

definition vote_quorum :: "nat \<Rightarrow> nat set \<Rightarrow> bool" where
  "vote_quorum n A \<longleftrightarrow> A \<subseteq> {..<n} \<and> majority n \<le> card A"

lemma vote_quorum_meet:
  assumes "odd n" "vote_quorum n A" "vote_quorum n B"
  shows "A \<inter> B \<noteq> {}"
proof
  assume disj: "A \<inter> B = {}"
  have fin: "finite A" "finite B"
    using assms(2,3) by (auto simp: vote_quorum_def intro: finite_subset)
  have "card A + card B = card (A \<union> B)"
    using card_Un_disjoint [OF fin disj] by simp
  also have "\<dots> \<le> card {..<n}"
    using assms(2,3) by (intro card_mono) (auto simp: vote_quorum_def)
  finally have "2 * majority n \<le> n"
    using assms(2,3) by (auto simp: vote_quorum_def)
  then show False using assms(1) by (auto simp: majority_def elim!: oddE)
qed

interpretation odd_cluster: quorum_system "vote_quorum (2 * k + 1)" for k
proof unfold_locales
  fix A B
  assume "vote_quorum (2 * k + 1) A" "vote_quorum (2 * k + 1) B"
  then show "A \<inter> B \<noteq> {}" by (intro vote_quorum_meet [of "2 * k + 1"]) auto
qed

text \<open>C8: the threshold that decides elections is a majority exactly for an odd number of peers:
  then any two winning sets share a peer, and for an even number there are two disjoint ones.\<close>

theorem majority_quorums_meet_iff_odd:
  assumes "0 < n"
  shows "(\<forall>A B. vote_quorum n A \<and> vote_quorum n B \<longrightarrow> A \<inter> B \<noteq> {}) \<longleftrightarrow> odd n"
proof
  show "odd n \<Longrightarrow> \<forall>A B. vote_quorum n A \<and> vote_quorum n B \<longrightarrow> A \<inter> B \<noteq> {}"
    using vote_quorum_meet by blast
next
  assume meet: "\<forall>A B. vote_quorum n A \<and> vote_quorum n B \<longrightarrow> A \<inter> B \<noteq> {}"
  show "odd n"
  proof (rule ccontr)
    assume "\<not> odd n"
    then obtain k where k: "n = 2 * k" by auto
    then have "vote_quorum n {..<k}" "vote_quorum n {k..<2 * k}"
      by (auto simp: vote_quorum_def majority_def)
    moreover have "{..<k} \<inter> {k..<2 * k} = {}" by auto
    ultimately show False using meet by blast
  qed
qed

theorem majority_quorums_meet_iff_odd_witness:
  "\<not> (\<forall>A B. vote_quorum 4 A \<and> vote_quorum 4 B \<longrightarrow> A \<inter> B \<noteq> {})"
  using majority_quorums_meet_iff_odd [of 4] by simp

subsection \<open>A leader has a quorum\<close>

text \<open>The events of an election labelled with the peer they come from; \<open>voters\<close> are the
  peers whose granted vote the candidate received.\<close>

type_synonym labelled_event = "nat \<times> cand_event"

fun is_vote :: "cand_event \<Rightarrow> bool" where
  "is_vote (CE_Reply r) = VoteGranted r"
| "is_vote _ = False"

definition voters :: "labelled_event list \<Rightarrow> nat set" where
  "voters les = fst ` set (filter (is_vote \<circ> snd) les)"

definition single_replies :: "labelled_event list \<Rightarrow> bool" where
  "single_replies les \<longleftrightarrow> distinct (map fst (filter (is_vote \<circ> snd) les))"

lemma candidate_loop_counts:
  assumes "candidate_loop maj (rf, g) es = Some (rf', b)" "leaderNum rf' = me rf'" "leaderNum rf \<noteq> me rf"
  shows "maj \<le> g + length (filter is_vote es)"
  using assms
proof (induction es arbitrary: rf g)
  case (Cons e es)
  then show ?case
  proof (cases e)
    case (CE_Reply r)
    then show ?thesis
      using Cons.prems Cons.IH [of rf "if VoteGranted r then g + 1 else g"]
      by (auto simp: Let_def split: if_splits)
  qed auto
qed simp

lemma card_voters: "single_replies les \<Longrightarrow> card (voters les) = length (filter (is_vote \<circ> snd) les)"
  unfolding voters_def single_replies_def by (drule distinct_card) (simp only: set_map length_map)

lemma filter_snd_map: "length (filter is_vote (map snd les)) = length (filter (is_vote \<circ> snd) les)"
  by (simp add: filter_map)

lemma winner_quorum:
  assumes "CandidateProcess rf (map snd les) = Inr (Some (rf', b))" "leaderNum rf' = me rf'"
    and "me rf = int i" "i < peers rf"
    and "single_replies les" "voters les \<subseteq> {..<peers rf} - {i}"
  shows "vote_quorum (peers rf) (insert i (voters les))"
proof -
  from assms(1) obtain rf1 args where s: "CandidateProcess_start rf = Inr (rf1, args)"
    "candidate_loop (majority (peers rf1)) (rf1, 1) (map snd les) = Some (rf', b)"
    by (auto simp: CandidateProcess_def rbind_Inr_conv)
  then have rf1: "leaderNum rf1 \<noteq> me rf1" "peers rf1 = peers rf"
    using assms(3) by (auto simp: CandidateProcess_start_def rbind_Inr_conv)
  have "majority (peers rf) \<le> 1 + card (voters les)"
    using candidate_loop_counts [OF s(2) assms(2) rf1(1)] rf1(2) assms(5)
    by (simp add: card_voters filter_snd_map)
  moreover have "card (insert i (voters les)) = 1 + card (voters les)"
    using assms(6) by (subst card_insert_disjoint) (auto simp: voters_def)
  ultimately show ?thesis using assms(4,6) by (auto simp: vote_quorum_def)
qed

text \<open>In a cluster of an odd number of peers, two peers that both leave the election as leader
  have a voter in common, so an election has at most one winner per term as long as no peer
  votes for two candidates.\<close>

theorem two_leaders_share_a_voter:
  assumes "CandidateProcess rf (map snd les) = Inr (Some (rf', b))" "leaderNum rf' = me rf'"
    and "CandidateProcess sf (map snd lfs) = Inr (Some (sf', c))" "leaderNum sf' = me sf'"
    and "peers rf = 2 * k + 1" "peers sf = 2 * k + 1"
    and "me rf = int i" "i < peers rf" "me sf = int j" "j < peers sf"
    and "single_replies les" "voters les \<subseteq> {..<peers rf} - {i}"
    and "single_replies lfs" "voters lfs \<subseteq> {..<peers sf} - {j}"
  shows "\<exists>v. v \<in> insert i (voters les) \<and> v \<in> insert j (voters lfs)"
proof -
  have "vote_quorum (2 * k + 1) (insert i (voters les))"
    using winner_quorum [OF assms(1,2,7,8,11,12)] assms(5) by simp
  moreover have "vote_quorum (2 * k + 1) (insert j (voters lfs))"
    using winner_quorum [OF assms(3,4,9,10,13,14)] assms(6) by simp
  ultimately show ?thesis by (rule odd_cluster.common_member)
qed

definition granted_by :: "nat \<Rightarrow> labelled_event" where
  "granted_by v = (v, CE_Reply \<lparr>RVR_Term = 0, VoteGranted = True\<rparr>)"

theorem two_leaders_share_a_voter_witness:
  "\<exists>rf' b sf' c. CandidateProcess fresh_peer (map snd [granted_by 1]) = Inr (Some (rf', b)) \<and>
     leaderNum rf' = me rf' \<and>
     CandidateProcess (fresh_peer\<lparr>me := 2\<rparr>) (map snd [granted_by 1]) = Inr (Some (sf', c)) \<and>
     leaderNum sf' = me sf' \<and>
     (\<exists>v. v \<in> insert 0 (voters [granted_by 1]) \<and> v \<in> insert 2 (voters [granted_by 1]))"
proof -
  obtain rf' where rf': "CandidateProcess fresh_peer (map snd [granted_by 1]) = Inr (Some (rf', False))"
    "leaderNum rf' = me rf'"
    by (simp add: CandidateProcess_def CandidateProcess_start_def granted_by_def at_def majority_def sample_defs)
  obtain sf' where sf':
    "CandidateProcess (fresh_peer\<lparr>me := 2\<rparr>) (map snd [granted_by 1]) = Inr (Some (sf', False))"
    "leaderNum sf' = me sf'"
    by (simp add: CandidateProcess_def CandidateProcess_start_def granted_by_def at_def majority_def sample_defs)
  have "\<exists>v. v \<in> insert 0 (voters [granted_by 1]) \<and> v \<in> insert 2 (voters [granted_by 1])"
    by (rule two_leaders_share_a_voter [OF rf' sf', of 1])
      (auto simp: sample_defs single_replies_def voters_def granted_by_def)
  with rf' sf' show ?thesis by blast
qed

end
