(* ===== verification/Raft_Append.thy ===== *)
theory Raft_Append
  imports Raft_Vote
begin

section \<open>Raft: the AppendEntry handler\<close>

text \<open>
  \<open>AppendEntry\<close> of \<^verbatim>\<open>src/raft/raft.go\<close>: heartbeats, log replication and the follower's commit.
  The handler is four definitions in the order of the code: the term test with the check of the
  previous entry (\<open>AppendEntry\<close> itself), the term reported on a conflict
  (\<open>conflictTerm\<close>), the commit (\<open>AppendEntry_commit\<close>) and the copy of the entries
  (\<open>AppendEntry_store\<close>). An empty slice arrives as nil through gob, so \<open>Entries\<close> is a
  list and nil is the empty list.
\<close>

record 'c AppendEntryArgs =
  AE_Term :: int
  LeaderID :: int
  PrevLogIndex :: int
  PrevLogTerm :: int
  Entries :: "'c CommandTerm list"
  LeaderCommit :: int

record AppendEntryReply =
  Me :: int
  AER_Term :: int
  Success :: bool
  AER_LastLogIndex :: int
  CommitIndex :: int
  TermOfArgsPreLogIndex :: int

definition zero_reply :: AppendEntryReply where
  "zero_reply = \<lparr>Me = 0, AER_Term = 0, Success = False, AER_LastLogIndex = 0, CommitIndex = 0,
     TermOfArgsPreLogIndex = 0\<rparr>"

subsection \<open>The handler\<close>

text \<open>The term sent back on a conflict: the local entry's term, or the first term below the
  leader's found on the way down to position 1.\<close>

fun conflict_scan :: "'c CommandTerm list \<Rightarrow> int \<Rightarrow> int \<Rightarrow> nat \<Rightarrow> int" where
  "conflict_scan l prevTerm retTerm 0 = retTerm"
| "conflict_scan l prevTerm retTerm (Suc i) =
     (if Term (l ! Suc i) < prevTerm then Term (l ! Suc i) else conflict_scan l prevTerm retTerm i)"

definition conflictTerm :: "'c Raft \<Rightarrow> 'c AppendEntryArgs \<Rightarrow> int \<Rightarrow> int" where
  "conflictTerm rf args prevIndexTerm =
     (if prevIndexTerm > PrevLogTerm args
      then conflict_scan (log rf) (PrevLogTerm args) prevIndexTerm (nat (getTrueIndex rf (PrevLogIndex args)))
      else prevIndexTerm)"

text \<open>The body of the commit loop, over the names \<open>getNameIndex (ind + preCommitIndex + 1)\<close>.\<close>

definition cmd_msg :: "'c option \<Rightarrow> int \<Rightarrow> 'c ApplyMsg" where
  "cmd_msg c i = \<lparr>CommandValid = True, ApplyCommand = c, CommandIndex = i,
     ClientMaxRequestSeq = Map.empty, Rsm = Map.empty\<rparr>"

fun commit_loop :: "'c Raft \<Rightarrow> 'c ApplyMsg list \<Rightarrow> int list \<Rightarrow> ('c Raft \<times> 'c ApplyMsg list) result" where
  "commit_loop rf applyMsgList [] = Inr (rf, applyMsgList)"
| "commit_loop rf applyMsgList (i # is) =
     rbind (at (log rf) (getTrueIndex rf i)) (\<lambda>e.
       if i > commitIndex rf
       then commit_loop (rf\<lparr>commitIndex := i\<rparr>) (applyMsgList @ [cmd_msg (Command e) i]) is
       else commit_loop rf applyMsgList is)"

definition AppendEntry_commit :: "'c Raft \<Rightarrow> 'c AppendEntryArgs \<Rightarrow> 'c Raft result" where
  "AppendEntry_commit rf args =
     (let (preCommitIndex, aftCommitIndex) =
            (if LeaderCommit args > commitIndex rf
             then if LeaderCommit args > PrevLogIndex args then (commitIndex rf, PrevLogIndex args)
                  else (commitIndex rf, LeaderCommit args)
             else (0, 0));
          preCommitIndex = getTrueIndex rf preCommitIndex;
          aftCommitIndex = getTrueIndex rf aftCommitIndex;
          aftCommitIndex = (if aftCommitIndex \<ge> int (length (log rf)) then preCommitIndex else aftCommitIndex)
      in rbind (slice_of (log rf) preCommitIndex aftCommitIndex) (\<lambda>s.
         rbind (commit_loop rf []
                  (map (\<lambda>ind. getNameIndex rf (int ind + preCommitIndex + 1)) [0..<length s]))
           (\<lambda>(rf, applyMsgList). Inr (rf\<lparr>applyCh := applyCh rf @ applyMsgList\<rparr>))))"

fun store_loop :: "'c Raft \<Rightarrow> int \<Rightarrow> 'c CommandTerm list \<Rightarrow> ('c Raft \<times> int) result" where
  "store_loop rf startInd [] = Inr (rf, startInd)"
| "store_loop rf startInd (oneLog # es) =
     (if getNameIndex rf startInd \<le> commitIndex rf then Inr (rf, startInd)
      else rbind (if startInd \<ge> int (length (log rf)) then Inr (log rf @ [oneLog])
                  else put_at (log rf) startInd oneLog) (\<lambda>l.
        if Command oneLog = None then Inl (Panicked ''comm is nil'')
        else store_loop (rf\<lparr>log := l\<rparr>) (startInd + 1) es))"

definition AppendEntry_store :: "'c Raft \<Rightarrow> 'c AppendEntryArgs \<Rightarrow> 'c Raft result" where
  "AppendEntry_store rf args =
     (let startInd = getTrueIndex rf (PrevLogIndex args + 1)
      in if startInd \<ge> 1 \<and> startInd \<le> int (length (log rf))
         then rbind (store_loop rf startInd (Entries args)) (\<lambda>(rf, startInd).
                if startInd < int (length (log rf)) - 1
                then rbind (at (log rf) (startInd - 1)) (\<lambda>a.
                     rbind (at (log rf) (int (length (log rf)) - 1)) (\<lambda>b.
                       if Term a > Term b then Inr (rf\<lparr>log := take (nat startInd) (log rf)\<rparr>)
                       else Inr rf))
                else Inr rf)
         else Inr rf)"

definition AppendEntry :: "'c Raft \<Rightarrow> 'c AppendEntryArgs \<Rightarrow> ('c Raft \<times> AppendEntryReply) result" where
  "AppendEntry rf args =
     (let curTerm = currentTerm rf;
          reply = zero_reply\<lparr>Me := me rf, AER_Term := curTerm\<rparr>
      in if AE_Term args < curTerm then Inr (rf, reply\<lparr>Success := False\<rparr>)
         else let rf = (if AE_Term args > curTerm
                        then persist (if leaderNum rf = me rf
                                      then rf\<lparr>leaderNum := LeaderID args, currentTerm := AE_Term args\<rparr>
                                      else rf\<lparr>currentTerm := AE_Term args\<rparr>)
                        else rf)
              in rbind (notify 3 rf) (\<lambda>rf.
                 if PrevLogIndex args \<ge> getLastLogIndex rf + 1
                 then rbind (at (log rf) (int (length (log rf)) - 1)) (\<lambda>e.
                        Inr (rf, reply\<lparr>AER_LastLogIndex := getLastLogIndex rf,
                                       TermOfArgsPreLogIndex := Term e\<rparr>))
                 else rbind (at (log rf) (getTrueIndex rf (PrevLogIndex args))) (\<lambda>e.
                        if Term e \<noteq> PrevLogTerm args
                        then Inr (rf, reply\<lparr>TermOfArgsPreLogIndex := conflictTerm rf args (Term e),
                                            Success := False\<rparr>)
                        else if PrevLogIndex args < commitIndex rf
                        then Inr (rf, reply\<lparr>CommitIndex := commitIndex rf, Success := True\<rparr>)
                        else rbind (AppendEntry_commit rf args) (\<lambda>rf.
                             let rf = persist rf
                             in if Entries args = [] then Inr (rf, reply\<lparr>Success := True\<rparr>)
                                else rbind (AppendEntry_store rf args) (\<lambda>rf.
                                     Inr (persist rf, reply\<lparr>Success := True\<rparr>))))))"

subsection \<open>The commit loop\<close>

text \<open>The messages of the entries named \<open>a\<close> to \<open>b\<close>, in order.\<close>

definition committed_msgs :: "'c Raft \<Rightarrow> int \<Rightarrow> int \<Rightarrow> 'c ApplyMsg list" where
  "committed_msgs rf a b =
     map (\<lambda>i. cmd_msg (Command (log rf ! nat (i - lastIndexInSnapshot rf))) i) [a..b]"

lemma committed_msgs_empty [simp]: "b < a \<Longrightarrow> committed_msgs rf a b = []"
  by (simp add: committed_msgs_def)

lemma committed_msgs_cong:
  "log rf = log rf' \<Longrightarrow> lastIndexInSnapshot rf = lastIndexInSnapshot rf' \<Longrightarrow>
     committed_msgs rf a b = committed_msgs rf' a b"
  by (simp add: committed_msgs_def)

lemma commit_loop_upto:
  assumes "raft_wf rf" "commitIndex rf \<le> b" "b \<le> getLastLogIndex rf"
  shows "commit_loop rf ms [commitIndex rf + 1..b] =
     Inr (rf\<lparr>commitIndex := b\<rparr>, ms @ committed_msgs rf (commitIndex rf + 1) b)"
  using assms
proof (induction "nat (b - commitIndex rf)" arbitrary: rf ms)
  case 0
  then have "commitIndex rf = b" by simp
  then show ?case by auto
next
  case (Suc m)
  let ?c = "commitIndex rf + 1"
  let ?rf = "rf\<lparr>commitIndex := ?c\<rparr>"
  have le: "?c \<le> b" using Suc.hyps(2) by simp
  have wf: "raft_wf ?rf" using Suc.prems le by (auto simp: raft_wf_def getLastLogIndex_def)
  have at: "at (log rf) (getTrueIndex rf ?c) = Inr (log rf ! nat (?c - lastIndexInSnapshot rf))"
    using at_getTrueIndex [OF Suc.prems(1), of ?c] le Suc.prems by (auto simp: raft_wf_def getTrueIndex_def)
  have "m = nat (b - commitIndex ?rf)" using Suc.hyps(2) by simp
  from Suc.hyps(1) [OF this wf] have IH: "commit_loop ?rf ms' [commitIndex ?rf + 1..b] =
     Inr (?rf\<lparr>commitIndex := b\<rparr>, ms' @ committed_msgs ?rf (commitIndex ?rf + 1) b)" for ms'
    using le Suc.prems(3) by (simp add: getLastLogIndex_def)
  have c: "committed_msgs ?rf (?c + 1) b = committed_msgs rf (?c + 1) b"
    by (rule committed_msgs_cong) simp_all
  show ?case
    using le at IH c by (simp add: upto_rec1 [of ?c b] committed_msgs_def)
qed

lemma commit_names:
  assumes "lastIndexInSnapshot rf \<le> c"
  shows "map (\<lambda>ind. getNameIndex rf (int ind + getTrueIndex rf c + 1)) [0..<n] = [c + 1..c + int n]"
  using assms by (intro nth_equalityI) (auto simp: getNameIndex_def getTrueIndex_def)

definition follower_commit :: "'c Raft \<Rightarrow> 'c AppendEntryArgs \<Rightarrow> int" where
  "follower_commit rf args = max (commitIndex rf) (min (LeaderCommit args) (PrevLogIndex args))"

lemma AppendEntry_commit_eq:
  assumes wf: "raft_wf rf" and prev: "commitIndex rf \<le> PrevLogIndex args" "PrevLogIndex args \<le> getLastLogIndex rf"
  shows "AppendEntry_commit rf args =
     Inr (rf\<lparr>commitIndex := follower_commit rf args,
             applyCh := applyCh rf @ committed_msgs rf (commitIndex rf + 1) (follower_commit rf args)\<rparr>)"
proof (cases "LeaderCommit args > commitIndex rf")
  case True
  let ?b = "min (LeaderCommit args) (PrevLogIndex args)"
  let ?p = "getTrueIndex rf (commitIndex rf)"
  have b: "follower_commit rf args = ?b" "commitIndex rf \<le> ?b" "?b \<le> getLastLogIndex rf"
    using True prev by (auto simp: follower_commit_def)
  have snap: "lastIndexInSnapshot rf \<le> commitIndex rf" using wf by (simp add: raft_wf_def)
  have lt: "getTrueIndex rf ?b < int (length (log rf))"
    using getTrueIndex_less_length [OF wf b(3)] .
  have le: "?p \<le> getTrueIndex rf ?b" using b(2) snap by (auto simp: getTrueIndex_def)
  have sl: "slice_of (log rf) ?p (getTrueIndex rf ?b) =
      Inr (take (nat (getTrueIndex rf ?b - ?p)) (drop (nat ?p) (log rf)))"
    using le lt by (intro slice_in_range) auto
  have len: "length (take (nat (getTrueIndex rf ?b - ?p)) (drop (nat ?p) (log rf))) = nat (?b - commitIndex rf)"
    using b(2) lt snap by (auto simp: getTrueIndex_def split: if_splits)
  have e: "(if LeaderCommit args > PrevLogIndex args then (commitIndex rf, PrevLogIndex args)
       else (commitIndex rf, LeaderCommit args)) = (commitIndex rf, ?b)"
    by auto
  show ?thesis
    using True lt sl len b(2) commit_loop_upto [OF wf b(2,3), of "[]"]
    unfolding AppendEntry_commit_def b(1)
    by (simp add: e commit_names [OF snap] del: min_less_iff_conj)
next
  case False
  then show ?thesis
    using prev wf
    by (simp add: AppendEntry_commit_def follower_commit_def getTrueIndex_def slice_of_def raft_wf_def)
qed

subsection \<open>The copy of the entries\<close>

text \<open>What the copy makes of a log: the entries up to position \<open>n\<close>, the new entries, and the
  old rest, which is cut off only if at least two old entries remain and the last of them has a
  term below that of the last new one.\<close>

definition overwritten :: "'c CommandTerm list \<Rightarrow> nat \<Rightarrow> 'c CommandTerm list \<Rightarrow> 'c CommandTerm list" where
  "overwritten l n es = take n l @ es @ drop (n + length es) l"

definition stored :: "'c CommandTerm list \<Rightarrow> nat \<Rightarrow> 'c CommandTerm list \<Rightarrow> 'c CommandTerm list" where
  "stored l n es =
     (if Suc (n + length es) < length l \<and> Term (last es) > Term (last l) then take n l @ es
      else overwritten l n es)"

lemma length_overwritten: "n \<le> length l \<Longrightarrow> length (overwritten l n es) = max (length l) (n + length es)"
  by (auto simp: overwritten_def)

lemma overwritten_step:
  assumes "n < length l"
  shows "overwritten (l[n := e]) (Suc n) es = overwritten l n (e # es)"
  using assms by (simp add: overwritten_def take_Suc_conv_app_nth take_update_cancel drop_update_cancel)

lemma overwritten_append: "overwritten (l @ [e]) (Suc (length l)) es = overwritten l (length l) (e # es)"
  by (simp add: overwritten_def)

lemma nth_overwritten_last:
  assumes "es \<noteq> []" "n \<le> length l"
  shows "overwritten l n es ! (n + length es - 1) = last es"
proof -
  have "overwritten l n es = (take n l @ butlast es) @ last es # drop (n + length es) l"
    using assms(1) by (simp add: overwritten_def)
  moreover have "length (take n l @ butlast es) = n + length es - 1"
    using assms by (cases es) auto
  ultimately show ?thesis by (metis nth_append_length)
qed

lemma store_loop_eq:
  assumes "commitIndex rf < getNameIndex rf (int n)" "n \<le> length (log rf)"
  shows "store_loop rf (int n) es =
     (if \<exists>e\<in>set es. Command e = None then Inl (Panicked ''comm is nil'')
      else Inr (rf\<lparr>log := overwritten (log rf) n es\<rparr>, int (n + length es)))"
  using assms
proof (induction es arbitrary: rf n)
  case Nil
  then show ?case by (simp add: overwritten_def)
next
  case (Cons e es)
  let ?l = "if length (log rf) \<le> n then log rf @ [e] else (log rf)[n := e]"
  let ?rf = "rf\<lparr>log := ?l\<rparr>"
  have IH: "store_loop ?rf (int (Suc n)) es =
     (if \<exists>e\<in>set es. Command e = None then Inl (Panicked ''comm is nil'')
      else Inr (?rf\<lparr>log := overwritten (log ?rf) (Suc n) es\<rparr>, int (Suc n + length es)))"
    using Cons.prems by (intro Cons.IH) (auto simp: getNameIndex_def)
  have l: "overwritten ?l (Suc n) es = overwritten (log rf) n (e # es)"
  proof (cases "length (log rf) \<le> n")
    case True
    then have "n = length (log rf)" using Cons.prems(2) by simp
    then show ?thesis using overwritten_append by simp
  next
    case False
    then show ?thesis using overwritten_step [of n "log rf"] by simp
  qed
  have "store_loop rf (int n) (e # es) =
     (if Command e = None then Inl (Panicked ''comm is nil'') else store_loop ?rf (int (Suc n)) es)"
    using Cons.prems by (auto simp: put_at_def add.commute)
  then show ?case using IH l by (simp add: Let_def)
qed

lemma AppendEntry_store_eq:
  assumes wf: "raft_wf rf" and prev: "commitIndex rf \<le> PrevLogIndex args" "PrevLogIndex args \<le> getLastLogIndex rf"
    and es: "Entries args \<noteq> []"
  shows "AppendEntry_store rf args =
     (if \<exists>e\<in>set (Entries args). Command e = None then Inl (Panicked ''comm is nil'')
      else Inr (rf\<lparr>log := stored (log rf) (nat (PrevLogIndex args + 1 - lastIndexInSnapshot rf)) (Entries args)\<rparr>))"
proof -
  define n where "n = nat (PrevLogIndex args + 1 - lastIndexInSnapshot rf)"
  let ?es = "Entries args"
  let ?l = "overwritten (log rf) n ?es"
  have s: "getTrueIndex rf (PrevLogIndex args + 1) = int n" "1 \<le> n" "n \<le> length (log rf)"
    and c: "commitIndex rf < getNameIndex rf (int n)"
    using wf prev by (auto simp: raft_wf_def index_defs n_def)
  have len: "length ?l = max (length (log rf)) (n + length ?es)"
    by (rule length_overwritten [OF s(3)])
  have new: "?l ! (n + length ?es - 1) = last ?es"
    using es s(3) by (rule nth_overwritten_last)
  have old: "Suc (n + length ?es) < length (log rf) \<Longrightarrow> last ?l = last (log rf)"
    by (auto simp: overwritten_def)
  have a: "at ?l (int (n + length ?es) - 1) = Inr (last ?es)"
    using new es s(2) len by (auto simp: at_def nat_diff_distrib nat_add_distrib)
  have b: "at ?l (int (length ?l) - 1) = Inr (last ?l)"
    using es by (intro at_last) (simp add: overwritten_def)
  have tk: "take (n + length ?es) ?l = take n (log rf) @ ?es"
    using s(3) by (simp add: overwritten_def)
  have "AppendEntry_store rf args =
     (if \<exists>e\<in>set ?es. Command e = None then Inl (Panicked ''comm is nil'')
      else Inr (rf\<lparr>log := stored (log rf) n ?es\<rparr>))"
  proof (cases "\<exists>e\<in>set ?es. Command e = None")
    case True
    then show ?thesis
      using s store_loop_eq [OF c s(3), of ?es] by (simp add: AppendEntry_store_def)
  next
    case False
    show ?thesis
    proof (cases "Suc (n + length ?es) < length (log rf)")
      case True
      then show ?thesis
        using False s store_loop_eq [OF c s(3), of ?es] a b tk old len
        by (simp add: AppendEntry_store_def stored_def nat_add_distrib)
    next
      case short: False
      then have "\<not> int (n + length ?es) < int (length ?l) - 1" using len by linarith
      then show ?thesis
        using False short s store_loop_eq [OF c s(3), of ?es]
        by (simp add: AppendEntry_store_def stored_def)
    qed
  qed
  then show ?thesis by (simp add: n_def)
qed

subsection \<open>What a call does to the peer\<close>

text \<open>The part of the state the handler changes before the log is looked at: the term, the leader
  of a deposed leader, the saved state and the notification channel.\<close>

definition same_log :: "'c Raft \<Rightarrow> 'c Raft \<Rightarrow> bool" where
  "same_log rf rf' \<longleftrightarrow> log rf' = log rf \<and> commitIndex rf' = commitIndex rf \<and> applyCh rf' = applyCh rf \<and>
     lastIndexInSnapshot rf' = lastIndexInSnapshot rf \<and> lastTermInSnapshot rf' = lastTermInSnapshot rf \<and>
     peers rf' = peers rf \<and> me rf' = me rf \<and> votedFor rf' = votedFor rf \<and>
     snapshot (persister rf') = snapshot (persister rf)"

lemma same_log_index:
  assumes "same_log rf rf'"
  shows "getLastLogIndex rf' = getLastLogIndex rf" "getTrueIndex rf' n = getTrueIndex rf n"
    "log_entry rf' n = log_entry rf n" "raft_wf rf' = raft_wf rf"
    "committed_msgs rf' a b = committed_msgs rf a b" "follower_commit rf' args = follower_commit rf args"
  using assms
  by (simp_all add: same_log_def index_defs log_entry_def raft_wf_def committed_msgs_def follower_commit_def)

text \<open>The state after the entries of an accepted call are committed and stored.\<close>

definition accepted_log :: "'c Raft \<Rightarrow> 'c AppendEntryArgs \<Rightarrow> 'c CommandTerm list" where
  "accepted_log rf args =
     (if Entries args = [] then log rf
      else stored (log rf) (nat (PrevLogIndex args + 1 - lastIndexInSnapshot rf)) (Entries args))"

definition append_effect :: "'c Raft \<Rightarrow> 'c AppendEntryArgs \<Rightarrow> 'c Raft \<Rightarrow> bool" where
  "append_effect rf args rf' \<longleftrightarrow>
     log rf' = accepted_log rf args \<and> commitIndex rf' = follower_commit rf args \<and>
     applyCh rf' = applyCh rf @ committed_msgs rf (commitIndex rf + 1) (follower_commit rf args) \<and>
     currentTerm rf' = AE_Term args \<and> peers rf' = peers rf \<and> me rf' = me rf \<and> votedFor rf' = votedFor rf \<and>
     lastIndexInSnapshot rf' = lastIndexInSnapshot rf \<and> lastTermInSnapshot rf' = lastTermInSnapshot rf \<and>
     snapshot (persister rf') = snapshot (persister rf) \<and>
     ReadRaftState (persister rf') = [GInt (AE_Term args), GLog (accepted_log rf args)]"

definition refused :: "'c Raft \<Rightarrow> 'c AppendEntryArgs \<Rightarrow> bool" where
  "refused rf args \<longleftrightarrow>
     AE_Term args < currentTerm rf \<or> getLastLogIndex rf < PrevLogIndex args \<or>
     Term (log rf ! nat (getTrueIndex rf (PrevLogIndex args))) \<noteq> PrevLogTerm args"

definition append_start :: "'c Raft \<Rightarrow> 'c AppendEntryArgs \<Rightarrow> 'c Raft" where
  "append_start rf args =
     (if AE_Term args > currentTerm rf
      then persist (if leaderNum rf = me rf
                    then rf\<lparr>leaderNum := LeaderID args, currentTerm := AE_Term args\<rparr>
                    else rf\<lparr>currentTerm := AE_Term args\<rparr>)
      else rf)"

lemma append_start_same_log: "same_log rf (append_start rf args)"
  by (auto simp: append_start_def same_log_def)

lemma append_start_term: "\<not> AE_Term args < currentTerm rf \<Longrightarrow> currentTerm (append_start rf args) = AE_Term args"
  by (auto simp: append_start_def)

lemma append_start_disk:
  "ReadRaftState (persister (append_start rf args)) =
     (if currentTerm rf < AE_Term args then [GInt (AE_Term args), GLog (log rf)]
      else ReadRaftState (persister rf))"
  by (auto simp: append_start_def persist_def persister_defs)

lemma notify_same_log:
  "notify k rf = Inr rf' \<Longrightarrow>
     same_log rf rf' \<and> currentTerm rf' = currentTerm rf \<and> persister rf' = persister rf"
  by (drule notify_Inr_conv) (auto simp: same_log_def)

text \<open>The handler as one case distinction over the state \<open>rf1\<close> found after the notification.\<close>

definition append_answer :: "'c Raft \<Rightarrow> 'c AppendEntryArgs \<Rightarrow> AppendEntryReply \<Rightarrow> ('c Raft \<times> AppendEntryReply) result" where
  "append_answer rf1 args reply =
     (if getLastLogIndex rf1 < PrevLogIndex args
      then Inr (rf1, reply\<lparr>AER_LastLogIndex := getLastLogIndex rf1, TermOfArgsPreLogIndex := lastLogTerm rf1\<rparr>)
      else let t = Term (log rf1 ! nat (getTrueIndex rf1 (PrevLogIndex args)))
      in if t \<noteq> PrevLogTerm args then Inr (rf1, reply\<lparr>TermOfArgsPreLogIndex := conflictTerm rf1 args t, Success := False\<rparr>)
      else if PrevLogIndex args < commitIndex rf1 then Inr (rf1, reply\<lparr>CommitIndex := commitIndex rf1, Success := True\<rparr>)
      else let rf2 = persist (rf1\<lparr>commitIndex := follower_commit rf1 args,
             applyCh := applyCh rf1 @ committed_msgs rf1 (commitIndex rf1 + 1) (follower_commit rf1 args)\<rparr>)
      in if Entries args = [] then Inr (rf2, reply\<lparr>Success := True\<rparr>)
      else if \<exists>e\<in>set (Entries args). Command e = None then Inl (Panicked ''comm is nil'')
      else Inr (persist (rf2\<lparr>log := accepted_log rf1 args\<rparr>), reply\<lparr>Success := True\<rparr>))"

lemma AppendEntry_eq:
  assumes wf: "raft_wf rf" and rf1: "notify 3 (append_start rf args) = Inr rf1"
    and tm: "\<not> AE_Term args < currentTerm rf"
  shows "AppendEntry rf args = append_answer rf1 args (zero_reply\<lparr>Me := me rf, AER_Term := currentTerm rf\<rparr>)"
proof -
  have wf1: "raft_wf rf1"
    using wf notify_same_log [OF rf1] append_start_same_log [of rf args] by (auto simp: same_log_index)
  note last = at_last [OF raft_wfD(1) [OF wf1]]
  show ?thesis
  proof (cases "getLastLogIndex rf1 < PrevLogIndex args")
    case True
    then show ?thesis
      using tm rf1 last
      by (simp add: AppendEntry_def append_answer_def append_start_def lastLogTerm_def cong: if_cong)
  next
    case False
    then have prev: "PrevLogIndex args \<le> getLastLogIndex rf1" by simp
    let ?c = "rf1\<lparr>commitIndex := follower_commit rf1 args,
             applyCh := applyCh rf1 @ committed_msgs rf1 (commitIndex rf1 + 1) (follower_commit rf1 args)\<rparr>"
    show ?thesis
    proof (cases "PrevLogIndex args < commitIndex rf1")
      case True
      then show ?thesis
        using tm rf1 False at_getTrueIndex [OF wf1 prev]
        by (simp add: AppendEntry_def append_answer_def append_start_def Let_def cong: if_cong)
    next
      case cle: False
      then have c: "AppendEntry_commit rf1 args = Inr ?c" by (intro AppendEntry_commit_eq wf1 prev) simp
      have wfc: "raft_wf (persist ?c)"
        using wf1 prev cle by (auto simp: raft_wf_def follower_commit_def getLastLogIndex_def)
      have st: "Entries args \<noteq> [] \<Longrightarrow> AppendEntry_store (persist ?c) args =
          (if \<exists>e\<in>set (Entries args). Command e = None then Inl (Panicked ''comm is nil'')
           else Inr ((persist ?c)\<lparr>log := accepted_log rf1 args\<rparr>))"
        using cle prev
        by (subst AppendEntry_store_eq [OF wfc]) (auto simp: follower_commit_def accepted_log_def getLastLogIndex_def)
      show ?thesis
        using tm rf1 False cle at_getTrueIndex [OF wf1 prev] c st
        by (auto simp: AppendEntry_def append_answer_def append_start_def Let_def cong: if_cong)
    qed
  qed
qed

lemma AppendEntry_old_term:
  "AE_Term args < currentTerm rf \<Longrightarrow>
     AppendEntry rf args = Inr (rf, zero_reply\<lparr>Me := me rf, AER_Term := currentTerm rf\<rparr>)"
  by (simp add: AppendEntry_def zero_reply_def)

lemma accepted_log_prefix:
  assumes "raft_wf rf" "commitIndex rf \<le> PrevLogIndex args" "PrevLogIndex args \<le> getLastLogIndex rf"
    and "i < nat (PrevLogIndex args + 1 - lastIndexInSnapshot rf)"
  shows "i < length (accepted_log rf args)" "accepted_log rf args ! i = log rf ! i"
proof -
  have "nat (PrevLogIndex args + 1 - lastIndexInSnapshot rf) \<le> length (log rf)"
    using assms(1-3) by (auto simp: raft_wf_def getLastLogIndex_def)
  then show "i < length (accepted_log rf args)" "accepted_log rf args ! i = log rf ! i"
    using assms(4) by (auto simp: accepted_log_def stored_def overwritten_def nth_append)
qed

lemma accepted_log_entries:
  assumes "raft_wf rf" "commitIndex rf \<le> PrevLogIndex args" "PrevLogIndex args \<le> getLastLogIndex rf"
    and "k < length (Entries args)"
  shows "nat (PrevLogIndex args + 1 - lastIndexInSnapshot rf) + k < length (accepted_log rf args)"
    "accepted_log rf args ! (nat (PrevLogIndex args + 1 - lastIndexInSnapshot rf) + k) = Entries args ! k"
proof -
  have "nat (PrevLogIndex args + 1 - lastIndexInSnapshot rf) \<le> length (log rf)"
    using assms(1-3) by (auto simp: raft_wf_def getLastLogIndex_def)
  then show "nat (PrevLogIndex args + 1 - lastIndexInSnapshot rf) + k < length (accepted_log rf args)"
    "accepted_log rf args ! (nat (PrevLogIndex args + 1 - lastIndexInSnapshot rf) + k) = Entries args ! k"
    using assms(4) by (auto simp: accepted_log_def stored_def overwritten_def nth_append)
qed

lemma append_effect_wf:
  assumes wf: "raft_wf rf" and prev: "commitIndex rf \<le> PrevLogIndex args" "PrevLogIndex args \<le> getLastLogIndex rf"
    and eff: "append_effect rf args rf'"
  shows "raft_wf rf'" "commitIndex rf \<le> commitIndex rf'"
    "n \<le> PrevLogIndex args \<Longrightarrow> log_entry rf' n = log_entry rf n"
proof -
  let ?p = "nat (PrevLogIndex args - lastIndexInSnapshot rf)"
  have p: "?p < nat (PrevLogIndex args + 1 - lastIndexInSnapshot rf)"
    using wf prev(1) by (auto simp: raft_wf_def)
  have len: "?p < length (log rf')"
    using accepted_log_prefix(1) [OF wf prev p] eff by (simp add: append_effect_def)
  show "raft_wf rf'"
    using wf prev(1) len eff by (auto simp: raft_wf_def append_effect_def follower_commit_def getLastLogIndex_def)
  show "commitIndex rf \<le> commitIndex rf'" using eff by (simp add: append_effect_def follower_commit_def)
  show "log_entry rf' n = log_entry rf n" if "n \<le> PrevLogIndex args"
    using that prev wf eff accepted_log_prefix [OF wf prev]
    by (intro log_entry_eqI [where k = "nat (PrevLogIndex args + 1 - lastIndexInSnapshot rf)"])
      (auto simp: append_effect_def raft_wf_def)
qed

lemma append_effect_entries:
  assumes wf: "raft_wf rf" and prev: "commitIndex rf \<le> PrevLogIndex args" "PrevLogIndex args \<le> getLastLogIndex rf"
    and eff: "append_effect rf args rf'" and k: "k < length (Entries args)"
  shows "log_entry rf' (PrevLogIndex args + 1 + int k) = Some (Entries args ! k)"
proof -
  define n where "n = nat (PrevLogIndex args + 1 - lastIndexInSnapshot rf)"
  have n: "PrevLogIndex args + 1 + int k = lastIndexInSnapshot rf + int (n + k)"
    using prev(1) raft_wfD(3) [OF wf] by (simp add: n_def)
  have "n + k < length (log rf')" "log rf' ! (n + k) = Entries args ! k"
    using accepted_log_entries [OF wf prev k] eff by (simp_all add: n_def append_effect_def)
  then show ?thesis
    using eff by (simp add: n log_entry_def getLastLogIndex_def append_effect_def nat_int_add)
qed

text \<open>Every call that returns either leaves log, commit index and messages alone or has the
  effect of an accepted call.\<close>

lemma AppendEntry_cases:
  assumes wf: "raft_wf rf" and ret: "AppendEntry rf args = Inr (rf', reply)"
  obtains "same_log rf rf'" "currentTerm rf' = max (currentTerm rf) (AE_Term args)"
    "ReadRaftState (persister rf') =
       (if currentTerm rf < AE_Term args then [GInt (AE_Term args), GLog (log rf)]
        else ReadRaftState (persister rf))"
  | "append_effect rf args rf'" "commitIndex rf \<le> PrevLogIndex args" "PrevLogIndex args \<le> getLastLogIndex rf"
    "\<not> AE_Term args < currentTerm rf" "\<not> refused rf args"
proof (cases "AE_Term args < currentTerm rf")
  case True
  then show ?thesis
    using that(1) ret by (auto simp: AppendEntry_old_term same_log_def)
next
  case False
  obtain rf1 where rf1: "notify 3 (append_start rf args) = Inr rf1"
    using ret False by (auto simp: AppendEntry_def append_start_def Let_def rbind_Inr_conv)
  have same: "same_log rf rf1" "currentTerm rf1 = AE_Term args"
    using notify_same_log [OF rf1] append_start_same_log [of rf args] append_start_term [OF False]
    by (auto simp: same_log_def)
  have max: "max (currentTerm rf) (AE_Term args) = AE_Term args" using False by simp
  have disk: "ReadRaftState (persister rf1) =
      (if currentTerm rf < AE_Term args then [GInt (AE_Term args), GLog (log rf)]
       else ReadRaftState (persister rf))"
    using notify_same_log [OF rf1] by (simp add: append_start_disk)
  note ix = same_log_index [OF same(1)]
  have "append_answer rf1 args (zero_reply\<lparr>Me := me rf, AER_Term := currentTerm rf\<rparr>) = Inr (rf', reply)"
    using AppendEntry_eq [OF wf rf1 False] ret by simp
  moreover have "commitIndex rf1 = commitIndex rf" "log rf1 = log rf" "accepted_log rf1 args = accepted_log rf args"
    using same by (simp_all add: same_log_def accepted_log_def)
  ultimately show ?thesis
    using False same max ix that disk
    by (auto simp: append_answer_def Let_def append_effect_def same_log_def refused_def accepted_log_def
        not_less split: if_splits)
qed

lemma append_effect_msgs:
  assumes "raft_wf rf" "commitIndex rf \<le> PrevLogIndex args" "PrevLogIndex args \<le> getLastLogIndex rf"
    and "append_effect rf args rf'"
  shows "applyCh rf' = applyCh rf @ committed_msgs rf' (commitIndex rf + 1) (commitIndex rf')"
proof -
  have "committed_msgs rf (commitIndex rf + 1) (follower_commit rf args) =
      committed_msgs rf' (commitIndex rf + 1) (commitIndex rf')"
    unfolding committed_msgs_def
  proof (rule map_cong)
    fix x
    assume "x \<in> set [commitIndex rf + 1..commitIndex rf']"
    then have "nat (x - lastIndexInSnapshot rf) < nat (PrevLogIndex args + 1 - lastIndexInSnapshot rf)"
      using assms(2,4) raft_wfD(3) [OF assms(1)] by (auto simp: append_effect_def follower_commit_def max_def split: if_splits)
    from accepted_log_prefix(2) [OF assms(1-3) this]
    show "cmd_msg (Command (log rf ! nat (x - lastIndexInSnapshot rf))) x =
        cmd_msg (Command (log rf' ! nat (x - lastIndexInSnapshot rf'))) x"
      using assms(4) by (simp add: append_effect_def)
  qed (use assms(4) in \<open>simp add: append_effect_def\<close>)
  then show ?thesis using assms(4) by (simp add: append_effect_def)
qed

lemma AppendEntry_safe_lemma:
  assumes wf: "raft_wf rf" and ret: "AppendEntry rf args = Inr (rf', reply)"
  shows "raft_wf rf' \<and> commitIndex rf \<le> commitIndex rf' \<and>
     (\<forall>n \<le> commitIndex rf. log_entry rf' n = log_entry rf n) \<and>
     applyCh rf' = applyCh rf @ committed_msgs rf' (commitIndex rf + 1) (commitIndex rf') \<and>
     currentTerm rf' = max (currentTerm rf) (AE_Term args) \<and>
     lastIndexInSnapshot rf' = lastIndexInSnapshot rf"
  using wf ret
proof (cases rule: AppendEntry_cases)
  case 1
  then show ?thesis using wf by (simp add: same_log_index) (simp add: same_log_def)
next
  case 2
  then show ?thesis
    using append_effect_wf [OF wf 2(2,3,1)] append_effect_msgs [OF wf 2(2,3,1)]
    by (auto simp: append_effect_def)
qed

text \<open>C2: no AppendEntry call, whatever its arguments, breaks the well-formedness of the peer, lowers
  its commit index or its term, or changes a committed entry; and the messages it sends to the service
  are the entries between the old and the new commit index, each once and in order.\<close>

theorem AppendEntry_safe:
  assumes "raft_wf rf" "AppendEntry rf args = Inr (rf', reply)"
  shows "raft_wf rf' \<and> commitIndex rf \<le> commitIndex rf' \<and>
     (\<forall>n \<le> commitIndex rf. log_entry rf' n = log_entry rf n) \<and>
     applyCh rf' = applyCh rf @ committed_msgs rf' (commitIndex rf + 1) (commitIndex rf') \<and>
     currentTerm rf' = max (currentTerm rf) (AE_Term args) \<and>
     lastIndexInSnapshot rf' = lastIndexInSnapshot rf"
  using assms by (rule AppendEntry_safe_lemma)

definition follower_with_terms :: "int list \<Rightarrow> nat Raft" where
  "follower_with_terms ts = zero_raft\<lparr>peers := 3, me := 1, currentTerm := last ts, leaderNum := -1,
     votedFor := 1, log := \<lparr>Command = None, Term = 0\<rparr> # map (\<lambda>t. \<lparr>Command = Some 7, Term = t\<rparr>) ts\<rparr>"

definition append_call :: "int \<Rightarrow> int \<Rightarrow> int \<Rightarrow> int list \<Rightarrow> int \<Rightarrow> nat AppendEntryArgs" where
  "append_call t i pt ts c = \<lparr>AE_Term = t, LeaderID = 0, PrevLogIndex = i, PrevLogTerm = pt,
     Entries = map (\<lambda>t. \<lparr>Command = Some 9, Term = t\<rparr>) ts, LeaderCommit = c\<rparr>"

lemmas append_sample_defs = follower_with_terms_def append_call_def zero_raft_def

lemma follower_with_terms_wf: "raft_wf (follower_with_terms ts)"
  by (simp add: raft_wf_def append_sample_defs getLastLogIndex_def)

theorem AppendEntry_safe_witness:
  "\<exists>rf' reply. AppendEntry (follower_with_terms [1, 2, 2]) (append_call 4 1 1 [3] 5) = Inr (rf', reply) \<and>
     commitIndex (follower_with_terms [1, 2, 2]) \<le> commitIndex rf' \<and> raft_wf rf' \<and> commitIndex rf' = 1"
proof -
  have "\<exists>rf' reply. AppendEntry (follower_with_terms [1, 2, 2]) (append_call 4 1 1 [3] 5) = Inr (rf', reply) \<and>
     commitIndex rf' = 1"
    by (simp add: AppendEntry_def AppendEntry_commit_def AppendEntry_store_def append_sample_defs
        notify_def at_def put_at_def slice_of_def index_defs persist_def)
  then show ?thesis using AppendEntry_safe [OF follower_with_terms_wf] by blast
qed

lemma AppendEntry_accepted:
  assumes "raft_wf rf" "3 \<le> peers rf" "\<not> refused rf args" "commitIndex rf \<le> PrevLogIndex args"
    and "\<And>e. e \<in> set (Entries args) \<Longrightarrow> Command e \<noteq> None"
  shows "\<exists>rf' reply. AppendEntry rf args = Inr (rf', reply) \<and> Success reply \<and> CommitIndex reply = 0 \<and>
     append_effect rf args rf'"
proof -
  have nr: "\<not> AE_Term args < currentTerm rf" "PrevLogIndex args \<le> getLastLogIndex rf"
    using assms(3) by (auto simp: refused_def)
  have "3 \<le> peers (append_start rf args)"
    using assms(2) append_start_same_log [of rf args] by (simp add: same_log_def)
  then obtain rf1 where rf1: "notify 3 (append_start rf args) = Inr rf1"
    using notify_Inr by blast
  have same: "same_log rf rf1"
    using notify_same_log [OF rf1] append_start_same_log [of rf args] by (auto simp: same_log_def)
  note ix = same_log_index [OF same]
  have eqs: "commitIndex rf1 = commitIndex rf" "log rf1 = log rf" "accepted_log rf1 args = accepted_log rf args"
    using same by (simp_all add: same_log_def accepted_log_def)
  have cmds: "(\<exists>e\<in>set (Entries args). Command e = None) \<longleftrightarrow> False" using assms(5) by blast
  let ?rf2 = "persist (rf1\<lparr>commitIndex := follower_commit rf args,
     applyCh := applyCh rf1 @ committed_msgs rf (commitIndex rf + 1) (follower_commit rf args)\<rparr>)"
  let ?rf' = "if Entries args = [] then ?rf2 else persist (?rf2\<lparr>log := accepted_log rf args\<rparr>)"
  let ?reply = "zero_reply\<lparr>Me := me rf, AER_Term := currentTerm rf, Success := True\<rparr>"
  have "append_answer rf1 args (zero_reply\<lparr>Me := me rf, AER_Term := currentTerm rf\<rparr>) = Inr (?rf', ?reply)"
    using assms(3,4) cmds nr ix eqs by (auto simp: append_answer_def refused_def Let_def simp del: bex_simps)
  then have r: "AppendEntry rf args = Inr (?rf', ?reply)" "Success ?reply"
    using AppendEntry_eq [OF assms(1) rf1 nr(1)] by simp_all
  have "currentTerm rf1 = AE_Term args"
    using notify_same_log [OF rf1] append_start_term [OF nr(1)] by simp
  then have eff: "append_effect rf args ?rf'"
    using same by (simp add: append_effect_def accepted_log_def same_log_def)
  show ?thesis
    using r eff by (intro exI [of _ ?rf'] exI [of _ ?reply] conjI) (simp_all add: zero_reply_def)
qed

text \<open>C3: a call in the current or a newer term whose previous entry matches, at or above the commit
  index, with real commands, is accepted: the log keeps everything up to the previous entry and
  continues with the sent entries, the commit index rises to the leader's as far as the previous
  entry, and term and log are on disk when the answer goes out.\<close>

theorem AppendEntry_accepts:
  assumes "raft_wf rf" "3 \<le> peers rf" "\<not> refused rf args" "commitIndex rf \<le> PrevLogIndex args"
    and "\<And>e. e \<in> set (Entries args) \<Longrightarrow> Command e \<noteq> None"
  shows "\<exists>rf' reply. AppendEntry rf args = Inr (rf', reply) \<and> Success reply \<and> append_effect rf args rf' \<and>
     (\<forall>n \<le> PrevLogIndex args. log_entry rf' n = log_entry rf n) \<and>
     (\<forall>k < length (Entries args). log_entry rf' (PrevLogIndex args + 1 + int k) = Some (Entries args ! k))"
proof -
  obtain rf' reply where r: "AppendEntry rf args = Inr (rf', reply)" "Success reply" "append_effect rf args rf'"
    using AppendEntry_accepted [OF assms] by blast
  have prev: "PrevLogIndex args \<le> getLastLogIndex rf" using assms(3) by (simp add: refused_def)
  show ?thesis
    using r append_effect_wf(3) [OF assms(1,4) prev r(3)] append_effect_entries [OF assms(1,4) prev r(3)] by blast
qed

theorem AppendEntry_accepts_witness:
  "\<exists>rf' reply. AppendEntry (follower_with_terms [1, 2, 2]) (append_call 4 1 1 [3] 5) = Inr (rf', reply) \<and>
     Success reply \<and> log_entry rf' 2 = Some \<lparr>Command = Some 9, Term = 3\<rparr>"
proof -
  let ?rf = "follower_with_terms [1, 2, 2]" and ?a = "append_call 4 1 1 [3] 5"
  have "3 \<le> peers ?rf" "\<not> refused ?rf ?a" "commitIndex ?rf \<le> PrevLogIndex ?a"
    "\<And>e. e \<in> set (Entries ?a) \<Longrightarrow> Command e \<noteq> None"
    by (auto simp: append_sample_defs refused_def index_defs)
  from AppendEntry_accepts [OF follower_with_terms_wf this]
  obtain rf' reply where r: "AppendEntry ?rf ?a = Inr (rf', reply)" "Success reply"
    and e: "\<forall>k < length (Entries ?a). log_entry rf' (PrevLogIndex ?a + 1 + int k) = Some (Entries ?a ! k)"
    by blast
  have "log_entry rf' 2 = Some \<lparr>Command = Some 9, Term = 3\<rparr>"
    using e [rule_format, of 0] by (simp add: append_call_def)
  with r show ?thesis by blast
qed

text \<open>The cut of the old tail asks for two leftover entries. With one leftover entry the
  follower's log ends in a term below the one it has just accepted, and the follower then grants its
  vote to a candidate that does not hold the accepted entry.\<close>

theorem leftover_tail_wins_vote:
  "\<exists>rf' reply. AppendEntry (follower_with_terms [1, 2, 2]) (append_call 4 1 1 [3] 5) = Inr (rf', reply) \<and>
     Success reply \<and> map Term (log rf') = [0, 1, 3, 2] \<and>
     grants rf' (vote_request 5 2 3 2)"
  by (simp add: AppendEntry_def AppendEntry_commit_def AppendEntry_store_def append_sample_defs zero_reply_def
      notify_def at_def put_at_def slice_of_def index_defs persist_def grants_def up_to_date_def
      lastLogTerm_def vote_request_def)

end
