(* ===== verification/Raft_Snapshot.thy ===== *)
theory Raft_Snapshot
  imports Raft_Append
begin

section \<open>Raft: snapshots and restarts\<close>

text \<open>
  \<open>TakeSnapshots\<close>, \<open>readSnapshotPersist\<close>, \<open>InstallSnapShot\<close>, \<open>sendSnapShot\<close> and
  \<open>Make\<close> of \<^verbatim>\<open>src/raft/raft.go\<close>. A snapshot on disk is the gob stream of the service's
  sequence table, its key/value map, the index of the last entry it covers and that entry's term.
\<close>

record 'c InstallSnapShotArgs =
  IS_Term :: int
  LeaderId :: int
  LastIncludedIndex :: int
  LastIncludedTerm :: int
  Data :: "'c gob list"

record InstallSnapShotReply =
  ISR_Success :: bool
  ISR_Term :: int
  Err_code :: int
  Value :: int

subsection \<open>Taking and reading snapshots\<close>

text \<open>The first test of \<open>TakeSnapshots\<close> is made without the lock and repeated under it; the
  definition is the part under the lock.\<close>

definition TakeSnapshots ::
  "'c Raft \<Rightarrow> (int32 \<rightharpoonup> int) \<Rightarrow> (string \<rightharpoonup> string) \<Rightarrow> int \<Rightarrow> 'c Raft result" where
  "TakeSnapshots rf seq rsm index =
     (let endIndex = index - 1
      in if endIndex < 1 \<or> endIndex \<le> lastIndexInSnapshot rf then Inr rf
         else rbind (at (log rf) (getTrueIndex rf endIndex)) (\<lambda>e.
           let endIndexTerm = Term e;
               data = [GSeq seq, GRsm rsm, GInt endIndex, GInt endIndexTerm];
               preIndex = lastIndexInSnapshot rf
           in if endIndex > preIndex
              then rbind (truncate_log rf endIndex preIndex endIndexTerm) (\<lambda>l.
                let rf = rf\<lparr>lastTermInSnapshot := endIndexTerm, lastIndexInSnapshot := endIndex, log := l\<rparr>;
                    data2 = [GInt (currentTerm rf), GLog (log rf), GInt (lastIndexInSnapshot rf)]
                in Inr (rf\<lparr>persister := SaveStateAndSnapshot (persister rf) data2 data\<rparr>))
              else Inr rf))"

definition snapshot_msg :: "(int32 \<rightharpoonup> int) \<Rightarrow> (string \<rightharpoonup> string) \<Rightarrow> 'c ApplyMsg" where
  "snapshot_msg seq rsm = \<lparr>CommandValid = False, ApplyCommand = None, CommandIndex = 0,
     ClientMaxRequestSeq = seq, Rsm = rsm\<rparr>"

definition decode_snapshot ::
  "'c gob list \<Rightarrow> ((int32 \<rightharpoonup> int) \<times> (string \<rightharpoonup> string) \<times> int \<times> int) result" where
  "decode_snapshot data =
     (case decode_seq data of
        None \<Rightarrow> Inl (Panicked ''install snapshot meet decode ClientMaxRequestSeq error'')
      | Some (seq, d) \<Rightarrow> (case decode_rsm d of
          None \<Rightarrow> Inl (Panicked ''install snapshot meet decode RSM error'')
        | Some (rsm, d) \<Rightarrow> (case decode_int d of
            None \<Rightarrow> Inl (Panicked ''install snapshot meet decode index& term error'')
          | Some (lastIndex, d) \<Rightarrow> (case decode_int d of
              None \<Rightarrow> Inl (Panicked ''install snapshot meet decode index& term error'')
            | Some (lastTerm, _) \<Rightarrow> Inr (seq, rsm, lastIndex, lastTerm)))))"

text \<open>The part of \<open>readSnapshotPersist\<close> up to the release of the lock gives the message that is still to be sent;
  the rest sends it and saves the snapshot. Other handlers may run in between (theory \<open>Raft_Node\<close>).\<close>

definition readSnapshot_locked :: "'c Raft \<Rightarrow> 'c gob list \<Rightarrow> ('c Raft \<times> 'c ApplyMsg option) result" where
  "readSnapshot_locked rf data =
     (if data = [] then Inr (rf, None)
      else rbind (decode_snapshot data) (\<lambda>(seq, rsm, lastIndex, lastTerm).
        if lastIndex \<le> lastIndexInSnapshot rf then Inr (rf, None)
        else Inr (rf\<lparr>lastTermInSnapshot := lastTerm, log := [\<lparr>Command = None, Term = lastTerm\<rparr>],
                     lastIndexInSnapshot := lastIndex, commitIndex := lastIndex\<rparr>,
                  Some (snapshot_msg seq rsm))))"

definition readSnapshot_send :: "'c Raft \<Rightarrow> 'c gob list \<Rightarrow> 'c ApplyMsg \<Rightarrow> 'c Raft" where
  "readSnapshot_send rf data applyMsg =
     (let rf = rf\<lparr>applyCh := applyCh rf @ [applyMsg]\<rparr>
      in rf\<lparr>persister := SaveStateAndSnapshot (persister rf) (ReadRaftState (persister rf)) data\<rparr>)"

definition readSnapshotPersist :: "'c Raft \<Rightarrow> 'c gob list \<Rightarrow> 'c Raft result" where
  "readSnapshotPersist rf data =
     rbind (readSnapshot_locked rf data) (\<lambda>(rf, applyMsg).
       Inr (case applyMsg of None \<Rightarrow> rf | Some m \<Rightarrow> readSnapshot_send rf data m))"

lemma readSnapshotPersist_eq:
  "readSnapshotPersist rf data =
     (if data = [] then Inr rf
      else rbind (decode_snapshot data) (\<lambda>(seq, rsm, lastIndex, lastTerm).
        if lastIndex \<le> lastIndexInSnapshot rf then Inr rf
        else let rf = rf\<lparr>lastTermInSnapshot := lastTerm, log := [\<lparr>Command = None, Term = lastTerm\<rparr>],
                         lastIndexInSnapshot := lastIndex, commitIndex := lastIndex\<rparr>;
                 rf = rf\<lparr>applyCh := applyCh rf @ [snapshot_msg seq rsm]\<rparr>
             in Inr (rf\<lparr>persister :=
                       SaveStateAndSnapshot (persister rf) (ReadRaftState (persister rf)) data\<rparr>)))"
  by (cases "decode_snapshot data")
    (auto simp: readSnapshotPersist_def readSnapshot_locked_def readSnapshot_send_def Let_def)

subsection \<open>The InstallSnapShot call\<close>

definition InstallSnapShot ::
  "'c Raft \<Rightarrow> 'c InstallSnapShotArgs \<Rightarrow> ('c Raft \<times> InstallSnapShotReply) result" where
  "InstallSnapShot rf args =
     (let reply = \<lparr>ISR_Success = True, ISR_Term = currentTerm rf, Err_code = 0, Value = 0\<rparr>
      in if IS_Term args < currentTerm rf
         then Inr (rf, reply\<lparr>ISR_Success := False, Err_code := 1\<rparr>)
         else if LastIncludedIndex args \<le> lastIndexInSnapshot rf
         then Inr (rf, reply\<lparr>ISR_Success := False, Err_code := 2, Value := lastIndexInSnapshot rf\<rparr>)
         else rbind (if getLastLogIndex rf \<ge> LastIncludedIndex args
                     then rbind (at (log rf) (getTrueIndex rf (LastIncludedIndex args)))
                            (\<lambda>e. Inr (Term e = LastIncludedTerm args))
                     else Inr False) (\<lambda>same.
           if same then Inr (rf, reply\<lparr>ISR_Success := False, Err_code := 3\<rparr>)
           else rbind (readSnapshotPersist rf (Data args)) (\<lambda>rf.
             if LastIncludedIndex args > lastIndexInSnapshot rf then Inl (Panicked ''install error'')
             else Inr (rf, reply))))"

definition snapshot_args :: "'c Raft \<Rightarrow> 'c InstallSnapShotArgs" where
  "snapshot_args rf = \<lparr>IS_Term = currentTerm rf, LeaderId = leaderNum rf,
     LastIncludedIndex = lastIndexInSnapshot rf, LastIncludedTerm = lastTermInSnapshot rf,
     Data = ReadSnapshot (persister rf)\<rparr>"

text \<open>Five tries; \<open>calls\<close> is what the calls return, \<open>None\<close> for a failed one. A reply that never
  comes leaves the reply variable at its zero value.\<close>

fun snapshot_reply :: "nat \<Rightarrow> InstallSnapShotReply option list \<Rightarrow> InstallSnapShotReply" where
  "snapshot_reply (Suc n) (Some r # calls) = r"
| "snapshot_reply (Suc n) (None # calls) = snapshot_reply n calls"
| "snapshot_reply _ _ = \<lparr>ISR_Success = False, ISR_Term = 0, Err_code = 0, Value = 0\<rparr>"

definition set_progress :: "'c Raft \<Rightarrow> int \<Rightarrow> int \<Rightarrow> int \<Rightarrow> 'c Raft result" where
  "set_progress rf ind next match =
     rbind (put_at (nextIndex rf) ind next) (\<lambda>ns.
     rbind (put_at (matchIndex rf) ind match) (\<lambda>ms. Inr (rf\<lparr>nextIndex := ns, matchIndex := ms\<rparr>)))"

text \<open>The first debug line reads \<open>nextIndex[ind]\<close>.\<close>

definition sendSnapShot :: "'c Raft \<Rightarrow> int \<Rightarrow> InstallSnapShotReply option list \<Rightarrow> 'c Raft result" where
  "sendSnapShot rf ind calls =
     rbind (at (nextIndex rf) ind) (\<lambda>_.
      let args = snapshot_args rf; reply = snapshot_reply 5 calls
      in if Err_code reply \<noteq> 0
         then if Err_code reply = 1 then Inr (rf\<lparr>currentTerm := ISR_Term reply, leaderNum := Value reply\<rparr>)
              else if Err_code reply = 2 then set_progress rf ind (Value reply + 1) (Value reply)
              else if Err_code reply = 3
              then set_progress rf ind (LastIncludedIndex args + 1) (LastIncludedIndex args)
              else Inr rf
         else set_progress rf ind (LastIncludedIndex args + 1) (LastIncludedIndex args))"

subsection \<open>Start and restart\<close>

definition Make :: "nat \<Rightarrow> int \<Rightarrow> 'c Persister \<Rightarrow> 'c Raft result" where
  "Make n i ps =
     (let rf = zero_raft\<lparr>peers := n, persister := ps, me := i, leaderNum := -1, votedFor := -1,
                        currentTerm := 0\<rparr>
      in rbind (readSnapshotPersist rf (ReadSnapshot ps)) (\<lambda>rf.
         rbind (readPersist rf (ReadRaftState (persister rf))) (\<lambda>rf.
           let rf = (if length (log rf) < 1 then rf\<lparr>log := log rf @ [\<lparr>Command = None, Term = 0\<rparr>]\<rparr> else rf)
           in Inr (rf\<lparr>commitIndex := lastIndexInSnapshot rf, lastApplied := 0, AENotifyChan := 0,
                      commandToBeExec := 0\<rparr>))))"

subsection \<open>A snapshot keeps the names and contents of what it leaves\<close>

definition snapshot_taken ::
  "'c Raft \<Rightarrow> (int32 \<rightharpoonup> int) \<Rightarrow> (string \<rightharpoonup> string) \<Rightarrow> int \<Rightarrow> 'c Raft" where
  "snapshot_taken rf seq rsm e =
     (let n = nat (e - lastIndexInSnapshot rf); t = Term (log rf ! n); l = drop n (log rf)
      in rf\<lparr>lastTermInSnapshot := t, lastIndexInSnapshot := e, log := l,
            persister := SaveStateAndSnapshot (persister rf) [GInt (currentTerm rf), GLog l, GInt e]
                           [GSeq seq, GRsm rsm, GInt e, GInt t]\<rparr>)"

lemma TakeSnapshots_eq:
  assumes "raft_wf rf" "lastIndexInSnapshot rf < index - 1" "index - 1 \<le> getLastLogIndex rf"
  shows "TakeSnapshots rf seq rsm index = Inr (snapshot_taken rf seq rsm (index - 1))"
proof -
  have a: "at (log rf) (getTrueIndex rf (index - 1)) =
      Inr (log rf ! nat (index - 1 - lastIndexInSnapshot rf))"
    using at_getTrueIndex [OF assms(1,3)] assms(2) by (simp add: getTrueIndex_def)
  have ne: "drop (nat (index - 1 - lastIndexInSnapshot rf)) (log rf) \<noteq> []"
    using assms by (auto simp: getLastLogIndex_def)
  show ?thesis
    using assms(1,2) a ne
    by (auto simp: TakeSnapshots_def truncate_eq snapshot_taken_def Let_def raft_wf_def persister_defs)
qed

lemma TakeSnapshots_skip:
  "index - 1 < 1 \<or> index - 1 \<le> lastIndexInSnapshot rf \<Longrightarrow> TakeSnapshots rf seq rsm index = Inr rf"
  by (auto simp: TakeSnapshots_def Let_def)

lemma log_entry_drop:
  assumes "log rf' = drop (nat (e - lastIndexInSnapshot rf)) (log rf)" "lastIndexInSnapshot rf' = e"
    and "lastIndexInSnapshot rf \<le> e" "e \<le> getLastLogIndex rf" "e \<le> n"
  shows "log_entry rf' n = log_entry rf n" "getLastLogIndex rf' = getLastLogIndex rf"
proof -
  have "nat (e - lastIndexInSnapshot rf) + nat (n - e) = nat (n - lastIndexInSnapshot rf)"
    using assms(3,5) by simp
  then show "log_entry rf' n = log_entry rf n"
    using assms by (auto simp: log_entry_def getLastLogIndex_def)
  show "getLastLogIndex rf' = getLastLogIndex rf"
    using assms by (auto simp: getLastLogIndex_def)
qed

lemma snapshot_taken_wf:
  assumes "raft_wf rf" "lastIndexInSnapshot rf < e" "e \<le> commitIndex rf"
  shows "raft_wf (snapshot_taken rf seq rsm e)" "commitIndex (snapshot_taken rf seq rsm e) = commitIndex rf"
    "e \<le> n \<Longrightarrow> log_entry (snapshot_taken rf seq rsm e) n = log_entry rf n"
    "getLastLogIndex (snapshot_taken rf seq rsm e) = getLastLogIndex rf"
proof -
  have e: "e \<le> getLastLogIndex rf" using assms(1,3) by (simp add: raft_wf_def)
  show last: "getLastLogIndex (snapshot_taken rf seq rsm e) = getLastLogIndex rf"
    by (rule log_entry_drop(2) [where e = e]) (use assms(2) e in \<open>auto simp: snapshot_taken_def Let_def\<close>)
  show "log_entry (snapshot_taken rf seq rsm e) n = log_entry rf n" if "e \<le> n"
    by (rule log_entry_drop(1) [where e = e]) (use assms(2) e that in \<open>auto simp: snapshot_taken_def Let_def\<close>)
  show "commitIndex (snapshot_taken rf seq rsm e) = commitIndex rf"
    by (simp add: snapshot_taken_def Let_def)
  then show "raft_wf (snapshot_taken rf seq rsm e)"
    using assms e last
    by (auto simp: raft_wf_def) (auto simp: snapshot_taken_def Let_def getLastLogIndex_def)
qed

text \<open>C10: a snapshot of the commands before \<open>index\<close>, taken when they are committed, moves the
  start of the log to \<open>index - 1\<close> and nothing else: every later entry keeps its index and its
  content, the last index and the commit index stay, and disk holds the service's state, the
  covered index and that entry's term together with the shortened log.\<close>

theorem TakeSnapshots_keeps_entries:
  assumes "raft_wf rf" "lastIndexInSnapshot rf < index - 1" "index - 1 \<le> commitIndex rf"
  shows "\<exists>rf'. TakeSnapshots rf seq rsm index = Inr rf' \<and> raft_wf rf' \<and>
     lastIndexInSnapshot rf' = index - 1 \<and> commitIndex rf' = commitIndex rf \<and>
     getLastLogIndex rf' = getLastLogIndex rf \<and>
     (\<forall>n \<ge> index - 1. log_entry rf' n = log_entry rf n) \<and>
     decode_snapshot (snapshot (persister rf')) = Inr (seq, rsm, index - 1, lastTermInSnapshot rf') \<and>
     raftstate (persister rf') = [GInt (currentTerm rf), GLog (log rf'), GInt (index - 1)]"
proof -
  have "index - 1 \<le> getLastLogIndex rf" using assms(1,3) by (simp add: raft_wf_def)
  note t = TakeSnapshots_eq [OF assms(1,2) this, of seq rsm]
  show ?thesis
    using snapshot_taken_wf [OF assms, where seq = seq and rsm = rsm]
    by (intro exI [of _ "snapshot_taken rf seq rsm (index - 1)"] conjI t)
      (auto simp: snapshot_taken_def Let_def persister_defs decode_snapshot_def)
qed

theorem TakeSnapshots_keeps_entries_witness:
  "\<exists>rf'. TakeSnapshots ((follower_with_terms [1, 2, 2])\<lparr>commitIndex := 2\<rparr>) Map.empty Map.empty 3 = Inr rf' \<and>
     lastIndexInSnapshot rf' = 2 \<and> log_entry rf' 3 = Some \<lparr>Command = Some 7, Term = 2\<rparr>"
proof -
  let ?rf = "(follower_with_terms [1, 2, 2])\<lparr>commitIndex := 2\<rparr>"
  have "raft_wf ?rf" "lastIndexInSnapshot ?rf < 3 - 1" "3 - 1 \<le> commitIndex ?rf"
    by (simp_all add: append_sample_defs raft_wf_def getLastLogIndex_def)
  from TakeSnapshots_keeps_entries [OF this, of Map.empty Map.empty]
  obtain rf' where r: "TakeSnapshots ?rf Map.empty Map.empty 3 = Inr rf'" "lastIndexInSnapshot rf' = 2"
    "log_entry rf' 3 = log_entry ?rf 3" by auto
  have "log_entry ?rf 3 = Some \<lparr>Command = Some 7, Term = 2\<rparr>"
    by (simp add: append_sample_defs log_entry_def getLastLogIndex_def)
  with r show ?thesis by auto
qed

subsection \<open>Restart\<close>

text \<open>What disk must hold so that a restart finds the peer's log: a snapshot that covers exactly
  what the log no longer has, and the term and the log themselves.\<close>

definition disk_snapshot :: "'c Raft \<Rightarrow> bool" where
  "disk_snapshot rf \<longleftrightarrow>
     (if snapshot (persister rf) = [] then lastIndexInSnapshot rf = 0
      else 0 < lastIndexInSnapshot rf \<and>
        (\<exists>seq rsm. decode_snapshot (snapshot (persister rf)) =
           Inr (seq, rsm, lastIndexInSnapshot rf, lastTermInSnapshot rf)))"

definition disk_log :: "'c Raft \<Rightarrow> bool" where
  "disk_log rf \<longleftrightarrow> (\<exists>rest. ReadRaftState (persister rf) = GInt (currentTerm rf) # GLog (log rf) # rest)"

lemma readSnapshotPersist_frame:
  assumes "readSnapshotPersist rf d = Inr rf'"
  shows "peers rf' = peers rf" "me rf' = me rf" "votedFor rf' = votedFor rf" "currentTerm rf' = currentTerm rf"
    "lastIndexInSnapshot rf \<le> lastIndexInSnapshot rf'"
  using assms
  by (auto simp: readSnapshotPersist_eq rbind_Inr_conv Let_def split: if_splits)

lemma readPersist_frame:
  assumes "readPersist rf d = Inr rf'"
  shows "peers rf' = peers rf" "me rf' = me rf" "votedFor rf' = votedFor rf"
    "lastIndexInSnapshot rf' = lastIndexInSnapshot rf"
  using assms by (auto simp: readPersist_def split: if_splits option.splits prod.splits)

lemma Make_wf:
  assumes "Make n i ps = Inr rf"
  shows "raft_wf rf" "peers rf = n" "me rf = i" "votedFor rf = -1" "commitIndex rf = lastIndexInSnapshot rf"
proof -
  from assms obtain rf1 rf2 where
    r1: "readSnapshotPersist (zero_raft\<lparr>peers := n, persister := ps, me := i, leaderNum := -1,
           votedFor := -1, currentTerm := 0\<rparr>) (ReadSnapshot ps) = Inr rf1"
    and r2: "readPersist rf1 (ReadRaftState (persister rf1)) = Inr rf2"
    and rf: "rf = (if length (log rf2) < 1 then rf2\<lparr>log := log rf2 @ [\<lparr>Command = None, Term = 0\<rparr>]\<rparr> else rf2)
        \<lparr>commitIndex := lastIndexInSnapshot rf2, lastApplied := 0, AENotifyChan := 0, commandToBeExec := 0\<rparr>"
    by (auto simp: Make_def rbind_Inr_conv Let_def split: if_splits)
  note f = readSnapshotPersist_frame [OF r1] readPersist_frame [OF r2]
  show "raft_wf rf" "peers rf = n" "me rf = i" "votedFor rf = -1" "commitIndex rf = lastIndexInSnapshot rf"
    using f by (auto simp: rf raft_wf_def getLastLogIndex_def zero_raft_def Suc_le_eq)
qed

text \<open>C9: a peer that crashes and starts again from a disk that holds its snapshot, term and log
  has the same term and the same log under the same indices, and treats as committed exactly what the
  snapshot covers.\<close>

theorem restart_recovers:
  assumes "log rf \<noteq> []" "disk_snapshot rf" "disk_log rf"
  shows "\<exists>rf'. Make n i (persister rf) = Inr rf' \<and> currentTerm rf' = currentTerm rf \<and> log rf' = log rf \<and>
     (\<forall>k. log_entry rf' k = log_entry rf k) \<and> commitIndex rf' = lastIndexInSnapshot rf \<and> raft_wf rf'"
proof -
  obtain rf' where rf': "Make n i (persister rf) = Inr rf'" "currentTerm rf' = currentTerm rf" "log rf' = log rf"
     "lastIndexInSnapshot rf' = lastIndexInSnapshot rf"
    using assms
    by (auto simp: Make_def readSnapshotPersist_eq readPersist_def disk_snapshot_def disk_log_def Let_def
        zero_raft_def persister_defs Suc_le_eq split: if_splits)
  then show ?thesis
    using Make_wf(1,5) [OF rf'(1)] by (auto simp: log_entry_def getLastLogIndex_def)
qed

lemma disk_log_persist: "disk_log (persist rf)"
  by (simp add: disk_log_def)

lemma disk_snapshot_persist [simp]: "disk_snapshot (persist rf) = disk_snapshot rf"
  by (simp add: disk_snapshot_def)

lemma disk_log_vote:
  "vote_effect rf args rf' reply \<Longrightarrow> disk_log rf \<Longrightarrow> disk_log rf'"
  by (auto simp: vote_effect_def disk_log_def persister_defs split: if_splits)

lemma disk_after_TakeSnapshots:
  assumes "raft_wf rf" "lastIndexInSnapshot rf < index - 1" "index - 1 \<le> getLastLogIndex rf"
    and "TakeSnapshots rf seq rsm index = Inr rf'"
  shows "disk_log rf'" "disk_snapshot rf'"
proof -
  have rf': "rf' = snapshot_taken rf seq rsm (index - 1)"
    using TakeSnapshots_eq [OF assms(1-3)] assms(4) by simp
  show "disk_log rf'" by (simp add: rf' snapshot_taken_def Let_def disk_log_def persister_defs)
  show "disk_snapshot rf'"
    using assms(1,2)
    by (simp add: rf' snapshot_taken_def Let_def disk_snapshot_def persister_defs decode_snapshot_def raft_wf_def)
qed

lemma disk_after_AppendEntry:
  assumes "raft_wf rf" "disk_log rf" "AppendEntry rf args = Inr (rf', reply)"
  shows "disk_log rf'"
  using assms(1,3)
proof (cases rule: AppendEntry_cases)
  case 1
  then show ?thesis using assms(2) by (auto simp: disk_log_def same_log_def split: if_splits)
next
  case 2
  then show ?thesis by (simp add: disk_log_def append_effect_def)
qed

theorem restart_recovers_witness:
  "\<exists>rf'. Make 3 1 (persister (persist (follower_with_terms [1, 2, 2]))) = Inr rf' \<and>
     log rf' = log (follower_with_terms [1, 2, 2])"
proof -
  let ?rf = "persist (follower_with_terms [1, 2, 2])"
  have "log ?rf \<noteq> []" "disk_snapshot ?rf" "disk_log ?rf"
    by (simp_all add: append_sample_defs disk_log_persist disk_snapshot_def persister_defs)
  from restart_recovers [OF this, of 3 1] show ?thesis by auto
qed

subsection \<open>Installing a snapshot\<close>

text \<open>The receiver installs a snapshot that is not older than its term, reaches beyond its own
  snapshot and is not already covered by a matching log entry.\<close>

definition installs :: "'c Raft \<Rightarrow> 'c InstallSnapShotArgs \<Rightarrow> bool" where
  "installs rf args \<longleftrightarrow>
     currentTerm rf \<le> IS_Term args \<and> lastIndexInSnapshot rf < LastIncludedIndex args \<and>
     (\<forall>e. log_entry rf (LastIncludedIndex args) = Some e \<longrightarrow> Term e \<noteq> LastIncludedTerm args)"

lemma InstallSnapShot_cases:
  assumes "raft_wf rf" "decode_snapshot (Data args) = Inr (seq, rsm, LastIncludedIndex args, LastIncludedTerm args)"
  shows "\<exists>rf' reply. InstallSnapShot rf args = Inr (rf', reply) \<and>
    (if installs rf args
     then Err_code reply = 0 \<and> log rf' = [\<lparr>Command = None, Term = LastIncludedTerm args\<rparr>] \<and>
       lastIndexInSnapshot rf' = LastIncludedIndex args \<and> lastTermInSnapshot rf' = LastIncludedTerm args \<and>
       commitIndex rf' = LastIncludedIndex args \<and> currentTerm rf' = currentTerm rf \<and>
       applyCh rf' = applyCh rf @ [snapshot_msg seq rsm] \<and> snapshot (persister rf') = Data args \<and>
       raftstate (persister rf') = raftstate (persister rf) \<and> peers rf' = peers rf \<and> me rf' = me rf
     else Err_code reply \<noteq> 0 \<and> rf' = rf)"
proof -
  have "Data args \<noteq> []" using assms(2) by (auto simp: decode_snapshot_def)
  moreover have "LastIncludedIndex args \<le> getLastLogIndex rf \<Longrightarrow> lastIndexInSnapshot rf < LastIncludedIndex args \<Longrightarrow>
      at (log rf) (getTrueIndex rf (LastIncludedIndex args)) = Inr (log rf ! nat (LastIncludedIndex args - lastIndexInSnapshot rf))"
    using at_getTrueIndex [OF assms(1), of "LastIncludedIndex args"] by (simp add: getTrueIndex_def)
  ultimately show ?thesis
    using assms(2)
    by (auto simp: InstallSnapShot_def installs_def readSnapshotPersist_eq log_entry_def Let_def persister_defs)
qed

text \<open>C11: a snapshot that one peer has on disk and sends is either installed whole by the receiver
  (log, indices, commit index, the service's state and the stored snapshot) or refused with an error
  code and no change; it is installed exactly when it is not from an older term, is ahead of the
  receiver's snapshot and not yet matched by the receiver's log. Either way the receiver stays
  well-formed.\<close>

theorem InstallSnapShot_transfer:
  assumes "raft_wf rf" "disk_snapshot ld" "snapshot (persister ld) \<noteq> []"
  shows "\<exists>rf' reply seq rsm. InstallSnapShot rf (snapshot_args ld) = Inr (rf', reply) \<and> raft_wf rf' \<and>
    decode_snapshot (snapshot (persister ld)) = Inr (seq, rsm, lastIndexInSnapshot ld, lastTermInSnapshot ld) \<and>
    (Err_code reply = 0 \<longleftrightarrow> installs rf (snapshot_args ld)) \<and>
    (if Err_code reply = 0
     then lastIndexInSnapshot rf' = lastIndexInSnapshot ld \<and> commitIndex rf' = lastIndexInSnapshot ld \<and>
       log rf' = [\<lparr>Command = None, Term = lastTermInSnapshot ld\<rparr>] \<and>
       applyCh rf' = applyCh rf @ [snapshot_msg seq rsm] \<and>
       disk_snapshot rf' \<and> snapshot (persister rf') = snapshot (persister ld)
     else rf' = rf)"
proof -
  obtain seq rsm where d: "decode_snapshot (Data (snapshot_args ld)) =
      Inr (seq, rsm, LastIncludedIndex (snapshot_args ld), LastIncludedTerm (snapshot_args ld))"
    and pos: "0 < lastIndexInSnapshot ld"
    using assms(2,3) by (auto simp: disk_snapshot_def snapshot_args_def persister_defs split: if_splits)
  from InstallSnapShot_cases [OF assms(1) d] obtain rf' reply where
    r: "InstallSnapShot rf (snapshot_args ld) = Inr (rf', reply)"
    and c: "if installs rf (snapshot_args ld)
      then Err_code reply = 0 \<and> log rf' = [\<lparr>Command = None, Term = lastTermInSnapshot ld\<rparr>] \<and>
        lastIndexInSnapshot rf' = lastIndexInSnapshot ld \<and> lastTermInSnapshot rf' = lastTermInSnapshot ld \<and>
        commitIndex rf' = lastIndexInSnapshot ld \<and>
        applyCh rf' = applyCh rf @ [snapshot_msg seq rsm] \<and> snapshot (persister rf') = snapshot (persister ld)
      else Err_code reply \<noteq> 0 \<and> rf' = rf"
    by (auto simp: snapshot_args_def persister_defs split: if_splits)
  then have "raft_wf rf'"
    using assms(1) pos by (auto simp: raft_wf_def getLastLogIndex_def split: if_splits)
  moreover have "installs rf (snapshot_args ld) \<Longrightarrow> disk_snapshot rf'"
    using c assms(2,3) by (auto simp: disk_snapshot_def)
  moreover have "decode_snapshot (snapshot (persister ld)) = Inr (seq, rsm, lastIndexInSnapshot ld, lastTermInSnapshot ld)"
    using d by (simp add: snapshot_args_def persister_defs)
  ultimately show ?thesis
    using r c by (intro exI [of _ rf'] exI [of _ reply] exI [of _ seq] exI [of _ rsm]) (auto split: if_splits)
qed

definition snapshotting_leader :: "nat Raft" where
  "snapshotting_leader = zero_raft\<lparr>peers := 3, currentTerm := 2, log := [\<lparr>Command = Some 7, Term = 1\<rparr>],
     commitIndex := 5, lastIndexInSnapshot := 5, lastTermInSnapshot := 1, nextIndex := [6, 1, 1], matchIndex := [5, 0, 0],
     persister := \<lparr>raftstate = [GInt 2, GLog [\<lparr>Command = Some 7, Term = 1\<rparr>]],
       snapshot = [GSeq Map.empty, GRsm Map.empty, GInt 5, GInt 1]\<rparr>\<rparr>"

theorem InstallSnapShot_transfer_witness:
  "\<exists>rf' reply. InstallSnapShot (follower_with_terms [1, 1]) (snapshot_args snapshotting_leader) = Inr (rf', reply) \<and>
     Err_code reply = 0 \<and> lastIndexInSnapshot rf' = 5"
proof -
  have "disk_snapshot snapshotting_leader" "snapshot (persister snapshotting_leader) \<noteq> []"
    by (simp_all add: snapshotting_leader_def disk_snapshot_def decode_snapshot_def zero_raft_def)
  from InstallSnapShot_transfer [OF follower_with_terms_wf this, of "[1, 1]"]
  obtain rf' reply where r: "InstallSnapShot (follower_with_terms [1, 1]) (snapshot_args snapshotting_leader) = Inr (rf', reply)"
    and e: "Err_code reply = 0 \<longleftrightarrow> installs (follower_with_terms [1, 1]) (snapshot_args snapshotting_leader)"
    and c: "Err_code reply = 0 \<Longrightarrow> lastIndexInSnapshot rf' = lastIndexInSnapshot snapshotting_leader"
    by (auto split: if_splits)
  have "installs (follower_with_terms [1, 1]) (snapshot_args snapshotting_leader)"
    by (simp add: installs_def append_sample_defs snapshot_args_def snapshotting_leader_def log_entry_def getLastLogIndex_def)
  then show ?thesis using r e c by (auto simp: snapshotting_leader_def)
qed

text \<open>The receiver stores the new snapshot with the raft state it had saved before. If it
  crashes before it saves again, the restart reads the old log under the new snapshot's index: an
  entry that was number 1 comes back as number 6, where the running peer had nothing.\<close>

theorem install_then_crash_renumbers_log:
  "\<exists>rf1 reply rf2.
     InstallSnapShot (persist (follower_with_terms [1, 1])) (snapshot_args snapshotting_leader) = Inr (rf1, reply) \<and>
     Make 3 1 (persister rf1) = Inr rf2 \<and>
     log_entry (persist (follower_with_terms [1, 1])) 1 = Some \<lparr>Command = Some 7, Term = 1\<rparr> \<and>
     log_entry rf1 6 = None \<and> log_entry rf2 6 = Some \<lparr>Command = Some 7, Term = 1\<rparr>"
  by (simp add: InstallSnapShot_def readSnapshotPersist_eq decode_snapshot_def Make_def readPersist_def
      append_sample_defs snapshot_args_def snapshotting_leader_def log_entry_def getLastLogIndex_def
      persist_def persister_defs)

subsection \<open>Sending a snapshot\<close>

text \<open>The sender takes its new leader from a field of the refusal that the receiver does not
  set. A leader whose term has passed adopts the newer term and peer 0 as leader, so peer 0 itself goes
  on as leader of a term in which it was not elected.\<close>

theorem sendSnapShot_refused_by_newer_term:
  assumes "InstallSnapShot f (snapshot_args rf) = Inr (f', reply)" "currentTerm rf < currentTerm f"
    and "0 \<le> ind" "ind < int (length (nextIndex rf))"
  shows "sendSnapShot rf ind (Some reply # calls) = Inr (rf\<lparr>currentTerm := currentTerm f, leaderNum := 0\<rparr>)"
proof -
  have five: "snapshot_reply 5 (Some reply # calls) = reply"
    by (simp add: eval_nat_numeral)
  show ?thesis
    using assms by (simp add: sendSnapShot_def five at_def InstallSnapShot_def snapshot_args_def) force
qed

theorem sendSnapShot_refused_by_newer_term_witness:
  "\<exists>f' reply rf'. InstallSnapShot (fresh_peer\<lparr>currentTerm := 9\<rparr>) (snapshot_args snapshotting_leader) = Inr (f', reply) \<and>
     sendSnapShot snapshotting_leader 1 [Some reply] = Inr rf' \<and> leaderNum rf' = me rf' \<and> currentTerm rf' = 9"
proof -
  let ?f = "fresh_peer\<lparr>currentTerm := 9\<rparr>"
  obtain f' reply where i: "InstallSnapShot ?f (snapshot_args snapshotting_leader) = Inr (f', reply)"
    by (simp add: InstallSnapShot_def snapshot_args_def snapshotting_leader_def sample_defs)
  have "currentTerm snapshotting_leader < currentTerm ?f" "0 \<le> (1 :: int)" "1 < int (length (nextIndex snapshotting_leader))"
    by (simp_all add: snapshotting_leader_def sample_defs)
  from sendSnapShot_refused_by_newer_term [OF i this, of "[]"] i show ?thesis
    by (auto simp: snapshotting_leader_def sample_defs)
qed

text \<open>Five calls without an answer count as a success: the follower's match index rises.\<close>

lemma sendSnapShot_unanswered:
  "sendSnapShot rf ind (replicate 5 None) =
     set_progress rf ind (lastIndexInSnapshot rf + 1) (lastIndexInSnapshot rf)"
  by (simp add: sendSnapShot_def set_progress_def at_def put_at_def eval_nat_numeral snapshot_args_def)

end
