(* ===== verification/Raft_Leader.thy ===== *)
theory Raft_Leader
  imports Raft_Snapshot
begin

section \<open>Raft: the leader\<close>

text \<open>
  \<open>Start\<close> and \<open>LeaderProcess\<close> of \<^verbatim>\<open>src/raft/raft.go\<close>. The function literal that each
  round starts per follower is a loop over calls (\<open>leader_goroutine\<close>); its reaction to one answer
  is \<open>leader_reply\<close>, which ends the goroutine or gives the next arguments. The select loop is a
  step function like the candidate's.
\<close>

subsection \<open>Accepting a command\<close>

definition Start :: "'c Raft \<Rightarrow> 'c \<Rightarrow> ('c Raft \<times> int \<times> int \<times> bool) result" where
  "Start rf command =
     (let leader = leaderNum rf; curTerm = currentTerm rf
      in if leader \<noteq> me rf then Inr (rf, -1, curTerm, False)
         else if commandToBeExec rf \<ge> 256 then Inl Blocked
         else let rf = rf\<lparr>commandToBeExec := Suc (commandToBeExec rf),
                          log := log rf @ [\<lparr>Command = Some command, Term = curTerm\<rparr>]\<rparr>;
                  index = getNameIndex rf (int (length (log rf)) - 1)
              in rbind (put_at (matchIndex rf) (me rf) index) (\<lambda>ms.
                   Inr (persist (rf\<lparr>matchIndex := ms\<rparr>), index, curTerm, True)))"

subsection \<open>The leader's own variables\<close>

text \<open>The locals of \<open>LeaderProcess\<close> that outlive a turn of its loop: the term index cache, the
  snapshot index it was made for, and the number of values in \<open>AEDistributedChan\<close>.
  (\<open>state\<close> and \<open>commIndtoState\<close> only number the rounds for the debug output.)\<close>

record leader_vars =
  termList :: "TermIndex list"
  curLastSnapshotIndex :: int
  AEDistributedChan :: nat

definition LeaderProcess_start :: "'c Raft \<Rightarrow> ('c Raft \<times> leader_vars) result" where
  "LeaderProcess_start rf =
     (if peers rf = 0 then Inl Blocked else
      let rf = rf\<lparr>matchIndex := replicate (peers rf) 0\<rparr>
      in rbind (makeTermIndex rf) (\<lambda>tl.
         let nextInd = getLastLogIndex rf + 1
         in Inr (rf\<lparr>nextIndex := replicate (peers rf) nextInd\<rparr>,
                 \<lparr>termList = tl, curLastSnapshotIndex = lastIndexInSnapshot rf, AEDistributedChan = 1\<rparr>)))"

subsection \<open>One round of AppendEntry calls\<close>

text \<open>The arguments for follower \<open>ind\<close>, after a snapshot has been sent if the follower needs
  one; \<open>None\<close> where the code goes on with the next follower. \<open>snap\<close> is what the calls of
  \<open>sendSnapShot\<close> return.\<close>

definition leader_args ::
  "'c Raft \<Rightarrow> int \<Rightarrow> int \<Rightarrow> InstallSnapShotReply option list \<Rightarrow> ('c Raft \<times> 'c AppendEntryArgs option) result" where
  "leader_args rf logLen ind snap =
     rbind (at (nextIndex rf) ind) (\<lambda>next.
       let appEn = \<lparr>AE_Term = currentTerm rf, LeaderID = me rf, PrevLogIndex = next - 1, PrevLogTerm = 0,
                    Entries = [], LeaderCommit = commitIndex rf\<rparr>
       in rbind (if next \<le> lastIndexInSnapshot rf then sendSnapShot rf ind snap else Inr rf) (\<lambda>rf.
          rbind (at (nextIndex rf) ind) (\<lambda>next.
          rbind (if next < logLen \<and> PrevLogIndex appEn + 1 - lastIndexInSnapshot rf > 0
                 then slice_of (log rf) (getTrueIndex rf (PrevLogIndex appEn + 1)) (int (length (log rf)))
                 else Inr []) (\<lambda>es.
            if getTrueIndex rf (PrevLogIndex appEn) \<ge> int (length (log rf)) then Inr (rf, None)
            else rbind (at (log rf) (getTrueIndex rf (PrevLogIndex appEn))) (\<lambda>e.
                   Inr (rf, Some (appEn\<lparr>Entries := es, PrevLogTerm := Term e\<rparr>)))))))"

fun distribute_loop ::
  "'c Raft \<Rightarrow> int \<Rightarrow> nat list \<Rightarrow> (nat \<Rightarrow> InstallSnapShotReply option list) \<Rightarrow>
     ('c Raft \<times> (nat \<times> 'c AppendEntryArgs) list) result" where
  "distribute_loop rf logLen [] snaps = Inr (rf, [])"
| "distribute_loop rf logLen (ind # inds) snaps =
     (if int ind = me rf then distribute_loop rf logLen inds snaps
      else rbind (leader_args rf logLen (int ind) (snaps ind)) (\<lambda>(rf, a).
           rbind (distribute_loop rf logLen inds snaps) (\<lambda>(rf, sent).
             Inr (rf, case a of None \<Rightarrow> sent | Some args \<Rightarrow> (ind, args) # sent))))"

text \<open>The debug line before the loop takes a slice of the log, so its bounds check counts.\<close>

definition distribute ::
  "'c Raft \<Rightarrow> (nat \<Rightarrow> InstallSnapShotReply option list) \<Rightarrow> ('c Raft \<times> (nat \<times> 'c AppendEntryArgs) list) result" where
  "distribute rf snaps =
     (let logLen = getLastLogIndex rf + 1
      in rbind (at (nextIndex rf) (me rf)) (\<lambda>n.
         rbind (if n = logLen then Inr []
                else slice_of (log rf) (getTrueIndex rf n) (int (length (log rf)))) (\<lambda>_.
           distribute_loop rf logLen [0..<peers rf] snaps)))"

subsection \<open>Committing\<close>

text \<open>\<open>sort.Ints\<close> on a copy of \<open>matchIndex\<close> and its element at half the length.\<close>

definition toBeCommitIndex :: "int list \<Rightarrow> int result" where
  "toBeCommitIndex ms = at (sort ms) (int (length ms div 2))"

fun leader_commit_loop :: "'c Raft \<Rightarrow> leader_vars \<Rightarrow> int list \<Rightarrow> ('c Raft \<times> leader_vars) result" where
  "leader_commit_loop rf v [] = Inr (rf, v)"
| "leader_commit_loop rf v (i # is) =
     (if getTrueIndex rf i \<ge> int (length (log rf)) \<or> getTrueIndex rf i < 1 then Inr (rf, v)
      else rbind (at (log rf) (getTrueIndex rf i)) (\<lambda>e.
        if i > commitIndex rf
        then leader_commit_loop (rf\<lparr>commitIndex := i, applyCh := applyCh rf @ [cmd_msg (Command e) i]\<rparr>)
               (if AEDistributedChan v = 0 then v\<lparr>AEDistributedChan := 1\<rparr> else v) is
        else leader_commit_loop rf v is))"

definition leader_commit :: "'c Raft \<Rightarrow> leader_vars \<Rightarrow> ('c Raft \<times> leader_vars) result" where
  "leader_commit rf v =
     rbind (toBeCommitIndex (matchIndex rf)) (\<lambda>toBe.
       if toBe \<le> commitIndex rf then Inr (rf, v)
       else if leaderNum rf \<noteq> me rf then Inr (rf, v)
       else rbind (leader_commit_loop rf v [commitIndex rf + 1..toBe]) (\<lambda>(rf, v).
            rbind (at (nextIndex rf) (me rf)) (\<lambda>n.
              if commitIndex rf > n
              then rbind (put_at (nextIndex rf) (me rf) (commitIndex rf)) (\<lambda>ns. Inr (rf\<lparr>nextIndex := ns\<rparr>, v))
              else Inr (rf, v))))"

subsection \<open>The answer to an AppendEntry call\<close>

text \<open>The goroutine returns, or sends again: the new arguments and the term they are compared
  with (\<open>appEnTerm\<close>).\<close>

datatype 'c leader_next =
    LN_Return "'c Raft" leader_vars
  | LN_Send "'c Raft" leader_vars "'c AppendEntryArgs" int

text \<open>The follower's progress after a successful call, and whether the goroutine goes on.\<close>

definition record_match ::
  "'c Raft \<Rightarrow> int \<Rightarrow> 'c AppendEntryArgs \<Rightarrow> AppendEntryReply \<Rightarrow> ('c Raft \<times> bool) result" where
  "record_match rf ind args reply =
     (if CommitIndex reply = 0
      then rbind (at (nextIndex rf) ind) (\<lambda>next.
           let upto = PrevLogIndex args + int (length (Entries args)) + 1;
               next = (if next < upto then upto else next)
           in rbind (put_at (nextIndex rf) ind next) (\<lambda>ns.
              rbind (at (matchIndex rf) ind) (\<lambda>match.
                if match \<noteq> next - 1
                then rbind (put_at (matchIndex rf) ind (next - 1)) (\<lambda>ms.
                       Inr (rf\<lparr>nextIndex := ns, matchIndex := ms\<rparr>, True))
                else Inr (rf\<lparr>nextIndex := ns\<rparr>, False))))
      else rbind (set_progress rf ind (CommitIndex reply + 1) (CommitIndex reply)) (\<lambda>rf. Inr (rf, True)))"

text \<open>The arguments that continue from the follower's match index when that is below the round's
  previous index; \<open>None\<close> where the goroutine returns.\<close>

definition catch_up_args ::
  "'c Raft \<Rightarrow> 'c AppendEntryArgs \<Rightarrow> AppendEntryReply \<Rightarrow> int \<Rightarrow> 'c AppendEntryArgs option result" where
  "catch_up_args rf args reply currComInd =
     (let tmp = \<lparr>AE_Term = currentTerm rf, LeaderID = LeaderID args, PrevLogIndex = 0, PrevLogTerm = 0,
                 Entries = [], LeaderCommit = commitIndex rf\<rparr>
      in if CommitIndex reply \<noteq> 0
         then if CommitIndex reply \<ge> getLastLogIndex rf then Inr None
              else let s = getTrueIndex rf (CommitIndex reply)
                   in rbind (at (log rf) s) (\<lambda>e.
                      rbind (if s > 0 then slice_of (log rf) (s + 1) (s + 2) else Inr []) (\<lambda>es.
                        Inr (Some (tmp\<lparr>PrevLogIndex := CommitIndex reply, PrevLogTerm := Term e, Entries := es\<rparr>))))
         else let s = getTrueIndex rf currComInd
              in rbind (at (log rf) s) (\<lambda>e.
                 rbind (slice_of (log rf) (s + 1) (int (length (log rf)))) (\<lambda>es.
                   Inr (Some (tmp\<lparr>PrevLogIndex := currComInd, PrevLogTerm := Term e, Entries := es\<rparr>)))))"

definition leader_success ::
  "'c Raft \<Rightarrow> leader_vars \<Rightarrow> int \<Rightarrow> int \<Rightarrow> 'c AppendEntryArgs \<Rightarrow> AppendEntryReply \<Rightarrow> 'c leader_next result" where
  "leader_success rf v ind prevLogIndex args reply =
     (if Entries args = [] then Inr (LN_Return rf v)
      else rbind (record_match rf ind args reply) (\<lambda>(rf, go_on).
        if \<not> go_on then Inr (LN_Return rf v)
        else rbind (at (matchIndex rf) ind) (\<lambda>currComInd.
          if currComInd < prevLogIndex
          then rbind (catch_up_args rf args reply currComInd) (\<lambda>a. case a of
                 None \<Rightarrow> Inr (LN_Return rf v)
               | Some args \<Rightarrow> Inr (LN_Send rf v args (AE_Term args)))
          else if currComInd \<le> commitIndex rf then Inr (LN_Return rf v)
          else rbind (leader_commit rf v) (\<lambda>(rf, v). Inr (LN_Return rf v)))))"

text \<open>The jump back over conflicting terms: the first entry of the cache whose term is not above
  the reported one (or its last entry).\<close>

fun skip_terms :: "TermIndex list \<Rightarrow> int \<Rightarrow> TermIndex result" where
  "skip_terms [] lastTerm = Inl IndexOutOfRange"
| "skip_terms [t] lastTerm = Inr t"
| "skip_terms (t # u # ts) lastTerm = (if TI_Term t > lastTerm then skip_terms (u # ts) lastTerm else Inr t)"

definition back_up :: "'c Raft \<Rightarrow> leader_vars \<Rightarrow> int \<Rightarrow> int \<Rightarrow> (leader_vars \<times> int) result" where
  "back_up rf v prevlog lastTerm =
     rbind (if curLastSnapshotIndex v \<noteq> lastIndexInSnapshot rf then makeTermIndex rf else Inr (termList v)) (\<lambda>tl.
     rbind (skip_terms tl lastTerm) (\<lambda>t.
       Inr (v\<lparr>termList := tl\<rparr>,
            if TI_Term t \<le> lastTerm \<and> LastIndexOfTerm t < prevlog then LastIndexOfTerm t else prevlog)))"

text \<open>The next arguments from the previous index that was arrived at: one entry, after a snapshot
  if the index is covered by it.\<close>

definition leader_resend ::
  "'c Raft \<Rightarrow> leader_vars \<Rightarrow> int \<Rightarrow> int \<Rightarrow> 'c AppendEntryArgs \<Rightarrow> int \<Rightarrow>
     InstallSnapShotReply option list \<Rightarrow> 'c leader_next result" where
  "leader_resend rf v ind appEnTerm args prevlog snap =
     rbind (put_at (nextIndex rf) ind (prevlog + 1)) (\<lambda>ns.
       let rf = rf\<lparr>nextIndex := ns\<rparr>
       in if prevlog < 0 then Inl (Panicked ''leader:prevlog go to < zero'')
          else rbind (if prevlog < lastIndexInSnapshot rf
                      then rbind (sendSnapShot rf ind snap) (\<lambda>rf.
                           rbind (at (matchIndex rf) ind) (\<lambda>m. Inr (rf, m)))
                      else Inr (rf, prevlog)) (\<lambda>(rf, prevlog).
            if prevlog \<ge> int (length (log rf)) then Inr (LN_Return rf v)
            else rbind (at (log rf) (getTrueIndex rf (prevlog + 1))) (\<lambda>e.
                 rbind (at (log rf) (getTrueIndex rf prevlog)) (\<lambda>p.
                   Inr (LN_Send rf v \<lparr>AE_Term = currentTerm rf, LeaderID = LeaderID args,
                          PrevLogIndex = prevlog, PrevLogTerm = Term p, Entries = [e],
                          LeaderCommit = 0\<rparr> appEnTerm)))))"

definition leader_failure ::
  "'c Raft \<Rightarrow> leader_vars \<Rightarrow> int \<Rightarrow> int \<Rightarrow> 'c AppendEntryArgs \<Rightarrow> AppendEntryReply \<Rightarrow>
     InstallSnapShotReply option list \<Rightarrow> 'c leader_next result" where
  "leader_failure rf v ind appEnTerm args reply snap =
     (if AER_Term reply > appEnTerm
      then rbind (notify 2 (rf\<lparr>leaderNum := -1\<rparr>)) (\<lambda>rf. Inr (LN_Return rf v))
      else rbind (at (matchIndex rf) ind) (\<lambda>match.
        if PrevLogIndex args \<le> match then Inr (LN_Return rf v)
        else let prevlog = PrevLogIndex args - 1;
                 prevlog = (if AER_LastLogIndex reply \<noteq> 0 \<and> prevlog > AER_LastLogIndex reply
                            then AER_LastLogIndex reply else prevlog)
             in rbind (if TermOfArgsPreLogIndex reply \<noteq> 0
                       then back_up rf v prevlog (TermOfArgsPreLogIndex reply) else Inr (v, prevlog))
                  (\<lambda>(v, prevlog). leader_resend rf v ind appEnTerm args prevlog snap)))"

definition leader_reply ::
  "'c Raft \<Rightarrow> leader_vars \<Rightarrow> int \<Rightarrow> int \<Rightarrow> int \<Rightarrow> 'c AppendEntryArgs \<Rightarrow> AppendEntryReply \<Rightarrow>
     InstallSnapShotReply option list \<Rightarrow> 'c leader_next result" where
  "leader_reply rf v ind prevLogIndex appEnTerm args reply snap =
     (if Success reply then leader_success rf v ind prevLogIndex args reply
      else leader_failure rf v ind appEnTerm args reply snap)"

text \<open>The goroutine without interference: \<open>calls\<close> lists what each call returns (\<open>None\<close> for a
  failed call) with the answers of the snapshot calls made after it; it gives up at the eighth
  failure. \<open>None\<close> while it is still waiting.\<close>

fun leader_goroutine ::
  "'c Raft \<Rightarrow> leader_vars \<Rightarrow> int \<Rightarrow> int \<Rightarrow> int \<Rightarrow> nat \<Rightarrow> 'c AppendEntryArgs \<Rightarrow>
     (AppendEntryReply option \<times> InstallSnapShotReply option list) list \<Rightarrow> ('c Raft \<times> leader_vars) option result" where
  "leader_goroutine rf v ind prevLogIndex appEnTerm failures args [] = Inr None"
| "leader_goroutine rf v ind prevLogIndex appEnTerm failures args ((c, snap) # calls) =
     (if leaderNum rf \<noteq> me rf then rbind (notify 2 rf) (\<lambda>rf. Inr (Some (rf, v)))
      else case c of
        None \<Rightarrow> if failures + 1 \<ge> 8 then Inr (Some (rf, v))
                else leader_goroutine rf v ind prevLogIndex appEnTerm (failures + 1) args calls
      | Some reply \<Rightarrow> rbind (leader_reply rf v ind prevLogIndex appEnTerm args reply snap) (\<lambda>n. case n of
            LN_Return rf v \<Rightarrow> Inr (Some (rf, v))
          | LN_Send rf v args appEnTerm \<Rightarrow>
              leader_goroutine rf v ind prevLogIndex appEnTerm failures args calls))"

subsection \<open>The select loop\<close>

datatype leader_event =
    LE_HeartBeat
  | LE_Distribute "nat \<Rightarrow> InstallSnapShotReply option list"
  | LE_TermTimeout
  | LE_AENotify
  | LE_Command

text \<open>One turn: the new state and variables, the calls sent, and \<open>Some r\<close> when the function
  returns \<open>r\<close>. \<open>AEDistributedChan\<close> has one place per peer. A receive from an empty channel
  does not happen, so those events are only taken when there is something to receive.\<close>

fun leader_step ::
  "'c Raft \<Rightarrow> leader_vars \<Rightarrow> leader_event \<Rightarrow>
     ('c Raft \<times> leader_vars \<times> (nat \<times> 'c AppendEntryArgs) list \<times> int option) result" where
  "leader_step rf v LE_HeartBeat =
     (if AEDistributedChan v < peers rf
      then Inr (rf, v\<lparr>AEDistributedChan := AEDistributedChan v + 1\<rparr>, [], None) else Inl Blocked)"
| "leader_step rf v (LE_Distribute snaps) =
     (if AEDistributedChan v = 0 then Inl Blocked
      else rbind (distribute rf snaps) (\<lambda>(rf, sent).
             Inr (rf, v\<lparr>AEDistributedChan := AEDistributedChan v - 1\<rparr>, sent, None)))"
| "leader_step rf v LE_TermTimeout = Inr (persist (rf\<lparr>currentTerm := currentTerm rf + 1\<rparr>), v, [], Some 0)"
| "leader_step rf v LE_AENotify =
     (if AENotifyChan rf = 0 then Inl Blocked
      else let rf = rf\<lparr>AENotifyChan := min (AENotifyChan rf - 1) 2\<rparr>
           in Inr (rf, v, [], if me rf \<noteq> leaderNum rf then Some (-1) else None))"
| "leader_step rf v LE_Command =
     (if commandToBeExec rf = 0 then Inl Blocked
      else let rf = rf\<lparr>commandToBeExec := commandToBeExec rf - 1\<rparr>;
               n = min (AEDistributedChan v) 1
           in if n < peers rf then Inr (rf, v\<lparr>AEDistributedChan := n + 1\<rparr>, [], None) else Inl Blocked)"

subsection \<open>Everything but the commit leaves log, commit index and messages alone\<close>

text \<open>What every operation of a peer promises to the service, except the installation of a
  snapshot: the peer stays well-formed, committed entries stay, and the messages sent are the
  entries between the old and the new commit index.\<close>

definition advances :: "'c Raft \<Rightarrow> 'c Raft \<Rightarrow> bool" where
  "advances rf rf' \<longleftrightarrow> raft_wf rf' \<and> commitIndex rf \<le> commitIndex rf' \<and>
     (\<forall>n. lastIndexInSnapshot rf' \<le> n \<and> n \<le> commitIndex rf \<longrightarrow> log_entry rf' n = log_entry rf n) \<and>
     applyCh rf' = applyCh rf @ committed_msgs rf' (commitIndex rf + 1) (commitIndex rf')"

lemma same_log_refl [simp]: "same_log rf rf"
  by (simp add: same_log_def)

lemma same_log_trans: "same_log rf1 rf2 \<Longrightarrow> same_log rf2 rf3 \<Longrightarrow> same_log rf1 rf3"
  by (simp add: same_log_def)

lemma same_log_advances: "raft_wf rf \<Longrightarrow> same_log rf rf' \<Longrightarrow> advances rf rf'"
  unfolding advances_def by (simp add: same_log_index) (simp add: same_log_def)

lemma advances_refl: "raft_wf rf \<Longrightarrow> advances rf rf"
  by (simp add: advances_def)

lemma set_progress_same_log:
  "set_progress rf ind n m = Inr rf' \<Longrightarrow> same_log rf rf' \<and> persister rf' = persister rf"
  by (auto simp: set_progress_def rbind_Inr_conv same_log_def)

lemma sendSnapShot_same_log:
  "sendSnapShot rf ind calls = Inr rf' \<Longrightarrow> same_log rf rf' \<and> persister rf' = persister rf"
  by (auto simp: sendSnapShot_def Let_def rbind_Inr_conv same_log_def dest!: set_progress_same_log split: if_splits)

lemma record_match_same_log:
  "record_match rf ind args reply = Inr (rf', b) \<Longrightarrow> same_log rf rf' \<and> persister rf' = persister rf"
  by (auto simp: record_match_def Let_def rbind_Inr_conv same_log_def dest!: set_progress_same_log
      split: if_splits)

lemma leader_args_same_log:
  "leader_args rf logLen ind snap = Inr (rf', a) \<Longrightarrow> same_log rf rf' \<and> persister rf' = persister rf"
  by (auto simp: leader_args_def Let_def rbind_Inr_conv dest!: sendSnapShot_same_log split: if_splits)

lemma distribute_loop_same_log:
  "distribute_loop rf logLen inds snaps = Inr (rf', sent) \<Longrightarrow> same_log rf rf' \<and> persister rf' = persister rf"
proof (induction rf logLen inds snaps arbitrary: sent rule: distribute_loop.induct)
  case (2 rf logLen ind inds snaps)
  then show ?case
    by (auto simp: rbind_Inr_conv split: if_splits dest!: leader_args_same_log intro: same_log_trans)
qed simp

lemma distribute_same_log:
  "distribute rf snaps = Inr (rf', sent) \<Longrightarrow> same_log rf rf' \<and> persister rf' = persister rf"
  by (auto simp: distribute_def Let_def rbind_Inr_conv dest!: distribute_loop_same_log)

subsection \<open>The commit\<close>

lemma length_filter_sort: "length (filter P (sort xs)) = length (filter P xs)"
  by (metis mset_filter mset_sort size_mset)

text \<open>In a sorted list the elements from position \<open>k\<close> on are the ones counted.\<close>

lemma sorted_count_ge:
  assumes "sorted xs" "k < length xs"
  shows "length xs - k \<le> length (filter (\<lambda>x. xs ! k \<le> x) xs)"
proof -
  have "filter (\<lambda>x. xs ! k \<le> x) (drop k xs) = drop k xs"
    using assms by (auto simp: filter_id_conv in_set_conv_nth intro!: sorted_nth_mono)
  then have "length xs - k \<le> length (filter (\<lambda>x. xs ! k \<le> x) (take k xs @ drop k xs))"
    unfolding filter_append length_append by simp
  then show ?thesis by simp
qed

lemma sorted_count_gt:
  assumes "sorted xs" "k < length xs" "xs ! k < (y :: 'a :: linorder)"
  shows "length (filter (\<lambda>x. y \<le> x) xs) < length xs - k"
proof -
  have "\<not> y \<le> x" if x: "x \<in> set (take (Suc k) xs)" for x
  proof -
    obtain i where "i < Suc k" "x = xs ! i" using x by (auto simp: in_set_conv_nth)
    then have "x \<le> xs ! k" using assms(1,2) by (auto intro!: sorted_nth_mono)
    then show ?thesis using assms(3) by simp
  qed
  then have "filter (\<lambda>x. y \<le> x) (take (Suc k) xs) = []" by (simp add: filter_empty_conv)
  then have "length (filter (\<lambda>x. y \<le> x) (take (Suc k) xs @ drop (Suc k) xs)) \<le> length (drop (Suc k) xs)"
    unfolding filter_append length_append by (metis add_0 length_filter_le list.size(3))
  then show ?thesis using assms(2) by (simp del: append_take_drop_id add: append_take_drop_id [of "Suc k"])
qed

lemma toBeCommitIndex_Inr: "ms \<noteq> [] \<Longrightarrow> toBeCommitIndex ms = Inr (sort ms ! (length ms div 2))"
  by (simp add: toBeCommitIndex_def at_def)

lemma toBeCommitIndex_count:
  assumes "toBeCommitIndex ms = Inr t"
  shows "majority (length ms) \<le> length (filter (\<lambda>m. t \<le> m) ms)"
    "t < t' \<Longrightarrow> length (filter (\<lambda>m. t' \<le> m) ms) < majority (length ms)"
proof -
  have t: "t = sort ms ! (length ms div 2)" "length ms div 2 < length (sort ms)"
    using assms by (auto simp: toBeCommitIndex_def at_def split: if_splits)
  have maj: "majority (length ms) = length (sort ms) - length ms div 2"
    by (simp add: majority_def)
  show "majority (length ms) \<le> length (filter (\<lambda>m. t \<le> m) ms)"
    using sorted_count_ge [OF _ t(2)] unfolding t(1) maj by (simp add: length_filter_sort)
  show "length (filter (\<lambda>m. t' \<le> m) ms) < majority (length ms)" if "t < t'"
    using sorted_count_gt [OF _ t(2), of t'] that unfolding t(1) maj by (simp add: length_filter_sort)
qed

lemma leader_commit_loop_upto:
  assumes "raft_wf rf" "commitIndex rf \<le> b"
  shows "\<exists>v'. leader_commit_loop rf v [commitIndex rf + 1..b] =
     Inr (rf\<lparr>commitIndex := min b (getLastLogIndex rf), applyCh := applyCh rf @
            committed_msgs rf (commitIndex rf + 1) (min b (getLastLogIndex rf))\<rparr>, v')"
  using assms
proof (induction "nat (b - commitIndex rf)" arbitrary: rf v)
  case 0
  then have "commitIndex rf = b" "min b (getLastLogIndex rf) = b" by (auto simp: raft_wf_def)
  then show ?case by auto
next
  case (Suc m)
  let ?c = "commitIndex rf + 1"
  have le: "?c \<le> b" using Suc.hyps(2) by simp
  have pos: "1 \<le> getTrueIndex rf ?c" using raft_wfD(3) [OF Suc.prems(1)] by (simp add: getTrueIndex_def)
  show ?case
  proof (cases "?c \<le> getLastLogIndex rf")
    case True
    let ?m = "cmd_msg (Command (log rf ! nat (?c - lastIndexInSnapshot rf))) ?c"
    let ?rf = "rf\<lparr>commitIndex := ?c, applyCh := applyCh rf @ [?m]\<rparr>"
    have wf: "raft_wf ?rf" using Suc.prems True by (auto simp: raft_wf_def getLastLogIndex_def)
    have at: "at (log rf) (getTrueIndex rf ?c) = Inr (log rf ! nat (?c - lastIndexInSnapshot rf))"
      using at_getTrueIndex [OF Suc.prems(1) True] raft_wfD(3) [OF Suc.prems(1)] by (simp add: getTrueIndex_def)
    have step: "leader_commit_loop rf v [?c..b] = leader_commit_loop ?rf
        (if AEDistributedChan v = 0 then v\<lparr>AEDistributedChan := 1\<rparr> else v) [commitIndex ?rf + 1..b]"
      using le at pos getTrueIndex_less_length [OF Suc.prems(1) True] by (simp add: upto_rec1 [of ?c b])
    have "m = nat (b - commitIndex ?rf)" "commitIndex ?rf \<le> b" using Suc.hyps(2) le by simp_all
    from Suc.hyps(1) [OF this(1) wf this(2)] obtain v' where
      "leader_commit_loop rf v [?c..b] = Inr (?rf\<lparr>commitIndex := min b (getLastLogIndex rf),
         applyCh := (applyCh rf @ [?m]) @ committed_msgs rf (?c + 1) (min b (getLastLogIndex rf))\<rparr>, v')"
      unfolding step by (auto simp: getLastLogIndex_def committed_msgs_def)
    then show ?thesis
      using le True by (auto simp: committed_msgs_def upto_rec1 [of ?c "min b (getLastLogIndex rf)"])
  next
    case False
    then have "getLastLogIndex rf = commitIndex rf" using raft_wfD(4) [OF Suc.prems(1)] by simp
    moreover have "int (length (log rf)) \<le> getTrueIndex rf ?c"
      using False pos by (auto simp: index_defs split: if_splits)
    ultimately show ?thesis using le by (simp add: upto_rec1 [of ?c b])
  qed
qed

text \<open>The commit index the leader reaches: the index that a majority has, as far as its own log goes.\<close>

definition leader_commit_target :: "'c Raft \<Rightarrow> int" where
  "leader_commit_target rf =
     (if leaderNum rf = me rf
      then max (commitIndex rf) (min (sort (matchIndex rf) ! (length (matchIndex rf) div 2)) (getLastLogIndex rf))
      else commitIndex rf)"

lemma leader_commit_eq:
  assumes wf: "raft_wf rf" and ne: "matchIndex rf \<noteq> []" and me: "0 \<le> me rf" "me rf < int (length (nextIndex rf))"
  shows "\<exists>v' ns. leader_commit rf v =
     Inr (rf\<lparr>commitIndex := leader_commit_target rf, nextIndex := ns,
             applyCh := applyCh rf @ committed_msgs rf (commitIndex rf + 1) (leader_commit_target rf)\<rparr>, v')"
proof (cases "leaderNum rf = me rf \<and> commitIndex rf < sort (matchIndex rf) ! (length (matchIndex rf) div 2)")
  case True
  let ?t = "sort (matchIndex rf) ! (length (matchIndex rf) div 2)"
  have t: "leader_commit_target rf = min ?t (getLastLogIndex rf)"
    using True raft_wfD(4) [OF wf] by (simp add: leader_commit_target_def)
  obtain v' where "leader_commit_loop rf v [commitIndex rf + 1..?t] =
     Inr (rf\<lparr>commitIndex := min ?t (getLastLogIndex rf), applyCh := applyCh rf @
            committed_msgs rf (commitIndex rf + 1) (min ?t (getLastLogIndex rf))\<rparr>, v')"
    using leader_commit_loop_upto [OF wf, of ?t v] True by auto
  then show ?thesis
    using True me
    by (intro exI [of _ v'] exI [of _ "if nextIndex rf ! nat (me rf) < min ?t (getLastLogIndex rf)
          then (nextIndex rf)[nat (me rf) := min ?t (getLastLogIndex rf)] else nextIndex rf"])
      (simp add: leader_commit_def toBeCommitIndex_Inr [OF ne] t at_def put_at_def Let_def)
next
  case False
  then have "leader_commit rf v = Inr (rf, v)"
    by (auto simp: leader_commit_def toBeCommitIndex_Inr [OF ne])
  moreover have "leader_commit_target rf = commitIndex rf"
    using False raft_wfD(4) [OF wf] by (auto simp: leader_commit_target_def)
  ultimately show ?thesis by (auto intro!: exI [of _ "nextIndex rf"])
qed

lemma leader_commit_advances:
  assumes wf: "raft_wf rf" and c: "leader_commit rf v = Inr (rf', v')"
  shows "advances rf rf'" "log rf' = log rf" "lastIndexInSnapshot rf' = lastIndexInSnapshot rf"
    "peers rf' = peers rf" "me rf' = me rf"
proof -
  have "advances rf rf' \<and> log rf' = log rf \<and> lastIndexInSnapshot rf' = lastIndexInSnapshot rf \<and>
    peers rf' = peers rf \<and> me rf' = me rf"
  proof (cases "rf' = rf")
    case False
    let ?l = "leader_commit_target rf"
    have ne: "matchIndex rf \<noteq> []"
      using c by (auto simp: leader_commit_def toBeCommitIndex_def at_def rbind_Inr_conv split: if_splits)
    have "0 \<le> me rf" "me rf < int (length (nextIndex rf))"
      using c False leader_commit_loop_upto [OF wf, of "sort (matchIndex rf) ! (length (matchIndex rf) div 2)" v]
      by (auto simp: leader_commit_def toBeCommitIndex_Inr [OF ne] rbind_Inr_conv at_Inr_conv split: if_splits)
    from leader_commit_eq [OF wf ne this, of v] obtain ns where
      rf': "rf' = rf\<lparr>commitIndex := ?l, nextIndex := ns, applyCh := applyCh rf @ committed_msgs rf (commitIndex rf + 1) ?l\<rparr>"
      using c by auto
    have "commitIndex rf \<le> ?l" "?l \<le> getLastLogIndex rf"
      using raft_wfD(4) [OF wf] by (auto simp: leader_commit_target_def)
    then show ?thesis
      using wf by (auto simp: rf' advances_def raft_wf_def getLastLogIndex_def log_entry_def committed_msgs_def)
  qed (simp add: advances_refl [OF wf])
  then show "advances rf rf'" "log rf' = log rf" "lastIndexInSnapshot rf' = lastIndexInSnapshot rf"
    "peers rf' = peers rf" "me rf' = me rf" by auto
qed

text \<open>C4: the leader's commit never stops, and commits exactly as far as both its own log and a
  majority of the match indices reach: the new commit index is matched by a majority of the peers
  whenever it rises, no index matched by a majority and in the log stays uncommitted, and the
  messages to the service are the newly committed entries in order.\<close>

theorem leader_commit_majority:
  assumes "raft_wf rf" "leaderNum rf = me rf" "0 \<le> me rf" "me rf < int (peers rf)"
    and "length (matchIndex rf) = peers rf" "length (nextIndex rf) = peers rf"
  shows "\<exists>rf' v'. leader_commit rf v = Inr (rf', v') \<and> advances rf rf' \<and> log rf' = log rf \<and>
    (commitIndex rf < commitIndex rf' \<longrightarrow>
       majority (peers rf) \<le> length (filter (\<lambda>m. commitIndex rf' \<le> m) (matchIndex rf))) \<and>
    (\<forall>n. n \<le> getLastLogIndex rf \<and> majority (peers rf) \<le> length (filter (\<lambda>m. n \<le> m) (matchIndex rf)) \<longrightarrow>
       n \<le> commitIndex rf')"
proof -
  let ?t = "sort (matchIndex rf) ! (length (matchIndex rf) div 2)"
  have ne: "matchIndex rf \<noteq> []" using assms(3-5) by auto
  note cnt = toBeCommitIndex_count [OF toBeCommitIndex_Inr [OF ne]]
  obtain v' ns where c: "leader_commit rf v =
     Inr (rf\<lparr>commitIndex := leader_commit_target rf, nextIndex := ns,
             applyCh := applyCh rf @ committed_msgs rf (commitIndex rf + 1) (leader_commit_target rf)\<rparr>, v')"
    (is "_ = Inr (?rf', v')")
    using leader_commit_eq [OF assms(1) ne assms(3), of v] assms(4,6) by auto
  have up: "majority (peers rf) \<le> length (filter (\<lambda>m. n \<le> m) (matchIndex rf))" if "n \<le> ?t" for n
  proof -
    have "length (filter (\<lambda>m. ?t \<le> m) (matchIndex rf)) \<le> length (filter (\<lambda>m. n \<le> m) (matchIndex rf))"
      using that by (auto simp: length_filter_conv_card intro!: card_mono)
    then show ?thesis using cnt(1) assms(5) by simp
  qed
  have down: "n \<le> ?t" if "majority (peers rf) \<le> length (filter (\<lambda>m. n \<le> m) (matchIndex rf))" for n
    using cnt(2) [of n] that assms(5) by (cases "n \<le> ?t") simp_all
  have t: "commitIndex ?rf' = max (commitIndex rf) (min ?t (getLastLogIndex rf))"
    using assms(2) by (simp add: leader_commit_target_def)
  have "commitIndex rf < commitIndex ?rf' \<Longrightarrow> commitIndex ?rf' \<le> ?t" unfolding t by linarith
  moreover have "n \<le> getLastLogIndex rf \<Longrightarrow> n \<le> ?t \<Longrightarrow> n \<le> commitIndex ?rf'" for n unfolding t by linarith
  ultimately show ?thesis
    using c leader_commit_advances(1,2) [OF assms(1) c] up down by blast
qed

definition committing_leader :: "int \<Rightarrow> int list \<Rightarrow> int list \<Rightarrow> nat Raft" where
  "committing_leader t ts ms = (follower_with_terms ts)\<lparr>currentTerm := t, leaderNum := 1, matchIndex := ms,
     nextIndex := [1, 1, 1]\<rparr>"

definition some_vars :: leader_vars where
  "some_vars = \<lparr>termList = [\<lparr>TI_Term = 0, LastIndexOfTerm = 0\<rparr>], curLastSnapshotIndex = 0, AEDistributedChan = 0\<rparr>"

lemma committing_leader_wf: "raft_wf (committing_leader t ts ms)"
  by (simp add: raft_wf_def committing_leader_def append_sample_defs getLastLogIndex_def)

lemma committing_leader_sel:
  "leaderNum (committing_leader t ts ms) = 1" "me (committing_leader t ts ms) = 1"
  "peers (committing_leader t ts ms) = 3" "matchIndex (committing_leader t ts ms) = ms"
  "nextIndex (committing_leader t ts ms) = [1, 1, 1]" "commitIndex (committing_leader t ts ms) = 0"
  "getLastLogIndex (committing_leader t ts ms) = int (length ts)" "lastIndexInSnapshot (committing_leader t ts ms) = 0"
  "currentTerm (committing_leader t ts ms) = t"
  by (simp_all add: committing_leader_def append_sample_defs getLastLogIndex_def)

theorem leader_commit_majority_witness:
  "\<exists>rf' v'. leader_commit (committing_leader 2 [1, 2] [2, 2, 0]) some_vars = Inr (rf', v') \<and> 2 \<le> commitIndex rf'"
proof -
  let ?rf = "committing_leader 2 [1, 2] [2, 2, 0]"
  have "leaderNum ?rf = me ?rf" "0 \<le> me ?rf" "me ?rf < int (peers ?rf)"
    "length (matchIndex ?rf) = peers ?rf" "length (nextIndex ?rf) = peers ?rf"
    by (simp_all add: committing_leader_sel)
  from leader_commit_majority [OF committing_leader_wf this, of some_vars]
  obtain rf' v' where r: "leader_commit ?rf some_vars = Inr (rf', v')"
    and m: "\<And>n. n \<le> getLastLogIndex ?rf \<Longrightarrow> majority (peers ?rf) \<le> length (filter (\<lambda>m. n \<le> m) (matchIndex ?rf)) \<Longrightarrow>
       n \<le> commitIndex rf'"
    by blast
  have "2 \<le> commitIndex rf'" by (rule m) (simp_all add: committing_leader_sel majority_def)
  with r show ?thesis by blast
qed


subsection \<open>Answers keep the contract\<close>

fun next_raft :: "'c leader_next \<Rightarrow> 'c Raft" where
  "next_raft (LN_Return rf v) = rf"
| "next_raft (LN_Send rf v args t) = rf"

lemma advances_after_same_log:
  assumes "same_log rf rf1" "advances rf1 rf2"
  shows "advances rf rf2"
proof -
  have "commitIndex rf1 = commitIndex rf" "applyCh rf1 = applyCh rf" using assms(1) by (simp_all add: same_log_def)
  then show ?thesis using assms(2) same_log_index(3) [OF assms(1)] by (simp add: advances_def)
qed

lemma leader_success_advances:
  assumes wf: "raft_wf rf" and r: "leader_success rf v ind prevLogIndex args reply = Inr n"
  shows "advances rf (next_raft n)" "log (next_raft n) = log rf"
    "lastIndexInSnapshot (next_raft n) = lastIndexInSnapshot rf"
proof -
  have "advances rf (next_raft n) \<and> log (next_raft n) = log rf \<and>
    lastIndexInSnapshot (next_raft n) = lastIndexInSnapshot rf"
  proof (cases "Entries args = []")
    case True
    then show ?thesis using r by (auto simp: leader_success_def advances_refl [OF wf])
  next
    case False
    then obtain rf1 b where rf1: "record_match rf ind args reply = Inr (rf1, b)"
      using r by (auto simp: leader_success_def rbind_Inr_conv)
    note same = record_match_same_log [OF rf1, THEN conjunct1]
    have wf1: "raft_wf rf1" using wf same by (simp add: same_log_index)
    have eqs: "log rf1 = log rf" "lastIndexInSnapshot rf1 = lastIndexInSnapshot rf"
      using same by (simp_all add: same_log_def)
    have "next_raft n = rf1 \<or> (\<exists>v'. leader_commit rf1 v = Inr (next_raft n, v'))"
      using r rf1 False by (auto simp: leader_success_def rbind_Inr_conv split: if_splits option.splits)
    then show ?thesis
      using same_log_advances [OF wf same] leader_commit_advances [OF wf1] eqs
        advances_after_same_log [OF same] by auto
  qed
  then show "advances rf (next_raft n)" "log (next_raft n) = log rf"
    "lastIndexInSnapshot (next_raft n) = lastIndexInSnapshot rf" by auto
qed

lemma leader_resend_same_log:
  assumes "leader_resend rf v ind appEnTerm args prevlog snap = Inr n"
  shows "same_log rf (next_raft n)"
proof -
  from assms obtain ns rf1 p where
    c: "(if prevlog < lastIndexInSnapshot rf
         then rbind (sendSnapShot (rf\<lparr>nextIndex := ns\<rparr>) ind snap) (\<lambda>rf.
              rbind (at (matchIndex rf) ind) (\<lambda>m. Inr (rf, m)))
         else Inr (rf\<lparr>nextIndex := ns\<rparr>, prevlog)) = Inr (rf1, p)"
    and n: "next_raft n = rf1"
    unfolding leader_resend_def by (auto simp: Let_def rbind_Inr_conv split: if_splits)
  have "same_log rf (rf\<lparr>nextIndex := ns\<rparr>)" by (simp add: same_log_def)
  moreover have "same_log (rf\<lparr>nextIndex := ns\<rparr>) rf1"
    using c by (auto simp: rbind_Inr_conv dest!: sendSnapShot_same_log split: if_splits)
  ultimately show ?thesis unfolding n by (rule same_log_trans)
qed

lemma leader_failure_cases:
  assumes "leader_failure rf v ind appEnTerm args reply snap = Inr n"
  obtains "notify 2 (rf\<lparr>leaderNum := -1\<rparr>) = Inr (next_raft n)" "\<exists>v. n = LN_Return (next_raft n) v"
  | "n = LN_Return rf v"
  | v' prevlog where "leader_resend rf v' ind appEnTerm args prevlog snap = Inr n" "prevlog < PrevLogIndex args"
  using assms unfolding leader_failure_def
  by (auto simp: Let_def rbind_Inr_conv back_up_def split: if_splits)

lemma leader_failure_same_log:
  assumes "leader_failure rf v ind appEnTerm args reply snap = Inr n"
  shows "same_log rf (next_raft n)"
  using assms
proof (cases rule: leader_failure_cases)
  case 1
  then show ?thesis using notify_same_log by (fastforce simp: same_log_def)
qed (simp_all add: leader_resend_same_log)

lemma leader_reply_advances:
  assumes "raft_wf rf" "leader_reply rf v ind prevLogIndex appEnTerm args reply snap = Inr n"
  shows "advances rf (next_raft n) \<and> log (next_raft n) = log rf \<and>
    lastIndexInSnapshot (next_raft n) = lastIndexInSnapshot rf"
proof (cases "Success reply")
  case True
  then show ?thesis using assms leader_success_advances [OF assms(1)] by (auto simp: leader_reply_def)
next
  case False
  then have "same_log rf (next_raft n)"
    using assms(2) leader_failure_same_log by (auto simp: leader_reply_def)
  then show ?thesis using same_log_advances [OF assms(1)] by (auto simp: same_log_def)
qed

lemma advances_trans:
  assumes "advances rf1 rf2" "advances rf2 rf3" "raft_wf rf1" "log rf3 = log rf2"
    "lastIndexInSnapshot rf2 = lastIndexInSnapshot rf1" "lastIndexInSnapshot rf3 = lastIndexInSnapshot rf2"
  shows "advances rf1 rf3"
proof -
  have le: "commitIndex rf1 \<le> commitIndex rf2" "commitIndex rf2 \<le> commitIndex rf3"
    using assms(1,2) by (simp_all add: advances_def)
  have "committed_msgs rf2 a b = committed_msgs rf3 a b" for a b
    using assms(4,6) by (simp add: committed_msgs_def)
  moreover have "committed_msgs rf3 (commitIndex rf1 + 1) (commitIndex rf2) @
      committed_msgs rf3 (commitIndex rf2 + 1) (commitIndex rf3) =
      committed_msgs rf3 (commitIndex rf1 + 1) (commitIndex rf3)"
    using upto_split2 [of "commitIndex rf1 + 1" "commitIndex rf2" "commitIndex rf3"] le
    by (cases "commitIndex rf1 = commitIndex rf2") (simp_all add: committed_msgs_def)
  ultimately show ?thesis
    using assms le by (auto simp: advances_def)
qed

lemma leader_goroutine_advances_lemma:
  assumes "raft_wf rf" "leader_goroutine rf v ind prevLogIndex appEnTerm failures args calls = Inr (Some (rf', v'))"
  shows "advances rf rf' \<and> log rf' = log rf \<and> lastIndexInSnapshot rf' = lastIndexInSnapshot rf"
  using assms
proof (induction calls arbitrary: rf v appEnTerm failures args)
  case (Cons call calls)
  obtain c snap where call: "call = (c, snap)" by (cases call)
  show ?case
  proof (cases "leaderNum rf = me rf")
    case False
    then have "same_log rf rf'"
      using Cons.prems notify_same_log [of 2 rf rf'] by (auto simp: call rbind_Inr_conv)
    then show ?thesis using same_log_advances [OF Cons.prems(1)] by (auto simp: same_log_def)
  next
    case leader: True
    show ?thesis
    proof (cases c)
      case None
      then show ?thesis
        using Cons leader advances_refl [OF Cons.prems(1)] by (auto simp: call split: if_splits)
    next
      case (Some reply)
      then obtain n where n: "leader_reply rf v ind prevLogIndex appEnTerm args reply snap = Inr n"
        using Cons.prems(2) leader by (auto simp: call rbind_Inr_conv)
      note adv = leader_reply_advances [OF Cons.prems(1) n]
      show ?thesis
      proof (cases n)
        case (LN_Return rf1 v1)
        then show ?thesis using adv n Cons.prems(2) leader Some by (simp add: call)
      next
        case (LN_Send rf1 v1 args1 t1)
        have "advances rf1 rf' \<and> log rf' = log rf1 \<and> lastIndexInSnapshot rf' = lastIndexInSnapshot rf1"
          using Cons.prems(2) leader Some n adv
          by (intro Cons.IH) (auto simp: call LN_Send advances_def)
        then show ?thesis using adv advances_trans [OF _ _ Cons.prems(1), of rf1 rf'] by (simp add: LN_Send)
      qed
    qed
  qed
qed simp

text \<open>C13: whatever a follower answers, in any number of turns, the goroutine that talks to it
  changes nothing of the leader's log and keeps the promise to the service: committed entries stay and
  the messages sent are the newly committed entries in order.\<close>

theorem leader_goroutine_advances:
  assumes "raft_wf rf" "leader_goroutine rf v ind prevLogIndex appEnTerm failures args calls = Inr (Some (rf', v'))"
  shows "advances rf rf' \<and> log rf' = log rf"
  using leader_goroutine_advances_lemma [OF assms] by simp

definition accepting_reply :: AppendEntryReply where
  "accepting_reply = zero_reply\<lparr>Me := 2, AER_Term := 2, Success := True\<rparr>"

theorem leader_goroutine_advances_witness:
  "\<exists>rf' v'. leader_goroutine (committing_leader 2 [1, 2] [0, 2, 0]) some_vars 2 0 2 0 (append_call 2 0 0 [1, 2] 0)
       [(None, []), (Some accepting_reply, [])] = Inr (Some (rf', v')) \<and>
     commitIndex rf' = 2 \<and> log rf' = log (committing_leader 2 [1, 2] [0, 2, 0])"
proof -
  have upto: "[1..2] = [1, 2 :: int]" by (simp add: upto.simps)
  have "\<exists>rf' v'. leader_goroutine (committing_leader 2 [1, 2] [0, 2, 0]) some_vars 2 0 2 0 (append_call 2 0 0 [1, 2] 0)
       [(None, []), (Some accepting_reply, [])] = Inr (Some (rf', v')) \<and> commitIndex rf' = 2"
    by (simp add: leader_reply_def leader_success_def record_match_def leader_commit_def toBeCommitIndex_def
        accepting_reply_def zero_reply_def committing_leader_def append_sample_defs some_vars_def at_def put_at_def
        index_defs upto)
  then show ?thesis using leader_goroutine_advances [OF committing_leader_wf] by blast
qed

subsection \<open>The goroutine ends\<close>

lemma leader_resend_backs_up:
  assumes "leader_resend rf v ind appEnTerm args prevlog snap = Inr (LN_Send rf' v' args' t)"
    and "lastIndexInSnapshot rf = 0"
  shows "PrevLogIndex args' = prevlog" "0 \<le> prevlog" "lastIndexInSnapshot rf' = 0"
  using assms by (auto simp: leader_resend_def Let_def rbind_Inr_conv split: if_splits)

lemma leader_failure_backs_up:
  assumes "leader_failure rf v ind appEnTerm args reply snap = Inr (LN_Send rf' v' args' t)"
    and "lastIndexInSnapshot rf = 0"
  shows "PrevLogIndex args' < PrevLogIndex args" "0 \<le> PrevLogIndex args'" "lastIndexInSnapshot rf' = 0"
  using assms(1)
  by (cases rule: leader_failure_cases; use leader_resend_backs_up [OF _ assms(2)] in fastforce)+

lemma leader_goroutine_backs_up:
  assumes "lastIndexInSnapshot rf = 0" "nat (PrevLogIndex args) < length rs"
    and "\<And>r. r \<in> set rs \<Longrightarrow> \<not> Success r"
  shows "leader_goroutine rf v ind prevLogIndex appEnTerm failures args (map (\<lambda>r. (Some r, snap)) rs) \<noteq> Inr None"
  using assms
proof (induction rs arbitrary: rf v appEnTerm args)
  case (Cons r rs)
  have r: "\<not> Success r" using Cons.prems(3) by simp
  show ?case
  proof (cases "leader_failure rf v ind appEnTerm args r snap")
    case (Inr n)
    show ?thesis
    proof (cases n)
      case (LN_Send rf1 v1 args1 t1)
      note b = leader_failure_backs_up [OF Inr [unfolded LN_Send] Cons.prems(1)]
      have "leader_goroutine rf1 v1 ind prevLogIndex t1 failures args1 (map (\<lambda>r. (Some r, snap)) rs) \<noteq> Inr None"
        by (rule Cons.IH) (use b Cons.prems(2,3) in auto)
      then show ?thesis
        using Inr LN_Send r by (auto simp: leader_reply_def rbind_Inr_conv)
    qed (use Inr r in \<open>auto simp: leader_reply_def rbind_Inr_conv\<close>)
  qed (use r in \<open>auto simp: leader_reply_def rbind_Inr_conv\<close>)
qed simp

text \<open>C14: the goroutine gives up. While the leader has taken no snapshot, a follower that keeps
  refusing is answered by arguments with a smaller and smaller previous index, so that after as many
  refusals as that index plus one the goroutine has ended (it returned, or stopped in a panic); and a
  follower whose calls keep failing is dropped at the eighth failure with nothing changed.\<close>

theorem leader_goroutine_ends:
  assumes "lastIndexInSnapshot rf = 0"
  shows "(nat (PrevLogIndex args) < length rs \<and> (\<forall>r \<in> set rs. \<not> Success r) \<longrightarrow>
      leader_goroutine rf v ind prevLogIndex appEnTerm 0 args (map (\<lambda>r. (Some r, snap)) rs) \<noteq> Inr None) \<and>
    (leaderNum rf = me rf \<longrightarrow>
      leader_goroutine rf v ind prevLogIndex appEnTerm 0 args (replicate 8 (None, snap)) = Inr (Some (rf, v)))"
  using leader_goroutine_backs_up [OF assms] by (simp add: eval_nat_numeral)

theorem leader_goroutine_ends_witness:
  "leader_goroutine (committing_leader 2 [1, 2] [0, 2, 0]) some_vars 2 2 2 0 (append_call 2 2 2 [] 0)
     (map (\<lambda>r. (Some r, [])) (replicate 3 zero_reply)) \<noteq> Inr None"
proof -
  have "lastIndexInSnapshot (committing_leader 2 [1, 2] [0, 2, 0]) = 0"
    by (simp add: committing_leader_sel)
  from leader_goroutine_ends [OF this, of "append_call 2 2 2 [] 0" "replicate 3 zero_reply" some_vars 2 2 2 "[]"]
  show ?thesis by (auto simp: append_call_def zero_reply_def)
qed

subsection \<open>The term index\<close>

text \<open>The last positions of the runs of equal terms, from the end of the log.\<close>

definition run_end :: "'c CommandTerm list \<Rightarrow> nat \<Rightarrow> bool" where
  "run_end l j \<longleftrightarrow> Suc j = length l \<or> Term (l ! Suc j) \<noteq> Term (l ! j)"

definition term_runs :: "'c CommandTerm list \<Rightarrow> nat \<Rightarrow> TermIndex list" where
  "term_runs l n = map (\<lambda>j. \<lparr>TI_Term = Term (l ! j), LastIndexOfTerm = int j\<rparr>) (filter (run_end l) (rev [0..<n]))"

lemma makeTermIndex_loop_runs:
  assumes "i < length l \<Longrightarrow> t = Term (l ! i)" "\<And>j. i = Suc j \<Longrightarrow> i = length l \<Longrightarrow> t \<noteq> Term (l ! j)" "i \<le> length l"
  shows "makeTermIndex_loop l i t ts = ts @ term_runs l i"
  using assms
proof (induction i arbitrary: t ts)
  case (Suc i)
  have "run_end l i \<longleftrightarrow> Term (l ! i) \<noteq> t"
    using Suc.prems(1,3) Suc.prems(2) [of i] by (cases "Suc i = length l") (auto simp: run_end_def)
  then show ?case using Suc by (auto simp: term_runs_def)
qed (simp add: term_runs_def)

lemma makeTermIndex_eq: "log rf \<noteq> [] \<Longrightarrow> makeTermIndex rf = Inr (term_runs (log rf) (length (log rf)))"
  by (auto simp: makeTermIndex_def at_last last_conv_nth intro!: makeTermIndex_loop_runs [where ts = "[]", simplified])

lemma skip_terms_Inr: "ts \<noteq> [] \<Longrightarrow> \<exists>r. skip_terms ts t = Inr r"
  by (induction ts t rule: skip_terms.induct) auto

lemma skip_terms_runs:
  assumes "skip_terms (term_runs l i) t = Inr r" "TI_Term r \<le> t" "\<And>n. i \<le> n \<Longrightarrow> n < length l \<Longrightarrow> t < Term (l ! n)"
    and "i \<le> length l"
  shows "\<exists>j < length l. LastIndexOfTerm r = int j \<and> Term (l ! j) \<le> t \<and>
     (\<forall>n. j < n \<and> n < length l \<longrightarrow> t < Term (l ! n))"
  using assms
proof (induction i)
  case (Suc i)
  have later: "t < Term (l ! n)" if "t < Term (l ! i)" "i \<le> n" "n < length l" for n
    using Suc.prems(3) [of n] that by (cases "n = i") auto
  show ?case
  proof (cases "run_end l i \<and> Term (l ! i) \<le> t")
    case True
    then have "r = \<lparr>TI_Term = Term (l ! i), LastIndexOfTerm = int i\<rparr>"
      using Suc.prems(1) by (cases "term_runs l i") (auto simp: term_runs_def)
    then show ?thesis using True Suc.prems(3,4) by (auto intro!: exI [of _ i])
  next
    case False
    have gt: "t < Term (l ! i)"
      using False Suc.prems(3) [of "Suc i"] Suc.prems(4) by (auto simp: run_end_def)
    have "skip_terms (term_runs l i) t = Inr r"
      using Suc.prems(1,2) gt by (cases "filter (run_end l) (rev [0..<i])") (auto simp: term_runs_def split: if_splits)
    then show ?thesis using Suc.IH Suc.prems(2,4) later [OF gt] by auto
  qed
qed (simp add: term_runs_def)

text \<open>When a follower reports the term of its conflicting entry, the jump over the leader's
  term cache never goes forward and only skips entries whose term is above the reported one, so no
  entry that could match is skipped.\<close>

theorem back_up_skips_newer_terms:
  assumes "log rf \<noteq> []" "curLastSnapshotIndex v = lastIndexInSnapshot rf" "makeTermIndex rf = Inr (termList v)"
  shows "\<exists>v' p'. back_up rf v p t = Inr (v', p') \<and> p' \<le> p \<and>
     (\<forall>n. p' < int n \<and> int n \<le> p \<and> n < length (log rf) \<longrightarrow> t < Term (log rf ! n))"
proof -
  have tl: "termList v = term_runs (log rf) (length (log rf))" using makeTermIndex_eq [OF assms(1)] assms(3) by simp
  have "run_end (log rf) (length (log rf) - 1)" using assms(1) by (simp add: run_end_def)
  then have "termList v \<noteq> []" using assms(1) unfolding tl term_runs_def
    by (auto simp: filter_empty_conv intro!: bexI [of _ "length (log rf) - 1"])
  then obtain r where r: "skip_terms (termList v) t = Inr r" using skip_terms_Inr by blast
  then show ?thesis
    using assms(2) skip_terms_runs [of "log rf" "length (log rf)" t r]
    by (auto simp: back_up_def tl)
qed

theorem back_up_skips_newer_terms_witness:
  "\<exists>v' p'. back_up (committing_leader 3 [1, 1, 3, 3] [0, 4, 0])
       \<lparr>termList = term_runs (log (committing_leader 3 [1, 1, 3, 3] [0, 4, 0])) 5, curLastSnapshotIndex = 0, AEDistributedChan = 0\<rparr>
       3 2 = Inr (v', p') \<and> p' \<le> 3 \<and>
     (\<forall>n. p' < int n \<and> int n \<le> 3 \<and> n < 5 \<longrightarrow> 2 < Term (log (committing_leader 3 [1, 1, 3, 3] [0, 4, 0]) ! n))"
proof -
  let ?rf = "committing_leader 3 [1, 1, 3, 3] [0, 4, 0]"
  have l: "log ?rf \<noteq> []" "length (log ?rf) = 5" by (simp_all add: committing_leader_def append_sample_defs)
  show ?thesis
    using back_up_skips_newer_terms [OF l(1), where p = 3 and t = 2 and
        v = "\<lparr>termList = term_runs (log ?rf) 5, curLastSnapshotIndex = 0, AEDistributedChan = 0\<rparr>"]
    by (simp add: makeTermIndex_eq [OF l(1)] l(2) committing_leader_sel)
qed

subsection \<open>A command enters the log\<close>

lemma Start_eq:
  assumes "leaderNum rf = me rf" "commandToBeExec rf < 256" "0 \<le> me rf" "me rf < int (length (matchIndex rf))"
  shows "Start rf command = Inr (persist (rf\<lparr>commandToBeExec := Suc (commandToBeExec rf),
      log := log rf @ [\<lparr>Command = Some command, Term = currentTerm rf\<rparr>],
      matchIndex := (matchIndex rf)[nat (me rf) := getLastLogIndex rf + 1]\<rparr>),
    getLastLogIndex rf + 1, currentTerm rf, True)"
  using assms by (simp add: Start_def put_at_def index_defs Let_def algebra_simps)

lemma log_entry_append:
  assumes "log rf' = log rf @ [e]" "lastIndexInSnapshot rf' = lastIndexInSnapshot rf"
  shows "getLastLogIndex rf' = getLastLogIndex rf + 1" "n \<le> getLastLogIndex rf \<Longrightarrow> log_entry rf' n = log_entry rf n"
    "log_entry rf' (getLastLogIndex rf + 1) = Some e"
  using assms by (auto simp: log_entry_def getLastLogIndex_def nth_append nat_add_distrib)

lemma Start_advances:
  assumes wf: "raft_wf rf" and s: "Start rf command = Inr (rf', index, t, ok)"
  shows "advances rf rf'" "lastIndexInSnapshot rf' = lastIndexInSnapshot rf" "peers rf' = peers rf" "me rf' = me rf"
proof -
  have "advances rf rf' \<and> lastIndexInSnapshot rf' = lastIndexInSnapshot rf \<and> peers rf' = peers rf \<and> me rf' = me rf"
  proof (cases "leaderNum rf = me rf")
    case True
    then have c: "log rf' = log rf @ [\<lparr>Command = Some command, Term = currentTerm rf\<rparr>]"
      "lastIndexInSnapshot rf' = lastIndexInSnapshot rf" "commitIndex rf' = commitIndex rf" "applyCh rf' = applyCh rf"
      "peers rf' = peers rf" "me rf' = me rf"
      using s by (auto simp: Start_def Let_def rbind_Inr_conv split: if_splits)
    note e = log_entry_append [OF c(1,2)]
    have "n \<le> commitIndex rf \<Longrightarrow> log_entry rf' n = log_entry rf n" for n
      using e(2) raft_wfD(4) [OF wf] by simp
    then show ?thesis using wf c e(1) by (auto simp: advances_def raft_wf_def)
  qed (use s wf in \<open>auto simp: Start_def Let_def advances_refl\<close>)
  then show "advances rf rf'" "lastIndexInSnapshot rf' = lastIndexInSnapshot rf" "peers rf' = peers rf" "me rf' = me rf"
    by auto
qed

text \<open>C12: a leader with room in its command queue accepts every command: it becomes the entry after
  the last one, in the leader's term, under the index that is returned; all older entries stay, the
  leader counts itself as holding it, and the log is on disk when the call returns.\<close>

theorem Start_appends:
  assumes "raft_wf rf" "leaderNum rf = me rf" "commandToBeExec rf < 256" "0 \<le> me rf" "me rf < int (length (matchIndex rf))"
  shows "\<exists>rf'. Start rf command = Inr (rf', getLastLogIndex rf + 1, currentTerm rf, True) \<and> advances rf rf' \<and>
     getLastLogIndex rf' = getLastLogIndex rf + 1 \<and>
     log_entry rf' (getLastLogIndex rf + 1) = Some \<lparr>Command = Some command, Term = currentTerm rf\<rparr> \<and>
     (\<forall>n \<le> getLastLogIndex rf. log_entry rf' n = log_entry rf n) \<and>
     matchIndex rf' ! nat (me rf) = getLastLogIndex rf + 1 \<and> disk_log rf'"
proof -
  note s = Start_eq [OF assms(2-5), of command]
  let ?rf' = "persist (rf\<lparr>commandToBeExec := Suc (commandToBeExec rf),
      log := log rf @ [\<lparr>Command = Some command, Term = currentTerm rf\<rparr>],
      matchIndex := (matchIndex rf)[nat (me rf) := getLastLogIndex rf + 1]\<rparr>)"
  have "log ?rf' = log rf @ [\<lparr>Command = Some command, Term = currentTerm rf\<rparr>]"
    "lastIndexInSnapshot ?rf' = lastIndexInSnapshot rf" by simp_all
  note e = log_entry_append [OF this]
  have "matchIndex ?rf' ! nat (me rf) = getLastLogIndex rf + 1" using assms(4,5) by simp
  then show ?thesis
    using s Start_advances(1) [OF assms(1) s] e disk_log_persist by blast
qed

theorem Start_appends_witness:
  "\<exists>rf'. Start (committing_leader 2 [1, 2] [0, 2, 0]) 5 = Inr (rf', 3, 2, True) \<and>
     log_entry rf' 3 = Some \<lparr>Command = Some 5, Term = 2\<rparr>"
proof -
  let ?rf = "committing_leader 2 [1, 2] [0, 2, 0]"
  have "leaderNum ?rf = me ?rf" "commandToBeExec ?rf < 256" "0 \<le> me ?rf" "me ?rf < int (length (matchIndex ?rf))"
    by (simp_all add: committing_leader_sel) (simp add: committing_leader_def append_sample_defs)
  from Start_appends [OF committing_leader_wf this, of 5] show ?thesis by (auto simp: committing_leader_sel)
qed

subsection \<open>One round with one follower\<close>

definition round_args :: "'c Raft \<Rightarrow> int \<Rightarrow> 'c AppendEntryArgs" where
  "round_args ld nx = \<lparr>AE_Term = currentTerm ld, LeaderID = me ld, PrevLogIndex = nx - 1,
     PrevLogTerm = Term (log ld ! nat (nx - 1 - lastIndexInSnapshot ld)),
     Entries = drop (nat (nx - lastIndexInSnapshot ld)) (log ld), LeaderCommit = commitIndex ld\<rparr>"

lemma leader_args_eq:
  assumes wf: "raft_wf ld" and ind: "ind < length (nextIndex ld)"
    and nx: "lastIndexInSnapshot ld < nextIndex ld ! ind" "nextIndex ld ! ind \<le> getLastLogIndex ld + 1"
  shows "leader_args ld (getLastLogIndex ld + 1) (int ind) snap = Inr (ld, Some (round_args ld (nextIndex ld ! ind)))"
proof -
  define nx where "nx = nextIndex ld ! ind"
  note n = assms(3,4) [folded nx_def]
  have a: "at (nextIndex ld) (int ind) = Inr nx" using ind by (simp add: at_def nx_def)
  have t: "at (log ld) (getTrueIndex ld (nx - 1)) = Inr (log ld ! nat (nx - 1 - lastIndexInSnapshot ld))"
    "getTrueIndex ld (nx - 1) < int (length (log ld))"
    using at_getTrueIndex [OF wf, of "nx - 1"] getTrueIndex_less_length [OF wf, of "nx - 1"] n
    by (simp_all add: getTrueIndex_def)
  have sl: "slice_of (log ld) (getTrueIndex ld nx) (int (length (log ld))) =
      Inr (drop (nat (nx - lastIndexInSnapshot ld)) (log ld))"
    using n by (subst slice_in_range) (auto simp: getTrueIndex_def getLastLogIndex_def)
  have d: "drop (nat (nx - lastIndexInSnapshot ld)) (log ld) = []" if "\<not> nx < getLastLogIndex ld + 1"
    using that by (simp add: getLastLogIndex_def)
  have es: "(if nx < getLastLogIndex ld + 1 \<and> nx - 1 + 1 - lastIndexInSnapshot ld > 0
        then slice_of (log ld) (getTrueIndex ld (nx - 1 + 1)) (int (length (log ld))) else Inr []) =
      Inr (drop (nat (nx - lastIndexInSnapshot ld)) (log ld))"
    using sl n(1) d by simp
  have "\<not> nx \<le> lastIndexInSnapshot ld" "\<not> getTrueIndex ld (nx - 1) \<ge> int (length (log ld))"
    using n(1) t(2) by simp_all
  then show ?thesis
    unfolding nx_def [symmetric] leader_args_def a Let_def
    by (simp only: rbind_simps if_False a es t(1) AppendEntryArgs.simps round_args_def)
qed

lemma round_args_entry:
  assumes wf: "raft_wf ld" and nx: "lastIndexInSnapshot ld < nx" and n: "nx \<le> n" "n \<le> getLastLogIndex ld"
  shows "nat (n - nx) < length (Entries (round_args ld nx))"
    "log_entry ld n = Some (Entries (round_args ld nx) ! nat (n - nx))"
proof -
  define d k where "d = nat (nx - lastIndexInSnapshot ld)" and "k = nat (n - nx)"
  have i: "nat (n - lastIndexInSnapshot ld) = d + k" using nx n(1) by (simp add: d_def k_def)
  have len: "d + k < length (log ld)" using i nx n by (simp add: getLastLogIndex_def)
  show "nat (n - nx) < length (Entries (round_args ld nx))"
    using len by (simp add: round_args_def flip: d_def k_def)
  show "log_entry ld n = Some (Entries (round_args ld nx) ! nat (n - nx))"
    using nx n len by (simp add: log_entry_def round_args_def i flip: d_def k_def)
qed

lemma replication_round_stores:
  assumes "raft_wf ld" "ind < length (nextIndex ld)" "length (matchIndex ld) = length (nextIndex ld)"
    and "lastIndexInSnapshot ld < nextIndex ld ! ind" "nextIndex ld ! ind \<le> getLastLogIndex ld"
    and "raft_wf f" "3 \<le> peers f" "\<not> refused f (round_args ld (nextIndex ld ! ind))"
    and "commitIndex f < nextIndex ld ! ind" "\<And>e. e \<in> set (tl (log ld)) \<Longrightarrow> Command e \<noteq> None"
  shows "\<exists>args f' reply ld' b. leader_args ld (getLastLogIndex ld + 1) (int ind) snap = Inr (ld, Some args) \<and>
     AppendEntry f args = Inr (f', reply) \<and> Success reply \<and>
     (\<forall>n. nextIndex ld ! ind \<le> n \<and> n \<le> getLastLogIndex ld \<longrightarrow> log_entry f' n = log_entry ld n) \<and>
     (\<forall>n < nextIndex ld ! ind. log_entry f' n = log_entry f n) \<and>
     record_match ld (int ind) args reply = Inr (ld', b) \<and> matchIndex ld' ! ind = getLastLogIndex ld"
proof -
  define nx where "nx = nextIndex ld ! ind"
  let ?a = "round_args ld nx"
  note [simp] = nx_def [symmetric]
  have n: "lastIndexInSnapshot ld < nx" "nx \<le> getLastLogIndex ld" using assms(4,5) by simp_all
  have la: "leader_args ld (getLastLogIndex ld + 1) (int ind) snap = Inr (ld, Some ?a)"
    using leader_args_eq [OF assms(1,2)] n by simp
  have prev: "commitIndex f \<le> PrevLogIndex ?a" "PrevLogIndex ?a \<le> getLastLogIndex f"
    using assms(8,9) by (simp_all add: round_args_def refused_def)
  have sub: "set (Entries ?a) \<subseteq> set (tl (log ld))"
    using n(1) by (cases "nat (nx - lastIndexInSnapshot ld)") (auto simp: round_args_def drop_Suc dest: in_set_dropD)
  have cmd: "Command e \<noteq> None" if "e \<in> set (Entries ?a)" for e using that sub assms(10) by blast
  have nr: "\<not> refused f ?a" using assms(8) by simp
  obtain f' reply where f': "AppendEntry f ?a = Inr (f', reply)" "Success reply" "append_effect f ?a f'"
    and ci: "CommitIndex reply = 0"
    using AppendEntry_accepted [OF assms(6,7) nr prev(1) cmd] by blast
  have ent: "log_entry f' k = log_entry ld k" if "nx \<le> k" "k \<le> getLastLogIndex ld" for k
    using append_effect_entries [OF assms(6) prev f'(3) round_args_entry(1) [OF assms(1) n(1) that]]
      round_args_entry(2) [OF assms(1) n(1) that] that by (simp add: round_args_def)
  have old: "log_entry f' k = log_entry f k" if "k < nx" for k
    using append_effect_wf(3) [OF assms(6) prev f'(3)] that by (simp add: round_args_def)
  have upto: "PrevLogIndex ?a + int (length (Entries ?a)) + 1 = getLastLogIndex ld + 1"
    using n by (auto simp: round_args_def getLastLogIndex_def)
  have "\<exists>ld' b. record_match ld (int ind) ?a reply = Inr (ld', b) \<and> matchIndex ld' ! ind = getLastLogIndex ld"
    using assms(2,3) n(2) ci upto by (simp add: record_match_def at_def put_at_def Let_def) blast
  then show ?thesis using la f' ent old by auto
qed

text \<open>A call whose previous entry matches but lies below the follower's commit index changes no log.\<close>

lemma AppendEntry_behind:
  assumes wf: "raft_wf f" and p: "3 \<le> peers f" and nr: "\<not> refused f args" and c: "PrevLogIndex args < commitIndex f"
  shows "\<exists>f' reply. AppendEntry f args = Inr (f', reply) \<and> Success reply \<and> CommitIndex reply = commitIndex f \<and> same_log f f'"
proof -
  have tm: "\<not> AE_Term args < currentTerm f" using nr by (simp add: refused_def)
  have s: "same_log f (append_start f args)" by (rule append_start_same_log)
  then obtain f' where f': "notify 3 (append_start f args) = Inr f'"
    using notify_Inr [of 3 "append_start f args"] p by (auto simp: same_log_def)
  then have same: "same_log f f'" using s notify_same_log same_log_trans by blast
  have "AppendEntry f args = Inr (f', zero_reply\<lparr>Me := me f, AER_Term := currentTerm f, CommitIndex := commitIndex f, Success := True\<rparr>)"
    using nr c same same_log_index [OF same]
    by (auto simp: AppendEntry_eq [OF wf f' tm] append_answer_def refused_def same_log_def Let_def)
  then show ?thesis using same by (simp add: zero_reply_def)
qed

lemma replication_round_behind:
  assumes "raft_wf ld" "ind < length (nextIndex ld)" "length (matchIndex ld) = length (nextIndex ld)"
    and "lastIndexInSnapshot ld < nextIndex ld ! ind" "nextIndex ld ! ind \<le> getLastLogIndex ld"
    and "raft_wf f" "3 \<le> peers f" "\<not> refused f (round_args ld (nextIndex ld ! ind))" "nextIndex ld ! ind \<le> commitIndex f"
  shows "\<exists>args f' reply ld' b. leader_args ld (getLastLogIndex ld + 1) (int ind) snap = Inr (ld, Some args) \<and>
     AppendEntry f args = Inr (f', reply) \<and> Success reply \<and> (\<forall>n. log_entry f' n = log_entry f n) \<and>
     record_match ld (int ind) args reply = Inr (ld', b) \<and> matchIndex ld' ! ind = commitIndex f"
proof -
  let ?a = "round_args ld (nextIndex ld ! ind)"
  have la: "leader_args ld (getLastLogIndex ld + 1) (int ind) snap = Inr (ld, Some ?a)"
    using leader_args_eq [OF assms(1,2,4)] assms(5) by simp
  obtain f' reply where r: "AppendEntry f ?a = Inr (f', reply)" "Success reply" "CommitIndex reply = commitIndex f" "same_log f f'"
    using AppendEntry_behind [OF assms(6-8)] assms(9) by (auto simp: round_args_def)
  have "0 < commitIndex f" using assms(4,9) raft_wfD(2) [OF assms(1)] by simp
  then have "\<exists>ld' b. record_match ld (int ind) ?a reply = Inr (ld', b) \<and> matchIndex ld' ! ind = commitIndex f"
    using assms(2,3) r(3) by (simp add: record_match_def set_progress_def at_def put_at_def) blast
  then show ?thesis using la r same_log_index(3) [OF r(4)] by blast
qed



subsection \<open>Between the election and the leader's loop\<close>

lemma candidate_loop_frame:
  assumes "candidate_loop maj s es = Some (rf', b)"
  shows "matchIndex rf' = matchIndex (fst s)" "commandToBeExec rf' = commandToBeExec (fst s)"
  using assms
  by (induction es arbitrary: s)
    (auto simp: Let_def split: prod.splits option.splits if_splits elim!: candidate_step.elims)

lemma Make_matchIndex:
  assumes "Make n i ps = Inr rf"
  shows "matchIndex rf = []" "commandToBeExec rf = 0"
proof -
  have "readSnapshotPersist rf1 d = Inr rf2 \<Longrightarrow> matchIndex rf2 = matchIndex rf1"
    "readPersist rf1 d = Inr rf2 \<Longrightarrow> matchIndex rf2 = matchIndex rf1" for rf1 rf2 :: "'a Raft" and d
    by (auto simp: readSnapshotPersist_eq readPersist_def rbind_Inr_conv Let_def
        split: if_splits option.splits prod.splits)
  then show "matchIndex rf = []" "commandToBeExec rf = 0"
    using assms by (fastforce simp: Make_def rbind_Inr_conv Let_def zero_raft_def split: if_splits)+
qed

text \<open>A peer that wins its first election is leader from the moment the votes are counted, but
  the match indices are only allocated when \<open>LeaderProcess\<close> starts. A command handed to \<open>Start\<close> in
  between makes the peer panic on the empty slice.\<close>

theorem Start_before_LeaderProcess_panics:
  assumes "Make n i ps = Inr rf" "CandidateProcess rf es = Inr (Some (rf', b))" "leaderNum rf' = me rf'"
  shows "Start rf' command = Inl IndexOutOfRange"
proof -
  have "matchIndex rf' = []" "commandToBeExec rf' = 0"
    using assms(2) candidate_loop_frame Make_matchIndex [OF assms(1)]
    by (fastforce simp: CandidateProcess_def CandidateProcess_start_def rbind_Inr_conv)+
  then show ?thesis using assms(3) by (simp add: Start_def put_at_def Let_def)
qed

theorem Start_before_LeaderProcess_panics_witness:
  "\<exists>rf rf' b. Make 3 0 (MakePersister :: nat Persister) = Inr rf \<and>
     CandidateProcess rf [CE_Reply \<lparr>RVR_Term = 0, VoteGranted = True\<rparr>] = Inr (Some (rf', b)) \<and>
     Start rf' 5 = Inl IndexOutOfRange"
proof -
  obtain rf :: "nat Raft" where rf: "Make 3 0 (MakePersister :: nat Persister) = Inr rf" "log rf \<noteq> []" "peers rf = 3"
    by (simp add: Make_def readSnapshotPersist_eq readPersist_def persister_defs zero_raft_def)
  obtain rf' b where c: "CandidateProcess rf [CE_Reply \<lparr>RVR_Term = 0, VoteGranted = True\<rparr>] = Inr (Some (rf', b))"
    "leaderNum rf' = me rf'"
    using rf by (simp add: CandidateProcess_def CandidateProcess_start_def at_last majority_def)
  show ?thesis using rf c Start_before_LeaderProcess_panics [OF rf(1) c] by blast
qed

end
