(* ===== verification/Raft_Node.thy ===== *)
theory Raft_Node
  imports Raft_Leader
begin

section \<open>Raft: a peer as a whole\<close>

text \<open>
  \<open>Follower\<close>, \<open>Kill\<close> and \<open>mainProcess\<close> of \<^verbatim>\<open>src/raft/raft.go\<close>, and the transition system of one
  peer: a step is one handler call, one turn of the loop that \<open>mainProcess\<close> is in, one answer to
  a goroutine of the leader, or a call of the service (\<open>Start\<close>, \<open>TakeSnapshots\<close>, \<open>Kill\<close>).
  The locale \<open>service_promise\<close> is the contract between Raft and its service: what the operations
  of a peer do to the messages on \<open>applyCh\<close>. Every operation interprets it, and the invariant of
  the transition system rests on the interpretations.
\<close>

subsection \<open>The follower's loop, Kill and mainProcess\<close>

datatype follower_event = FE_Timeout | FE_AENotify

text \<open>One turn of the follower's loop; the flag tells whether the loop ends.\<close>

fun follower_step :: "'c Raft \<Rightarrow> follower_event \<Rightarrow> ('c Raft \<times> bool) result" where
  "follower_step rf FE_Timeout =
     Inr (persist (rf\<lparr>currentTerm := currentTerm rf + 1, leaderNum := -1\<rparr>), True)"
| "follower_step rf FE_AENotify =
     (if AENotifyChan rf = 0 then Inl Blocked
      else Inr (rf\<lparr>AENotifyChan := min (AENotifyChan rf - 1) 1\<rparr>, False))"

definition Kill :: "'c Raft \<Rightarrow> 'c Raft" where
  "Kill rf = (persist (rf\<lparr>exitFlag := True\<rparr>))\<lparr>leaderNum := -1\<rparr>"

text \<open>Where \<open>mainProcess\<close> is: at the head of its loop, in one of the three functions it calls
  (with their local variables), or returned.\<close>

datatype role =
    R_Main
  | R_Candidate nat
  | R_Leader leader_vars
  | R_Follower
  | R_Stopped

record 'c node =
  raft :: "'c Raft"
  role :: role

datatype main_event =
    ME_Main
  | ME_Candidate cand_event
  | ME_Leader leader_event
  | ME_Follower follower_event

text \<open>One turn of the loop \<open>mainProcess\<close> is in, with what it does when that function returns.\<close>

fun after_candidate :: "'c Raft \<Rightarrow> nat \<Rightarrow> bool option \<Rightarrow> 'c node result" where
  "after_candidate rf granted None = Inr \<lparr>raft = rf, role = R_Candidate granted\<rparr>"
| "after_candidate rf granted (Some True) = Inr \<lparr>raft = rf, role = R_Main\<rparr>"
| "after_candidate rf granted (Some False) =
     (if me rf = leaderNum rf
      then rbind (LeaderProcess_start rf) (\<lambda>(rf, v). Inr \<lparr>raft = rf, role = R_Leader v\<rparr>)
      else Inr \<lparr>raft = rf, role = R_Follower\<rparr>)"

definition after_leader :: "'c Raft \<Rightarrow> leader_vars \<Rightarrow> int option \<Rightarrow> 'c node" where
  "after_leader rf v r =
     (case r of None \<Rightarrow> \<lparr>raft = rf, role = R_Leader v\<rparr>
      | Some leaderStatus \<Rightarrow> if leaderStatus = -1 then \<lparr>raft = rf, role = R_Follower\<rparr> else \<lparr>raft = rf, role = R_Main\<rparr>)"

fun mainProcess_turn :: "'c node \<Rightarrow> main_event \<Rightarrow> 'c node result" where
  "mainProcess_turn s e =
     (case (role s, e) of
        (R_Main, ME_Main) \<Rightarrow>
          if exitFlag (raft s) then Inr \<lparr>raft = (raft s)\<lparr>leaderNum := -1\<rparr>, role = R_Stopped\<rparr>
          else rbind (CandidateProcess_start (raft s)) (\<lambda>(rf, args). Inr \<lparr>raft = rf, role = R_Candidate 1\<rparr>)
      | (R_Candidate granted, ME_Candidate ce) \<Rightarrow>
          (case candidate_step (majority (peers (raft s))) (raft s, granted) ce of
             ((rf, granted), r) \<Rightarrow> after_candidate rf granted r)
      | (R_Leader v, ME_Leader le) \<Rightarrow>
          rbind (leader_step (raft s) v le) (\<lambda>(rf, v, sent, r). Inr (after_leader rf v r))
      | (R_Follower, ME_Follower fe) \<Rightarrow>
          rbind (follower_step (raft s) fe) (\<lambda>(rf, timeout).
            Inr \<lparr>raft = rf, role = (if timeout then R_Main else R_Follower)\<rparr>)
      | _ \<Rightarrow> Inl Blocked)"

subsection \<open>The transition system\<close>

fun next_vars :: "'c leader_next \<Rightarrow> leader_vars" where
  "next_vars (LN_Return rf v) = v"
| "next_vars (LN_Send rf v args t) = v"

text \<open>A call of \<open>InstallSnapShot\<close> that has released the lock still has to send its message and to save the snapshot;
  such calls are pending. The history of a peer has, for every snapshot that was installed, the commit index before and the
  index of the snapshot. It is only read by statements about the peer.\<close>

record 'c installing =
  in_pending :: "('c ApplyMsg \<times> 'c gob list) list"
  in_history :: "(int \<times> int) list"

text \<open>The steps of a peer on its own. The tests of \<open>InstallSnapShot\<close> before the lock may have been made in an earlier
  state, so any readable snapshot can arrive at the lock. A goroutine of an earlier leadership still answers with its own
  variables, which nobody else reads any more.\<close>

inductive raft_step :: "'c node \<times> 'c installing \<Rightarrow> 'c node \<times> 'c installing \<Rightarrow> bool" where
  vote: "RequestVote (raft s) va = Inr (rf', vr) \<Longrightarrow> raft_step (s, ins) (s\<lparr>raft := rf'\<rparr>, ins)"
| append: "AppendEntry (raft s) aa = Inr (rf', ar) \<Longrightarrow> raft_step (s, ins) (s\<lparr>raft := rf'\<rparr>, ins)"
| install: "readSnapshot_locked (raft s) data = Inr (rf', Some m) \<Longrightarrow>
     raft_step (s, ins) (s\<lparr>raft := rf'\<rparr>, ins\<lparr>in_pending := in_pending ins @ [(m, data)],
       in_history := in_history ins @ [(commitIndex (raft s), lastIndexInSnapshot rf')]\<rparr>)"
| send: "(m, data) \<in> set (in_pending ins) \<Longrightarrow>
     raft_step (s, ins) (s\<lparr>raft := readSnapshot_send (raft s) data m\<rparr>, ins\<lparr>in_pending := remove1 (m, data) (in_pending ins)\<rparr>)"
| main: "mainProcess_turn s e = Inr s' \<Longrightarrow> raft_step (s, ins) (s', ins)"
| answer: "role s = R_Leader v \<Longrightarrow> leader_reply (raft s) v ind prev aet args reply snap = Inr n \<Longrightarrow>
     raft_step (s, ins) (s\<lparr>raft := next_raft n, role := R_Leader (next_vars n)\<rparr>, ins)"
| late_answer: "leader_reply (raft s) v ind prev aet args reply snap = Inr n \<Longrightarrow>
     raft_step (s, ins) (s\<lparr>raft := next_raft n\<rparr>, ins)"
| stale_sender: "notify 2 (raft s) = Inr rf' \<Longrightarrow> raft_step (s, ins) (s\<lparr>raft := rf'\<rparr>, ins)"

text \<open>The calls of a service: it starts commands, kills the peer, and takes snapshots with the index of a command that it
  got from the peer.\<close>

definition cmd_indices :: "'c ApplyMsg list \<Rightarrow> int list" where
  "cmd_indices ms = map CommandIndex (filter CommandValid ms)"

inductive node_step :: "'c node \<times> 'c installing \<Rightarrow> 'c node \<times> 'c installing \<Rightarrow> bool" where
  own: "raft_step s s' \<Longrightarrow> node_step s s'"
| start: "Start (raft s) c = Inr (rf', index, t, ok) \<Longrightarrow> node_step (s, ins) (s\<lparr>raft := rf'\<rparr>, ins)"
| snapshot: "TakeSnapshots (raft s) seq rsm index = Inr rf' \<Longrightarrow> index \<in> set (cmd_indices (applyCh (raft s))) \<Longrightarrow>
     node_step (s, ins) (s\<lparr>raft := rf'\<rparr>, ins)"
| kill: "node_step (s, ins) (s\<lparr>raft := Kill (raft s)\<rparr>, ins)"

definition made_installing :: "'c Raft \<Rightarrow> 'c installing" where
  "made_installing rf = \<lparr>in_pending = [],
     in_history = (if lastIndexInSnapshot rf = 0 then [] else [(0, lastIndexInSnapshot rf)])\<rparr>"

inductive reachable :: "nat \<Rightarrow> int \<Rightarrow> 'c Persister \<Rightarrow> 'c node \<times> 'c installing \<Rightarrow> bool" for n i ps where
  made: "Make n i ps = Inr rf \<Longrightarrow> reachable n i ps (\<lparr>raft = rf, role = R_Main\<rparr>, made_installing rf)"
| step: "reachable n i ps s \<Longrightarrow> node_step s s' \<Longrightarrow> reachable n i ps s'"

subsection \<open>The promise to the service\<close>

text \<open>The indices of the commands that the service gets: up to the commit index, but at a snapshot the sequence goes on behind
  the index of the snapshot.\<close>

fun segments :: "int \<Rightarrow> (int \<times> int) list \<Rightarrow> int \<Rightarrow> int list" where
  "segments c [] b = [c + 1..b]"
| "segments c ((a, k) # hist) b = [c + 1..a] @ segments k hist b"

text \<open>Every snapshot reached beyond the commit index when it was installed.\<close>

definition ahead :: "(int \<times> int) list \<Rightarrow> bool" where
  "ahead hist \<longleftrightarrow> (\<forall>(a, k) \<in> set hist. a < k)"

fun chain :: "int \<Rightarrow> (int \<times> int) list \<Rightarrow> int \<Rightarrow> bool" where
  "chain c [] b \<longleftrightarrow> c \<le> b"
| "chain c ((a, k) # hist) b \<longleftrightarrow> c \<le> a \<and> a < k \<and> chain k hist b"

text \<open>Every delivered command that is still in the log is the one in the log.\<close>

definition agrees :: "'c Raft \<Rightarrow> bool" where
  "agrees rf \<longleftrightarrow> (\<forall>m e. m \<in> set (applyCh rf) \<and> CommandValid m \<and> log_entry rf (CommandIndex m) = Some e \<longrightarrow>
     ApplyCommand m = Command e)"

definition delivered :: "(int \<times> int) list \<Rightarrow> 'c Raft \<Rightarrow> bool" where
  "delivered hist rf \<longleftrightarrow> raft_wf rf \<and> chain 0 hist (commitIndex rf) \<and>
     cmd_indices (applyCh rf) = segments 0 hist (commitIndex rf) \<and> agrees rf"

definition snapshot_count :: "'c ApplyMsg list \<Rightarrow> nat" where
  "snapshot_count ms = length (filter (\<lambda>m. \<not> CommandValid m) ms)"

definition peer_inv :: "'c node \<times> 'c installing \<Rightarrow> bool" where
  "peer_inv x \<longleftrightarrow> delivered (in_history (snd x)) (raft (fst x)) \<and>
     (\<forall>(m, d) \<in> set (in_pending (snd x)). \<not> CommandValid m) \<and>
     snapshot_count (applyCh (raft (fst x))) + length (in_pending (snd x)) = length (in_history (snd x))"

lemma cmd_indices_append [simp]: "cmd_indices (xs @ ys) = cmd_indices xs @ cmd_indices ys"
  by (simp add: cmd_indices_def)

lemma cmd_indices_committed [simp]: "cmd_indices (committed_msgs rf a b) = [a..b]"
  by (simp add: cmd_indices_def committed_msgs_def cmd_msg_def comp_def filter_map)

lemma snapshot_count_append [simp]: "snapshot_count (xs @ ys) = snapshot_count xs + snapshot_count ys"
  by (simp add: snapshot_count_def)

lemma snapshot_count_committed [simp]: "snapshot_count (committed_msgs rf a b) = 0"
  by (simp add: snapshot_count_def committed_msgs_def cmd_msg_def)

lemma sorted_upto_int: "sorted_wrt (<) [a..b :: int]"
  by (induction a b rule: upto.induct) (subst upto.simps, auto)

lemma upto_split2': "c \<le> b \<Longrightarrow> b \<le> b' \<Longrightarrow> [c + 1..b'] = [c + 1..b] @ [b + 1..b' :: int]"
  by (cases "c = b") (auto simp: upto_split2 [of "c + 1" b b'])

lemma chain_le: "chain c hist b \<Longrightarrow> c \<le> b"
  by (induction c hist b rule: chain.induct) auto

lemma chain_mono: "chain c hist b \<Longrightarrow> b \<le> b' \<Longrightarrow> chain c hist b'"
  by (induction c hist b rule: chain.induct) auto

lemma chain_snoc: "chain c hist b \<Longrightarrow> b < k \<Longrightarrow> chain c (hist @ [(b, k)]) k"
  by (induction c hist b rule: chain.induct) auto

lemma segments_snoc: "segments c (hist @ [(b, k)]) b' = segments c hist b @ [k + 1..b']"
  by (induction c hist b rule: segments.induct) auto

lemma segments_extend: "chain c hist b \<Longrightarrow> b \<le> b' \<Longrightarrow> segments c hist b' = segments c hist b @ [b + 1..b']"
  by (induction c hist b rule: chain.induct) (auto intro: upto_split2')

lemma segments_range: "chain c hist b \<Longrightarrow> set (segments c hist b) \<subseteq> {c<..b}"
  by (induction c hist b rule: chain.induct) (auto dest: chain_le)

lemma segments_sorted: "chain c hist b \<Longrightarrow> sorted_wrt (<) (segments c hist b)"
proof (induction c hist b rule: chain.induct)
  case (2 c a k hist b)
  then show ?case using segments_range [of k hist b] by (auto simp: sorted_wrt_append sorted_upto_int)
qed (simp add: sorted_upto_int)

lemma delivered_le:
  assumes "delivered hist rf" "m \<in> set (applyCh rf)" "CommandValid m"
  shows "CommandIndex m \<le> commitIndex rf"
proof -
  have "CommandIndex m \<in> set (cmd_indices (applyCh rf))" using assms(2,3) by (simp add: cmd_indices_def)
  then show ?thesis using assms(1) segments_range by (fastforce simp: delivered_def)
qed

lemma log_entry_committed_msg:
  assumes "m \<in> set (committed_msgs rf a b)" "log_entry rf (CommandIndex m) = Some e"
  shows "ApplyCommand m = Command e"
  using assms by (auto simp: committed_msgs_def cmd_msg_def log_entry_def split: if_splits)

lemma advances_delivered:
  assumes adv: "advances rf rf'" and del: "delivered hist rf"
  shows "delivered hist rf'"
proof -
  have ci: "commitIndex rf \<le> commitIndex rf'" using adv by (simp add: advances_def)
  have ch: "chain 0 hist (commitIndex rf)" using del by (simp add: delivered_def)
  have "ApplyCommand m = Command e"
    if "m \<in> set (applyCh rf')" "CommandValid m" "log_entry rf' (CommandIndex m) = Some e" for m e
  proof (cases "m \<in> set (applyCh rf)")
    case True
    have "lastIndexInSnapshot rf' \<le> CommandIndex m" using that(3) by (auto simp: log_entry_def split: if_splits)
    then have "log_entry rf (CommandIndex m) = Some e"
      using adv delivered_le [OF del True that(2)] that(3) by (simp add: advances_def)
    then show ?thesis using del True that(2) by (auto simp: delivered_def agrees_def)
  next
    case False
    then show ?thesis using that adv log_entry_committed_msg by (auto simp: advances_def)
  qed
  then show ?thesis
    using adv del chain_mono [OF ch ci] segments_extend [OF ch ci]
    by (auto simp: delivered_def advances_def agrees_def)
qed

lemma advances_count: "advances rf rf' \<Longrightarrow> snapshot_count (applyCh rf') = snapshot_count (applyCh rf)"
  by (simp add: advances_def)

text \<open>The invariant is kept and messages are only added.\<close>

definition serves :: "(int \<times> int) list \<Rightarrow> 'c Raft \<Rightarrow> 'c Raft \<Rightarrow> bool" where
  "serves hist rf rf' \<longleftrightarrow> delivered hist rf' \<and> snapshot_count (applyCh rf') = snapshot_count (applyCh rf) \<and>
     (\<exists>ms. applyCh rf' = applyCh rf @ ms)"

definition grows :: "'c node \<times> 'c installing \<Rightarrow> 'c node \<times> 'c installing \<Rightarrow> bool" where
  "grows x x' \<longleftrightarrow> peer_inv x' \<and> (\<exists>ms. applyCh (raft (fst x')) = applyCh (raft (fst x)) @ ms)"

lemma serves_grows: "peer_inv (s, ins) \<Longrightarrow> serves (in_history ins) (raft s) (raft s') \<Longrightarrow> grows (s, ins) (s', ins)"
  by (simp add: peer_inv_def serves_def grows_def)

text \<open>The contract of an operation of a peer, as a relation between the states before and after it.\<close>

locale service_promise =
  fixes op :: "'c Raft \<Rightarrow> 'c Raft \<Rightarrow> bool"
  assumes keeps: "raft_wf rf \<Longrightarrow> op rf rf' \<Longrightarrow> advances rf rf'"
begin

lemma op_invariant: "delivered hist rf \<Longrightarrow> op rf rf' \<Longrightarrow> serves hist rf rf'"
  using keeps advances_delivered advances_count unfolding serves_def by (metis advances_def delivered_def)

lemma op_grows: "peer_inv (s, ins) \<Longrightarrow> op (raft s) (raft s') \<Longrightarrow> grows (s, ins) (s', ins)"
  using op_invariant serves_grows [of s ins s'] by (simp add: peer_inv_def)

lemma ops_invariant: "op\<^sup>*\<^sup>* rf rf' \<Longrightarrow> delivered hist rf \<Longrightarrow> serves hist rf rf'"
proof (induction rule: rtranclp_induct)
  case (step y z)
  then show ?case using op_invariant [of hist y z] by (auto simp: serves_def)
qed (simp add: serves_def)

end

subsection \<open>Every operation keeps it\<close>

lemma advances_frame:
  assumes "raft_wf rf" "log rf' = log rf" "commitIndex rf' = commitIndex rf" "applyCh rf' = applyCh rf"
    "lastIndexInSnapshot rf' = lastIndexInSnapshot rf"
  shows "advances rf rf'"
  using assms by (simp add: advances_def raft_wf_def getLastLogIndex_def log_entry_def)

lemma candidate_step_advances:
  "raft_wf rf \<Longrightarrow> candidate_step maj (rf, g) e = ((rf', g'), r) \<Longrightarrow> advances rf rf'"
  by (cases e) (auto simp: Let_def split: if_splits intro!: advances_frame)

lemma LeaderProcess_start_advances:
  "raft_wf rf \<Longrightarrow> LeaderProcess_start rf = Inr (rf', v) \<Longrightarrow> advances rf rf'"
  by (auto simp: LeaderProcess_start_def Let_def rbind_Inr_conv split: if_splits intro!: advances_frame)

lemma leader_step_advances:
  assumes "raft_wf rf" "leader_step rf v e = Inr (rf', v', sent, r)"
  shows "advances rf rf'"
proof (cases e)
  case (LE_Distribute snaps)
  then show ?thesis
    using assms by (auto simp: rbind_Inr_conv split: if_splits dest!: distribute_same_log intro: same_log_advances)
qed (use assms in \<open>auto simp: Let_def split: if_splits intro!: advances_frame\<close>)

lemma follower_step_advances: "raft_wf rf \<Longrightarrow> follower_step rf e = Inr (rf', t) \<Longrightarrow> advances rf rf'"
  by (cases e) (auto split: if_splits intro!: advances_frame)

lemma advances_frame_trans:
  assumes "advances rf1 rf2" "log rf3 = log rf2" "commitIndex rf3 = commitIndex rf2" "applyCh rf3 = applyCh rf2"
    "lastIndexInSnapshot rf3 = lastIndexInSnapshot rf2"
  shows "advances rf1 rf3"
proof -
  have "log_entry rf3 n = log_entry rf2 n" "committed_msgs rf3 a b = committed_msgs rf2 a b" "raft_wf rf3 = raft_wf rf2"
    for n a b
    using assms(2-5) by (simp_all add: raft_wf_def getLastLogIndex_def log_entry_def committed_msgs_def)
  then show ?thesis using assms by (simp add: advances_def)
qed

lemma LeaderProcess_start_frame:
  "LeaderProcess_start rf = Inr (rf', v) \<Longrightarrow> log rf' = log rf \<and> commitIndex rf' = commitIndex rf \<and>
     applyCh rf' = applyCh rf \<and> lastIndexInSnapshot rf' = lastIndexInSnapshot rf"
  by (auto simp: LeaderProcess_start_def Let_def rbind_Inr_conv split: if_splits)

lemma after_candidate_frame:
  "after_candidate rf g r = Inr s \<Longrightarrow> log (raft s) = log rf \<and> commitIndex (raft s) = commitIndex rf \<and>
     applyCh (raft s) = applyCh rf \<and> lastIndexInSnapshot (raft s) = lastIndexInSnapshot rf"
  by (cases "(rf, g, r)" rule: after_candidate.cases)
    (auto simp: rbind_Inr_conv split: if_splits dest!: LeaderProcess_start_frame)

lemma mainProcess_turn_advances:
  assumes wf: "raft_wf (raft s)" and t: "mainProcess_turn s e = Inr s'"
  shows "advances (raft s) (raft s')"
proof -
  obtain rf r where s: "s = \<lparr>raft = rf, role = r\<rparr>" by (cases s)
  have wf: "raft_wf rf" using wf by (simp add: s)
  show ?thesis
  proof (cases r)
    case (R_Candidate g)
    then obtain ce where e: "e = ME_Candidate ce" using t by (auto simp: s split: main_event.splits)
    obtain rf1 g1 b where c: "candidate_step (majority (peers rf)) (rf, g) ce = ((rf1, g1), b)"
      by (metis surj_pair)
    have "after_candidate rf1 g1 b = Inr s'" using t by (simp add: s R_Candidate e c)
    with candidate_step_advances [OF wf c] show ?thesis
      by (auto simp: s dest!: after_candidate_frame intro: advances_frame_trans)
  next
    case (R_Leader v)
    then show ?thesis
      using t leader_step_advances [OF wf]
      by (auto simp: s rbind_Inr_conv after_leader_def split: main_event.splits option.splits)
  next
    case R_Follower
    then show ?thesis
      using t follower_step_advances [OF wf] by (auto simp: s rbind_Inr_conv split: main_event.splits)
  qed (use t wf in
       \<open>auto simp: s rbind_Inr_conv CandidateProcess_start_def split: main_event.splits if_splits intro!: advances_frame\<close>)
qed

lemma TakeSnapshots_advances:
  assumes wf: "raft_wf rf" and t: "TakeSnapshots rf seq rsm index = Inr rf'" and c: "index - 1 \<le> commitIndex rf"
  shows "advances rf rf'"
proof (cases "index - 1 < 1 \<or> index - 1 \<le> lastIndexInSnapshot rf")
  case True
  then show ?thesis using t TakeSnapshots_skip [OF True] advances_refl [OF wf] by simp
next
  case False
  then have lt: "lastIndexInSnapshot rf < index - 1" "index - 1 \<le> getLastLogIndex rf"
    using c raft_wfD(4) [OF wf] by auto
  have rf': "rf' = snapshot_taken rf seq rsm (index - 1)" using t TakeSnapshots_eq [OF wf lt] by simp
  have "lastIndexInSnapshot rf' = index - 1" "applyCh rf' = applyCh rf"
    by (simp_all add: rf' snapshot_taken_def Let_def)
  then show ?thesis
    using snapshot_taken_wf [OF wf lt(1) c] by (simp add: advances_def rf')
qed

interpretation votes: service_promise "\<lambda>rf rf'. \<exists>args reply. RequestVote rf args = Inr (rf', reply)"
proof
  fix rf rf' :: "'a Raft"
  assume wf: "raft_wf rf" and "\<exists>args reply. RequestVote rf args = Inr (rf', reply)"
  then obtain args reply where "vote_effect rf args rf' reply"
    using RequestVote_effect raft_wfD(1) by blast
  then show "advances rf rf'" by (intro advances_frame wf) (auto simp: vote_effect_def)
qed

interpretation appends: service_promise "\<lambda>rf rf'. \<exists>args reply. AppendEntry rf args = Inr (rf', reply)"
proof
  fix rf rf' :: "'a Raft"
  assume "raft_wf rf" and "\<exists>args reply. AppendEntry rf args = Inr (rf', reply)"
  then show "advances rf rf'" using AppendEntry_safe_lemma unfolding advances_def by blast
qed

interpretation starts: service_promise "\<lambda>rf rf'. \<exists>c index t ok. Start rf c = Inr (rf', index, t, ok)"
  by unfold_locales (auto dest: Start_advances(1))

interpretation snapshots: service_promise
  "\<lambda>rf rf'. \<exists>seq rsm index. TakeSnapshots rf seq rsm index = Inr rf' \<and> index - 1 \<le> commitIndex rf"
  by unfold_locales (auto dest: TakeSnapshots_advances)

interpretation kills: service_promise "\<lambda>rf rf'. rf' = Kill rf"
  by unfold_locales (auto simp: Kill_def intro!: advances_frame)

interpretation turns: service_promise "\<lambda>rf rf'. \<exists>s s' e. mainProcess_turn s e = Inr s' \<and> rf = raft s \<and> rf' = raft s'"
  by unfold_locales (auto intro: mainProcess_turn_advances simp del: mainProcess_turn.simps)

interpretation answers: service_promise
  "\<lambda>rf rf'. \<exists>v ind prev aet args reply snap n. leader_reply rf v ind prev aet args reply snap = Inr n \<and> rf' = next_raft n"
  by unfold_locales (auto dest: leader_reply_advances)

interpretation notifications: service_promise "\<lambda>rf rf'. notify 2 rf = Inr rf'"
  by unfold_locales (auto dest: notify_same_log intro: same_log_advances)

subsection \<open>The invariant of a peer\<close>

lemma install_delivered:
  assumes del: "delivered hist rf" and i: "readSnapshot_locked rf data = Inr (rf', Some m)"
    and a: "commitIndex rf < lastIndexInSnapshot rf'"
  shows "delivered (hist @ [(commitIndex rf, lastIndexInSnapshot rf')]) rf'" "applyCh rf' = applyCh rf" "\<not> CommandValid m"
proof -
  obtain seq rsm k t where rf': "rf' = rf\<lparr>lastTermInSnapshot := t, log := [\<lparr>Command = None, Term = t\<rparr>],
      lastIndexInSnapshot := k, commitIndex := k\<rparr>" and m: "m = snapshot_msg seq rsm"
    using i by (auto simp: readSnapshot_locked_def rbind_Inr_conv split: if_splits)
  have k: "commitIndex rf < k" using a by (simp add: rf')
  have "0 \<le> commitIndex rf" using del by (auto simp: delivered_def raft_wf_def)
  then have "raft_wf rf'" using k by (simp add: rf' raft_wf_def getLastLogIndex_def)
  moreover have "CommandIndex x < k" if "x \<in> set (applyCh rf)" "CommandValid x" for x
    using delivered_le [OF del that] k by simp
  then have "agrees rf'" unfolding agrees_def by (fastforce simp: rf' log_entry_def)
  ultimately show "delivered (hist @ [(commitIndex rf, lastIndexInSnapshot rf')]) rf'"
    using del chain_snoc k by (auto simp: delivered_def rf' segments_snoc)
  show "applyCh rf' = applyCh rf" "\<not> CommandValid m" by (simp_all add: rf' m snapshot_msg_def)
qed

lemma send_delivered:
  assumes "delivered hist rf" "\<not> CommandValid m"
  shows "delivered hist (readSnapshot_send rf data m)"
proof -
  let ?r = "readSnapshot_send rf data m"
  have "log_entry ?r k = log_entry rf k" "raft_wf ?r = raft_wf rf" "commitIndex ?r = commitIndex rf" "applyCh ?r = applyCh rf @ [m]"
    for k
    by (simp_all add: readSnapshot_send_def raft_wf_def getLastLogIndex_def log_entry_def)
  then show ?thesis using assms by (auto simp: delivered_def agrees_def cmd_indices_def)
qed

lemma install_invariant:
  assumes inv: "peer_inv (s, ins)" and i: "readSnapshot_locked (raft s) data = Inr (rf', Some m)"
    and a: "commitIndex (raft s) < lastIndexInSnapshot rf'"
  shows "grows (s, ins) (s\<lparr>raft := rf'\<rparr>, ins\<lparr>in_pending := in_pending ins @ [(m, data)],
       in_history := in_history ins @ [(commitIndex (raft s), lastIndexInSnapshot rf')]\<rparr>)"
  using inv install_delivered [OF _ i a, of "in_history ins"] by (auto simp: peer_inv_def grows_def)

lemma send_invariant:
  assumes inv: "peer_inv (s, ins)" and p: "(m, data) \<in> set (in_pending ins)"
  shows "grows (s, ins) (s\<lparr>raft := readSnapshot_send (raft s) data m\<rparr>, ins\<lparr>in_pending := remove1 (m, data) (in_pending ins)\<rparr>)"
proof -
  have m: "\<not> CommandValid m" using inv p by (auto simp: peer_inv_def)
  have len: "Suc (length (remove1 (m, data) (in_pending ins))) = length (in_pending ins)"
    using p length_pos_if_in_set [OF p] by (simp add: length_remove1)
  have app: "applyCh (readSnapshot_send (raft s) data m) = applyCh (raft s) @ [m]" by (simp add: readSnapshot_send_def)
  show ?thesis
    using inv m len send_delivered [OF _ m, of "in_history ins" "raft s" data] set_remove1_subset [of "(m, data)" "in_pending ins"]
    by (auto simp: peer_inv_def grows_def app snapshot_count_def)
qed

lemma raft_step_grows:
  assumes "raft_step x x'" "peer_inv x" "ahead (in_history (snd x'))"
  shows "grows x x'"
  using assms
proof (cases rule: raft_step.cases)
  case (vote s va rf' vr ins)
  then show ?thesis using assms(2) votes.op_grows [of s ins "s\<lparr>raft := rf'\<rparr>"] by (simp, blast)
next
  case (append s aa rf' ar ins)
  then show ?thesis using assms(2) appends.op_grows [of s ins "s\<lparr>raft := rf'\<rparr>"] by (simp, blast)
next
  case (install s data rf' m ins)
  then show ?thesis using install_invariant [of s ins data rf' m] assms(2,3) by (simp add: ahead_def)
next
  case (send m data ins s)
  then show ?thesis using send_invariant [of s ins m data] assms(2) by simp
next
  case (main s e s' ins)
  then show ?thesis using assms(2) turns.op_grows [of s ins s'] by blast
next
  case (answer s v ind prev aet args reply snap n ins)
  then show ?thesis using assms(2) answers.op_grows [of s ins "s\<lparr>raft := next_raft n, role := R_Leader (next_vars n)\<rparr>"] by (simp, blast)
next
  case (late_answer s v ind prev aet args reply snap n ins)
  then show ?thesis using assms(2) answers.op_grows [of s ins "s\<lparr>raft := next_raft n\<rparr>"] by (simp, blast)
next
  case (stale_sender s rf' ins)
  then show ?thesis using assms(2) notifications.op_grows [of s ins "s\<lparr>raft := rf'\<rparr>"] by simp
qed

text \<open>The index of a delivered command is committed.\<close>

lemma cmd_index_committed: "delivered hist rf \<Longrightarrow> index \<in> set (cmd_indices (applyCh rf)) \<Longrightarrow> index \<le> commitIndex rf"
  using delivered_le by (fastforce simp: cmd_indices_def)

lemma node_step_grows:
  assumes "node_step x x'" "peer_inv x" "ahead (in_history (snd x'))"
  shows "grows x x'"
  using assms
proof (cases rule: node_step.cases)
  case own
  then show ?thesis using raft_step_grows assms(2,3) by blast
next
  case (start s c rf' index t ok ins)
  then show ?thesis using assms(2) starts.op_grows [of s ins "s\<lparr>raft := rf'\<rparr>"] by (simp, blast)
next
  case (snapshot s seq rsm index rf' ins)
  then have "index - 1 \<le> commitIndex (raft s)" using cmd_index_committed assms(2) by (force simp: peer_inv_def)
  then show ?thesis using snapshot assms(2) snapshots.op_grows [of s ins "s\<lparr>raft := rf'\<rparr>"] by (simp, blast)
next
  case (kill s ins)
  then show ?thesis using assms(2) kills.op_grows [of s ins "s\<lparr>raft := Kill (raft s)\<rparr>"] by simp
qed

lemma Make_messages:
  assumes m: "Make n i ps = Inr rf"
  shows "(applyCh rf = [] \<and> lastIndexInSnapshot rf = 0) \<or> (\<exists>seq rsm. applyCh rf = [snapshot_msg seq rsm] \<and> 0 < lastIndexInSnapshot rf)"
proof -
  let ?z = "zero_raft\<lparr>peers := n, persister := ps, me := i, leaderNum := -1, votedFor := -1, currentTerm := 0\<rparr>"
  from m obtain rf1 rf2 where r: "readSnapshotPersist ?z (ReadSnapshot ps) = Inr rf1"
      "readPersist rf1 (ReadRaftState (persister rf1)) = Inr rf2"
    and rf: "applyCh rf = applyCh rf2" "lastIndexInSnapshot rf = lastIndexInSnapshot rf2"
    by (auto simp: Make_def rbind_Inr_conv Let_def split: if_splits)
  have "(applyCh rf1 = [] \<and> lastIndexInSnapshot rf1 = 0) \<or>
      (\<exists>seq rsm. applyCh rf1 = [snapshot_msg seq rsm] \<and> 0 < lastIndexInSnapshot rf1)"
    using r(1) by (auto simp: readSnapshotPersist_eq rbind_Inr_conv Let_def zero_raft_def split: if_splits) blast+
  moreover have "applyCh rf2 = applyCh rf1" "lastIndexInSnapshot rf2 = lastIndexInSnapshot rf1"
    using r(2) by (auto simp: readPersist_def split: if_splits option.splits)
  ultimately show ?thesis by (auto simp: rf)
qed

lemma Make_peer_inv:
  assumes "Make n i ps = Inr rf"
  shows "peer_inv (\<lparr>raft = rf, role = r\<rparr>, made_installing rf)"
  using Make_messages [OF assms] Make_wf(1,5) [OF assms]
  by (auto simp: peer_inv_def made_installing_def delivered_def cmd_indices_def snapshot_msg_def snapshot_count_def agrees_def)

lemma raft_step_history: "raft_step x x' \<Longrightarrow> ahead (in_history (snd x')) \<Longrightarrow> ahead (in_history (snd x))"
  by (cases rule: raft_step.cases) (auto simp: ahead_def)

lemma node_step_history: "node_step x x' \<Longrightarrow> ahead (in_history (snd x')) \<Longrightarrow> ahead (in_history (snd x))"
  by (cases rule: node_step.cases) (auto dest: raft_step_history)

lemma reachable_invariant: "reachable n i ps x \<Longrightarrow> ahead (in_history (snd x)) \<Longrightarrow> peer_inv x"
proof (induction rule: reachable.induct)
  case (made rf)
  then show ?case using Make_peer_inv by auto
next
  case (step s s')
  then show ?case using node_step_grows [of s s'] node_step_history [of s s'] by (simp add: grows_def)
qed


lemma reachable_append:
  "reachable n i ps (\<lparr>raft = rf, role = r\<rparr>, ins) \<Longrightarrow> AppendEntry rf args = Inr (rf', reply) \<Longrightarrow>
     reachable n i ps (\<lparr>raft = rf', role = r\<rparr>, ins)"
  using reachable.step node_step.own raft_step.append [of "\<lparr>raft = rf, role = r\<rparr>" args rf' reply] by fastforce

lemma reachable_install:
  assumes "reachable n i ps (\<lparr>raft = rf, role = r\<rparr>, ins)" "readSnapshot_locked rf data = Inr (rf', Some m)"
  shows "reachable n i ps (\<lparr>raft = rf', role = r\<rparr>, ins\<lparr>in_pending := in_pending ins @ [(m, data)],
       in_history := in_history ins @ [(commitIndex rf, lastIndexInSnapshot rf')]\<rparr>)"
  using reachable.step [OF assms(1) node_step.own [OF raft_step.install]] assms(2) by fastforce


end
