(* ===== verification/Dedup.thy ===== *)
theory Dedup
  imports Go_Prelude
begin

unbundle bit_operations_syntax

section \<open>Requests that are executed at most once\<close>

text \<open>
  The contract that the key/value server and the shard master share: a client numbers its
  requests, a server remembers the highest number it has executed per client and skips what is not
  above it. The locale \<open>at_most_once\<close> states what a server's apply function promises; its lemmas
  are what clients and the snapshot mechanism rely on. The servers interpret it in their own theories.
\<close>

text \<open>The requests of a list that are executed, given the numbers seen before: those that write
  and whose number is above every earlier one of the same client.\<close>

fun executed :: "('op \<Rightarrow> bool) \<Rightarrow> ('op \<Rightarrow> 'c) \<Rightarrow> ('op \<Rightarrow> 'n :: linorder) \<Rightarrow> ('c \<Rightarrow> 'n) \<Rightarrow> 'op list \<Rightarrow> 'op list" where
  "executed writes client seqno seen [] = []"
| "executed writes client seqno seen (op # ops) =
     (if writes op \<and> seen (client op) < seqno op
      then op # executed writes client seqno (seen(client op := seqno op)) ops
      else executed writes client seqno seen ops)"

text \<open>A client sends its next request only after the answer to the one before, so that a number
  that arrives for the first time is above all that arrived before it from the same client, and above
  the number \<open>low\<close> a server starts from.\<close>

fun in_order ::
  "('op \<Rightarrow> bool) \<Rightarrow> ('op \<Rightarrow> 'c) \<Rightarrow> ('op \<Rightarrow> 'n :: linorder) \<Rightarrow> 'n \<Rightarrow> 'op list \<Rightarrow> 'op list \<Rightarrow> bool" where
  "in_order writes client seqno low earlier [] = True"
| "in_order writes client seqno low earlier (op # ops) =
     ((writes op \<and> \<not> (\<exists>y \<in> set earlier. writes y \<and> client y = client op \<and> seqno y = seqno op) \<longrightarrow>
         low < seqno op \<and> (\<forall>y \<in> set earlier. writes y \<and> client y = client op \<longrightarrow> seqno y < seqno op)) \<and>
      in_order writes client seqno low (op # earlier) ops)"

lemma executed_subset: "set (executed writes client seqno seen ops) \<subseteq> {op \<in> set ops. writes op}"
  by (induction ops arbitrary: seen) auto

lemma executed_above: "op \<in> set (executed writes client seqno seen ops) \<Longrightarrow> seen (client op) < seqno op"
proof (induction ops arbitrary: seen)
  case (Cons a ops)
  then show ?case by (fastforce split: if_splits)
qed simp

text \<open>No request number of a client is executed twice.\<close>

lemma executed_distinct: "distinct (map (\<lambda>op. (client op, seqno op)) (executed writes client seqno seen ops))"
proof (induction ops arbitrary: seen)
  case (Cons a ops)
  have "(client a, seqno a) \<notin> (\<lambda>op. (client op, seqno op)) ` set (executed writes client seqno (seen(client a := seqno a)) ops)"
    using executed_above [of _ writes client seqno "seen(client a := seqno a)" ops] by fastforce
  then show ?case using Cons by simp
qed simp

lemma executed_cong:
  "(\<And>op. op \<in> set ops \<Longrightarrow> writes op \<Longrightarrow> seen (client op) = seen' (client op)) \<Longrightarrow>
     executed writes client seqno seen ops = executed writes client seqno seen' ops"
proof (induction ops arbitrary: seen seen')
  case (Cons a ops)
  have "executed writes client seqno (seen(client a := seqno a)) ops =
      executed writes client seqno (seen'(client a := seqno a)) ops"
    by (rule Cons.IH) (use Cons.prems in auto)
  moreover have "executed writes client seqno seen ops = executed writes client seqno seen' ops"
    by (rule Cons.IH) (use Cons.prems in auto)
  moreover have "writes a \<Longrightarrow> seen (client a) = seen' (client a)" using Cons.prems by simp
  ultimately show ?case by auto
qed simp

text \<open>If the clients keep their order, every request number that arrives is executed.\<close>

lemma executed_all_from:
  assumes "in_order writes client seqno low earlier ops"
    and "\<And>c n. low < n \<Longrightarrow> (\<And>y. y \<in> set earlier \<Longrightarrow> writes y \<Longrightarrow> client y = c \<Longrightarrow> seqno y < n) \<Longrightarrow> seen c < n"
    and "op \<in> set ops" "writes op"
  shows "(\<exists>y \<in> set earlier. writes y \<and> client y = client op \<and> seqno y = seqno op) \<or>
     (\<exists>y \<in> set (executed writes client seqno seen ops). client y = client op \<and> seqno y = seqno op)"
  using assms
proof (induction ops arbitrary: earlier seen)
  case (Cons a ops)
  let ?new = "writes a \<and> seen (client a) < seqno a"
  let ?seen = "if ?new then seen(client a := seqno a) else seen"
  have inv: "?seen c < n" if "low < n" "\<And>y. y \<in> set (a # earlier) \<Longrightarrow> writes y \<Longrightarrow> client y = c \<Longrightarrow> seqno y < n" for c n
    using Cons.prems(2) [of n c] that by auto
  have first: "?new" if "writes a" "\<not> (\<exists>y \<in> set earlier. writes y \<and> client y = client a \<and> seqno y = seqno a)"
    using Cons.prems(1) Cons.prems(2) [of "seqno a" "client a"] that by auto
  show ?case
  proof (cases "op \<in> set ops")
    case True
    have "(\<exists>y \<in> set (a # earlier). writes y \<and> client y = client op \<and> seqno y = seqno op) \<or>
        (\<exists>y \<in> set (executed writes client seqno ?seen ops). client y = client op \<and> seqno y = seqno op)"
      by (rule Cons.IH) (use Cons.prems(1,4) inv True in auto)
    then show ?thesis using first by auto
  next
    case False
    then show ?thesis using Cons.prems(3,4) first by auto
  qed
qed simp

lemma executed_all:
  assumes "in_order writes client seqno low [] ops" "op \<in> set ops" "writes op"
  shows "\<exists>y \<in> set (executed writes client seqno (\<lambda>_. low) ops). client y = client op \<and> seqno y = seqno op"
  using executed_all_from [OF assms(1), of "\<lambda>_. low" op] assms(2,3) by simp

subsection \<open>The contract\<close>

locale at_most_once =
  fixes app :: "'s \<Rightarrow> 'op \<Rightarrow> 's"
    and inv :: "'s \<Rightarrow> bool"
    and seen :: "'s \<Rightarrow> 'c \<Rightarrow> 'n :: linorder"
    and writes :: "'op \<Rightarrow> bool"
    and client :: "'op \<Rightarrow> 'c"
    and seqno :: "'op \<Rightarrow> 'n"
  assumes keeps: "inv s \<Longrightarrow> inv (app s op)"
    and reads: "inv s \<Longrightarrow> \<not> writes op \<Longrightarrow> app s op = s"
    and skips: "inv s \<Longrightarrow> writes op \<Longrightarrow> seqno op \<le> seen s (client op) \<Longrightarrow> app s op = s"
    and marks: "inv s \<Longrightarrow> writes op \<Longrightarrow> seen s (client op) < seqno op \<Longrightarrow>
      seen (app s op) = (seen s)(client op := seqno op)"
begin

lemma inv_foldl: "inv s \<Longrightarrow> inv (foldl app s ops)"
  by (induction ops arbitrary: s) (simp_all add: keeps)

lemma seen_mono: "inv s \<Longrightarrow> seen s c \<le> seen (foldl app s ops) c"
proof (induction ops arbitrary: s)
  case (Cons op ops)
  have "seen s c \<le> seen (app s op) c"
    using Cons.prems reads [of s op] skips [of s op] marks [of s op]
    by (cases "writes op"; cases "seqno op \<le> seen s (client op)") auto
  then show ?case using Cons.IH [OF keeps [OF Cons.prems, of op]] by simp
qed simp

lemma seen_covers: "inv s \<Longrightarrow> op \<in> set ops \<Longrightarrow> writes op \<Longrightarrow> seqno op \<le> seen (foldl app s ops) (client op)"
proof (induction ops arbitrary: s)
  case (Cons a ops)
  have "writes op \<Longrightarrow> seqno op \<le> seen (app s op) (client op)"
    using Cons.prems(1) skips [of s op] marks [of s op] by (cases "seqno op \<le> seen s (client op)") auto
  then show ?case
    using Cons.prems Cons.IH [OF keeps [OF Cons.prems(1), of a]] seen_mono [OF keeps [OF Cons.prems(1), of a], of "client op" ops]
    by fastforce
qed simp

lemma absorbs:
  "inv s \<Longrightarrow> (\<And>op. op \<in> set ops \<Longrightarrow> writes op \<Longrightarrow> seqno op \<le> seen s (client op)) \<Longrightarrow> foldl app s ops = s"
proof (induction ops)
  case (Cons op ops)
  then have "app s op = s" using reads skips by (cases "writes op") auto
  then show ?case using Cons by simp
qed simp

text \<open>Running requests again that a state already contains changes nothing.\<close>

lemma replay: "inv s \<Longrightarrow> set ops' \<subseteq> set ops \<Longrightarrow> foldl app (foldl app s ops) ops' = foldl app s ops"
  by (rule absorbs) (use seen_covers inv_foldl in blast)+

text \<open>A server that sees the requests with all their repetitions ends where one ends that sees every
  executed request once.\<close>

lemma once: "inv s \<Longrightarrow> foldl app s ops = foldl app s (executed writes client seqno (seen s) ops)"
proof (induction ops arbitrary: s)
  case (Cons op ops)
  show ?case
  proof (cases "writes op \<and> seen s (client op) < seqno op")
    case True
    then have m: "seen (app s op) = (seen s)(client op := seqno op)" using marks Cons.prems by blast
    show ?thesis using Cons.IH [OF keeps [OF Cons.prems, of op]] True unfolding m by (simp add: fun_upd_def)
  next
    case False
    then have "app s op = s" using reads skips Cons.prems by (cases "writes op") auto
    then show ?thesis using Cons.IH [OF Cons.prems] False by auto
  qed
qed simp

end

subsection \<open>Request identifiers\<close>

text \<open>\<open>int64(ClientID)<<32 + int64(ProposalID)\<close>.\<close>

definition commID :: "int32 \<Rightarrow> int \<Rightarrow> int64" where
  "commID cid pid = push_bit 32 (scast cid) + word_of_int pid"

text \<open>Numbers below \<open>2 ^ 32\<close> keep the identifiers of different requests apart.\<close>

lemma bit_commID:
  assumes "0 \<le> pid" "pid < 2 ^ 32"
  shows "bit (commID cid pid) n \<longleftrightarrow> (if n < 32 then bit pid n else n < 64 \<and> bit cid (n - 32))"
proof -
  have pid: "\<not> bit pid n" if "32 \<le> n" for n
    using assms that by (metis bit_take_bit_iff not_le take_bit_int_eq_self)
  have "commID cid pid = push_bit 32 (scast cid) OR word_of_int pid"
    unfolding commID_def
    by (rule disjunctive_add) (use pid in \<open>auto simp: bit_push_bit_iff bit_word_of_int_iff\<close>)
  then show ?thesis
    using pid [of n] by (auto simp: bit_or_iff bit_push_bit_iff bit_word_of_int_iff bit_word_scast_iff)
qed

lemma commID_inj:
  assumes "0 \<le> pid" "pid < 2 ^ 32" "0 \<le> pid'" "pid' < 2 ^ 32" "commID cid pid = commID cid' pid'"
  shows "cid = cid' \<and> pid = pid'"
proof
  have b: "(if n < 32 then bit pid n else n < 64 \<and> bit cid (n - 32)) = (if n < 32 then bit pid' n else n < 64 \<and> bit cid' (n - 32))" for n
    using bit_commID [OF assms(1,2), of cid n] bit_commID [OF assms(3,4), of cid' n] assms(5) by metis
  show "cid = cid'"
  proof (rule bit_word_eqI)
    fix n
    assume "n < LENGTH(32)"
    then show "bit cid n \<longleftrightarrow> bit cid' n" using b [of "n + 32"] by simp
  qed
  have "bit pid n \<longleftrightarrow> bit pid' n" if "n < 32" for n using b [of n] that by simp
  then have "take_bit 32 pid = take_bit 32 pid'" by (intro bit_eqI) (auto simp: bit_take_bit_iff)
  then show "pid = pid'" using assms(1-4) by (simp add: take_bit_int_eq_self)
qed

end
