(* ===== verification/KV_Server.thy ===== *)
theory KV_Server
  imports Raft_Node Dedup
begin


section \<open>The replicated key/value server\<close>

text \<open>
  \<^verbatim>\<open>src/kvraft/server.go\<close> and \<^verbatim>\<open>src/kvraft/common.go\<close>. The server turns a request into a Raft
  command and waits until its main loop has taken that command from \<open>applyCh\<close>; a handler is
  therefore two definitions, the part up to \<open>Start\<close> and one turn of its waiting loop. The field
  \<open>kv_rf\<close> is the Raft peer with its main goroutine, \<open>received\<close> counts the messages that the server
  has taken from the (unbuffered) channel.
\<close>

datatype OpType = GetType | PutType | AppendType

record Op =
  ClientID :: int32
  ProposalID :: int
  Optype :: OpType
  Key :: string
  OpValue :: string

record GetArgs =
  GA_ClientID :: int32
  GA_CommSeq :: int
  GA_Key :: string

record GetReply =
  GR_WrongLeader :: bool
  GR_Err :: string
  GR_Value :: string

record PutAppendArgs =
  PA_Key :: string
  PA_Value :: string
  PA_Op :: string
  PA_ClientID :: int32
  PA_CommSeq :: int

record PutAppendReply =
  PR_WrongLeader :: bool
  PR_Err :: string

record KVServer =
  kv_me :: int
  kv_rf :: "Op node"
  received :: nat
  maxraftstate :: int
  rsm :: "string \<rightharpoonup> string"
  curCommitIndex :: int
  kv_seq :: "int32 \<rightharpoonup> int"
  resultMap :: "int64 \<rightharpoonup> string"

subsection \<open>The main loop\<close>

text \<open>The put and append cases, on the two maps they read and change.\<close>

definition apply_write ::
  "(string \<rightharpoonup> string) \<times> (int32 \<rightharpoonup> int) \<Rightarrow> Op \<Rightarrow> (string \<rightharpoonup> string) \<times> (int32 \<rightharpoonup> int)" where
  "apply_write = (\<lambda>(m, seq) commOp.
     (case Optype commOp of
        GetType \<Rightarrow> (m, seq)
      | PutType \<Rightarrow>
          if ProposalID commOp \<le> mget 0 seq (ClientID commOp) then (m, seq)
          else (m(Key commOp \<mapsto> OpValue commOp), seq(ClientID commOp \<mapsto> ProposalID commOp))
      | AppendType \<Rightarrow>
          if ProposalID commOp \<le> mget 0 seq (ClientID commOp) then (m, seq)
          else (case m (Key commOp) of
                  Some v \<Rightarrow> m(Key commOp \<mapsto> v @ OpValue commOp)
                | None \<Rightarrow> m(Key commOp \<mapsto> OpValue commOp),
                seq(ClientID commOp \<mapsto> ProposalID commOp))))"

definition apply_command :: "KVServer \<Rightarrow> Op \<Rightarrow> KVServer" where
  "apply_command kv commOp =
     (case Optype commOp of
        GetType \<Rightarrow> kv\<lparr>resultMap := (resultMap kv)
          (commID (ClientID commOp) (ProposalID commOp) \<mapsto> mget [] (rsm kv) (Key commOp))\<rparr>
      | _ \<Rightarrow> (case apply_write (rsm kv, kv_seq kv) commOp of (m, seq) \<Rightarrow> kv\<lparr>rsm := m, kv_seq := seq\<rparr>))"

text \<open>One message. The result tells whether a snapshot goroutine is started, and for which index
  (\<open>snapshottingFlag\<close> is set and cleared around the \<open>go\<close> statement, so the test always sees it
  cleared). \<open>nbytes\<close> is the size of a gob stream.\<close>

definition apply_msg :: "(Op gob list \<Rightarrow> int) \<Rightarrow> KVServer \<Rightarrow> Op ApplyMsg \<Rightarrow> (KVServer \<times> int option) result" where
  "apply_msg nbytes kv applyMsg =
     (if \<not> CommandValid applyMsg
      then Inr (kv\<lparr>kv_seq := ClientMaxRequestSeq applyMsg, rsm := Rsm applyMsg\<rparr>, None)
      else case ApplyCommand applyMsg of
        None \<Rightarrow> Inl (Panicked ''interface conversion: interface is nil, not Op'')
      | Some commOp \<Rightarrow>
          let commIndex = CommandIndex applyMsg;
              kv = apply_command kv commOp;
              kv = (if curCommitIndex kv < commIndex then kv\<lparr>curCommitIndex := commIndex\<rparr> else kv)
          in Inr (kv, if maxraftstate kv \<noteq> -1 \<and> maxraftstate kv < GetRaftStateSize nbytes (raft (kv_rf kv)) + 2
                      then Some commIndex else None))"

text \<open>One turn of the loop: blocked while there is nothing to receive.\<close>

definition kv_mainProcess :: "(Op gob list \<Rightarrow> int) \<Rightarrow> KVServer \<Rightarrow> (KVServer \<times> int option) result" where
  "kv_mainProcess nbytes kv =
     (if received kv < length (applyCh (raft (kv_rf kv)))
      then rbind (apply_msg nbytes kv (applyCh (raft (kv_rf kv)) ! received kv)) (\<lambda>(kv, snap).
             Inr (kv\<lparr>received := Suc (received kv)\<rparr>, snap))
      else Inl Blocked)"

subsection \<open>The handlers\<close>

datatype 'r waiting = Done 'r | Waiting

definition kv_Start :: "KVServer \<Rightarrow> Op \<Rightarrow> (KVServer \<times> int) result" where
  "kv_Start kv comm =
     rbind (Start (raft (kv_rf kv)) comm) (\<lambda>(rf, index, _, _). Inr (kv\<lparr>kv_rf := (kv_rf kv)\<lparr>raft := rf\<rparr>\<rparr>, index))"

definition get_op :: "GetArgs \<Rightarrow> Op" where
  "get_op args = \<lparr>ClientID = GA_ClientID args, ProposalID = GA_CommSeq args, Optype = GetType,
     Key = GA_Key args, OpValue = []\<rparr>"

definition zero_get_reply :: GetReply where
  "zero_get_reply = \<lparr>GR_WrongLeader = False, GR_Err = [], GR_Value = []\<rparr>"

definition Get_begin :: "KVServer \<Rightarrow> GetArgs \<Rightarrow> (KVServer \<times> GetReply waiting) result" where
  "Get_begin kv args =
     (if GetLeaderNum (raft (kv_rf kv)) \<noteq> kv_me kv then Inr (kv, Done (zero_get_reply\<lparr>GR_WrongLeader := True\<rparr>))
      else rbind (kv_Start kv (get_op args)) (\<lambda>(kv, _). Inr (kv, Waiting)))"

definition Get_poll :: "KVServer \<Rightarrow> GetArgs \<Rightarrow> GetReply waiting" where
  "Get_poll kv args =
     (if GetLeaderNum (raft (kv_rf kv)) \<noteq> kv_me kv then Done (zero_get_reply\<lparr>GR_WrongLeader := True\<rparr>)
      else case resultMap kv (commID (GA_ClientID args) (GA_CommSeq args)) of
        Some v \<Rightarrow> Done (zero_get_reply\<lparr>GR_Value := v\<rparr>)
      | None \<Rightarrow> Waiting)"

text \<open>\<open>IsLeader\<close> writes into its first parameter, which is the argument of the call; the second,
  the reply, stays as it is.\<close>

definition IsLeader :: "KVServer \<Rightarrow> GetReply \<Rightarrow> GetReply \<Rightarrow> GetReply \<times> GetReply" where
  "IsLeader kv reply reply2 =
     (reply\<lparr>GR_WrongLeader := (GetLeaderNum (raft (kv_rf kv)) \<noteq> kv_me kv)\<rparr>, reply2)"

definition put_append_op :: "PutAppendArgs \<Rightarrow> Op" where
  "put_append_op args = \<lparr>ClientID = PA_ClientID args, ProposalID = PA_CommSeq args,
     Optype = (if PA_Op args = ''Put'' then PutType else AppendType),
     Key = PA_Key args, OpValue = PA_Value args\<rparr>"

definition zero_pa_reply :: PutAppendReply where
  "zero_pa_reply = \<lparr>PR_WrongLeader = False, PR_Err = []\<rparr>"

definition PutAppend_begin :: "KVServer \<Rightarrow> PutAppendArgs \<Rightarrow> (KVServer \<times> (PutAppendReply + int)) result" where
  "PutAppend_begin kv args =
     (let leader = GetLeaderNum (raft (kv_rf kv));
          kv = (if kv_seq kv (PA_ClientID args) = None
                then kv\<lparr>kv_seq := (kv_seq kv)(PA_ClientID args \<mapsto> 0)\<rparr> else kv)
      in if leader \<noteq> kv_me kv then Inr (kv, Inl (zero_pa_reply\<lparr>PR_WrongLeader := True\<rparr>))
         else rbind (kv_Start kv (put_append_op args)) (\<lambda>(kv, index). Inr (kv, Inr index)))"

definition PutAppend_poll :: "KVServer \<Rightarrow> int \<Rightarrow> PutAppendReply waiting" where
  "PutAppend_poll kv index =
     (if GetLeaderNum (raft (kv_rf kv)) \<noteq> kv_me kv then Done (zero_pa_reply\<lparr>PR_WrongLeader := True\<rparr>)
      else if curCommitIndex kv \<ge> index then Done zero_pa_reply
      else Waiting)"

definition kv_Kill :: "KVServer \<Rightarrow> KVServer" where
  "kv_Kill kv = kv\<lparr>kv_rf := (kv_rf kv)\<lparr>raft := Kill (raft (kv_rf kv))\<rparr>\<rparr>"

text \<open>The messages that \<open>Make\<close> sends while it reads a snapshot wait in \<open>applyCh\<close>.\<close>

definition StartKVServer :: "nat \<Rightarrow> int \<Rightarrow> Op Persister \<Rightarrow> int \<Rightarrow> KVServer result" where
  "StartKVServer servers i ps maxstate =
     rbind (Make servers i ps) (\<lambda>rf.
       Inr \<lparr>kv_me = i, kv_rf = \<lparr>raft = rf, role = R_Main\<rparr>, received = 0, maxraftstate = maxstate,
            rsm = Map.empty, curCommitIndex = 0, kv_seq = Map.empty, resultMap = Map.empty\<rparr>)"

subsection \<open>Exactly once\<close>

abbreviation is_write :: "Op \<Rightarrow> bool" where
  "is_write op \<equiv> Optype op \<noteq> GetType"

interpretation kvs: at_most_once apply_write "\<lambda>_. True" "\<lambda>s c. mget 0 (snd s) c" is_write ClientID ProposalID
  by unfold_locales (auto simp: apply_write_def fun_eq_iff split: OpType.splits prod.splits)

text \<open>The store a client thinks of: puts and appends without any request numbers.\<close>

definition exec_op :: "(string \<rightharpoonup> string) \<Rightarrow> Op \<Rightarrow> (string \<rightharpoonup> string)" where
  "exec_op m op =
     (case Optype op of
        GetType \<Rightarrow> m
      | PutType \<Rightarrow> m(Key op \<mapsto> OpValue op)
      | AppendType \<Rightarrow> m(Key op \<mapsto> mget [] m (Key op) @ OpValue op))"

lemma apply_write_new:
  "is_write op \<Longrightarrow> mget 0 seq (ClientID op) < ProposalID op \<Longrightarrow>
     apply_write (m, seq) op = (exec_op m op, seq(ClientID op \<mapsto> ProposalID op))"
  by (auto simp: apply_write_def exec_op_def mget_def split: OpType.splits option.splits)

lemma apply_write_old:
  "\<not> (is_write op \<and> mget 0 seq (ClientID op) < ProposalID op) \<Longrightarrow> apply_write (m, seq) op = (m, seq)"
  by (auto simp: apply_write_def split: OpType.splits)

lemma rsm_executed:
  "fst (foldl apply_write (m, seq) ops) = foldl exec_op m (executed is_write ClientID ProposalID (\<lambda>c. mget 0 seq c) ops)"
proof (induction ops arbitrary: m seq)
  case (Cons op ops)
  have upd: "mget 0 (seq(ClientID op \<mapsto> ProposalID op)) = (mget 0 seq)(ClientID op := ProposalID op)"
    by (rule ext) simp
  show ?case
  proof (cases "is_write op \<and> mget 0 seq (ClientID op) < ProposalID op")
    case True
    then show ?thesis by (simp add: apply_write_new Cons upd del: mget_upd fun_upd_apply)
  next
    case False
    then show ?thesis using apply_write_old [OF False] Cons by auto
  qed
qed simp

text \<open>C17: the log may hold every request any number of times. If every client has its requests
  arrive in order, the server's map is the one that results from executing puts and appends without
  request numbers, where each request number of a client that occurs in the log is executed exactly
  once.\<close>

theorem kv_exactly_once:
  assumes "in_order is_write ClientID ProposalID 0 [] ops"
  shows "fst (foldl apply_write (Map.empty, Map.empty) ops) =
      foldl exec_op Map.empty (executed is_write ClientID ProposalID (\<lambda>_. 0) ops) \<and>
    distinct (map (\<lambda>op. (ClientID op, ProposalID op)) (executed is_write ClientID ProposalID (\<lambda>_. 0) ops)) \<and>
    (\<lambda>op. (ClientID op, ProposalID op)) ` set (executed is_write ClientID ProposalID (\<lambda>_. 0) ops) =
      (\<lambda>op. (ClientID op, ProposalID op)) ` {op \<in> set ops. is_write op}"
proof -
  let ?ex = "executed is_write ClientID ProposalID (\<lambda>_. 0) ops" and ?id = "\<lambda>op. (ClientID op, ProposalID op)"
  have "?id ` {op \<in> set ops. is_write op} \<subseteq> ?id ` set ?ex"
  proof
    fix x
    assume "x \<in> ?id ` {op \<in> set ops. is_write op}"
    then obtain op where "op \<in> set ops" "is_write op" "x = ?id op" by blast
    then show "x \<in> ?id ` set ?ex" using executed_all [OF assms] by (metis (mono_tags, lifting) image_eqI)
  qed
  moreover have "?id ` set ?ex \<subseteq> ?id ` {op \<in> set ops. is_write op}"
    using executed_subset [of is_write ClientID ProposalID "\<lambda>_. 0" ops] by (rule image_mono)
  ultimately show ?thesis
    using rsm_executed [of Map.empty Map.empty ops] executed_distinct [of ClientID ProposalID is_write "\<lambda>_. 0" ops]
    by simp
qed

definition append_op :: "int32 \<Rightarrow> int \<Rightarrow> string \<Rightarrow> Op" where
  "append_op c n v = \<lparr>ClientID = c, ProposalID = n, Optype = AppendType, Key = ''k'', OpValue = v\<rparr>"

theorem kv_exactly_once_witness:
  "fst (foldl apply_write (Map.empty, Map.empty)
      [append_op 1 1 ''a'', append_op 2 1 ''b'', append_op 1 2 ''c'', append_op 1 1 ''a'']) ''k'' = Some ''abc''"
proof -
  let ?ops = "[append_op 1 1 ''a'', append_op 2 1 ''b'', append_op 1 2 ''c'', append_op 1 1 ''a'']"
  have "in_order is_write ClientID ProposalID 0 [] ?ops" by (simp add: append_op_def)
  from kv_exactly_once [OF this] show ?thesis by (simp add: append_op_def exec_op_def)
qed

text \<open>C19: a snapshot may be labelled with an older index than the state it holds, because its
  goroutine runs while later commands are applied. The commands that are then delivered again after a
  restart are absorbed: the server ends in the state it would have without the crash, with the same
  map and the same request numbers.\<close>

theorem snapshot_replay_is_absorbed:
  "foldl apply_write (foldl apply_write s (ops @ again)) (again @ later) = foldl apply_write s (ops @ again @ later)"
  using kvs.replay [of again "ops @ again" s] by simp

subsection \<open>The server with its Raft peer\<close>

type_synonym kv_maps = "(string \<rightharpoonup> string) \<times> (int32 \<rightharpoonup> int)"

text \<open>A snapshot goroutine that has not run yet: the index it was started with and the maps it refers to. These are the maps of
  the server (\<open>None\<close>) until a snapshot message gives the server other ones; nothing changes the old maps from then on.\<close>

type_synonym snapshot_goroutine = "int \<times> kv_maps option"

fun freeze :: "kv_maps \<Rightarrow> snapshot_goroutine \<Rightarrow> snapshot_goroutine" where
  "freeze s (i, None) = (i, Some s)"
| "freeze s (i, Some t) = (i, Some t)"

definition goroutine_maps :: "KVServer \<Rightarrow> kv_maps option \<Rightarrow> kv_maps" where
  "goroutine_maps kv mp = (case mp of None \<Rightarrow> (rsm kv, kv_seq kv) | Some s \<Rightarrow> s)"

definition next_msg :: "KVServer \<Rightarrow> Op ApplyMsg" where
  "next_msg kv = applyCh (raft (kv_rf kv)) ! received kv"

type_synonym kv_state = "KVServer \<times> snapshot_goroutine list \<times> Op installing"

text \<open>The steps of a server: its Raft peer moves, the main loop takes a message (and may start a snapshot goroutine), such a
  goroutine runs, or a handler is called.\<close>

inductive kv_step :: "(Op gob list \<Rightarrow> int) \<Rightarrow> kv_state \<Rightarrow> kv_state \<Rightarrow> bool" for nbytes where
  peer: "raft_step (kv_rf kv, ins) (n, ins') \<Longrightarrow> kv_step nbytes (kv, pend, ins) (kv\<lparr>kv_rf := n\<rparr>, pend, ins')"
| receive: "kv_mainProcess nbytes kv = Inr (kv', sn) \<Longrightarrow>
     kv_step nbytes (kv, pend, ins)
       (kv', (if CommandValid (next_msg kv) then pend else map (freeze (rsm kv, kv_seq kv)) pend) @
             (case sn of None \<Rightarrow> [] | Some i \<Rightarrow> [(i, None)]), ins)"
| take_snapshot: "(i, mp) \<in> set pend \<Longrightarrow> goroutine_maps kv mp = (m, seq) \<Longrightarrow>
     TakeSnapshots (raft (kv_rf kv)) seq m i = Inr rf' \<Longrightarrow>
     kv_step nbytes (kv, pend, ins) (kv\<lparr>kv_rf := (kv_rf kv)\<lparr>raft := rf'\<rparr>\<rparr>, remove1 (i, mp) pend, ins)"
| get: "Get_begin kv args = Inr (kv', r) \<Longrightarrow> kv_step nbytes (kv, pend, ins) (kv', pend, ins)"
| put_append: "PutAppend_begin kv pargs = Inr (kv', pr) \<Longrightarrow> kv_step nbytes (kv, pend, ins) (kv', pend, ins)"
| killed: "kv_step nbytes (kv, pend, ins) (kv_Kill kv, pend, ins)"

inductive kv_reachable :: "(Op gob list \<Rightarrow> int) \<Rightarrow> nat \<Rightarrow> int \<Rightarrow> Op Persister \<Rightarrow> int \<Rightarrow> kv_state \<Rightarrow> bool"
  for nbytes n i ps maxstate where
  started: "StartKVServer n i ps maxstate = Inr kv \<Longrightarrow>
     kv_reachable nbytes n i ps maxstate (kv, [], made_installing (raft (kv_rf kv)))"
| stepped: "kv_reachable nbytes n i ps maxstate s \<Longrightarrow> kv_step nbytes s s' \<Longrightarrow> kv_reachable nbytes n i ps maxstate s'"

text \<open>What the messages make of the maps.\<close>

fun replay_msg :: "kv_maps \<Rightarrow> Op ApplyMsg \<Rightarrow> kv_maps" where
  "replay_msg s m =
     (if \<not> CommandValid m then (Rsm m, ClientMaxRequestSeq m)
      else case ApplyCommand m of None \<Rightarrow> s | Some op \<Rightarrow> apply_write s op)"

abbreviation kv_replay :: "Op ApplyMsg list \<Rightarrow> kv_maps" where
  "kv_replay ms \<equiv> foldl replay_msg (Map.empty, Map.empty) ms"

definition get_at :: "Op ApplyMsg \<Rightarrow> int32 \<Rightarrow> int \<Rightarrow> string \<Rightarrow> bool" where
  "get_at m c n k \<longleftrightarrow> CommandValid m \<and>
     (\<exists>op. ApplyCommand m = Some op \<and> Optype op = GetType \<and> ClientID op = c \<and> ProposalID op = n \<and> Key op = k)"

text \<open>Two request tables are the same to the server when they read the same.\<close>

definition same_store :: "kv_maps \<Rightarrow> kv_maps \<Rightarrow> bool" where
  "same_store s t \<longleftrightarrow> fst s = fst t \<and> (\<forall>c. mget 0 (snd s) c = mget 0 (snd t) c)"

abbreviation kv_sent :: "KVServer \<Rightarrow> Op ApplyMsg list" where
  "kv_sent kv \<equiv> applyCh (raft (kv_rf kv))"

abbreviation kv_seen :: "KVServer \<Rightarrow> Op ApplyMsg list" where
  "kv_seen kv \<equiv> take (received kv) (kv_sent kv)"

text \<open>The maps that a goroutine kept are what some prefix of the received messages made, which has the command it was
  started for.\<close>

definition goroutine_ok :: "Op ApplyMsg list \<Rightarrow> snapshot_goroutine \<Rightarrow> bool" where
  "goroutine_ok ms g \<longleftrightarrow> (case snd g of
       None \<Rightarrow> fst g \<in> set (cmd_indices ms)
     | Some s \<Rightarrow> \<exists>xs ys. ms = xs @ ys \<and> fst g \<in> set (cmd_indices xs) \<and> same_store s (kv_replay xs))"

definition results_ok :: "Op ApplyMsg list \<Rightarrow> (int64 \<rightharpoonup> string) \<Rightarrow> bool" where
  "results_ok ms res \<longleftrightarrow> (\<forall>i v. res i = Some v \<longrightarrow>
     (\<exists>xs m ys c n k. ms = xs @ m # ys \<and> get_at m c n k \<and> i = commID c n \<and> v = mget [] (fst (kv_replay xs)) k))"

definition kv_inv :: "kv_state \<Rightarrow> bool" where
  "kv_inv = (\<lambda>(kv, pend, ins). peer_inv (kv_rf kv, ins) \<and> received kv \<le> length (kv_sent kv) \<and>
     same_store (rsm kv, kv_seq kv) (kv_replay (kv_seen kv)) \<and>
     (\<forall>g \<in> set pend. goroutine_ok (kv_seen kv) g) \<and> results_ok (kv_seen kv) (resultMap kv))"

lemma same_store_write: "same_store s t \<Longrightarrow> same_store (apply_write s op) (apply_write t op)"
  by (cases s; cases t) (auto simp: same_store_def apply_write_def split: OpType.splits)

lemma same_store_replay: "same_store s t \<Longrightarrow> same_store (replay_msg s m) (replay_msg t m)"
  using same_store_write by (auto simp: same_store_def [of "(_, _)" "(_, _)"] split: option.splits)

lemma apply_command_store:
  "(rsm (apply_command kv op), kv_seq (apply_command kv op)) = apply_write (rsm kv, kv_seq kv) op"
  "kv_rf (apply_command kv op) = kv_rf kv" "kv_me (apply_command kv op) = kv_me kv"
  "received (apply_command kv op) = received kv"
  by (cases "Optype op"; simp add: apply_command_def apply_write_def split: prod.splits)+

lemma apply_msg_store:
  assumes "apply_msg nbytes kv m = Inr (kv', sn)"
  shows "(rsm kv', kv_seq kv') = replay_msg (rsm kv, kv_seq kv) m" "kv_rf kv' = kv_rf kv" "kv_me kv' = kv_me kv"
    "received kv' = received kv" "sn = Some i \<Longrightarrow> CommandValid m \<and> i = CommandIndex m"
  using assms
  by (auto simp: apply_msg_def apply_command_store Let_def split: if_splits option.splits)

lemma apply_msg_result:
  assumes "apply_msg nbytes kv m = Inr (kv', sn)" "resultMap kv' i = Some v"
  shows "resultMap kv i = Some v \<or> (\<exists>c n k. get_at m c n k \<and> i = commID c n \<and> v = mget [] (rsm kv) k)"
  using assms
  by (auto simp: apply_msg_def apply_command_def get_at_def Let_def
      split: if_splits option.splits OpType.splits prod.splits)

subsection \<open>The invariant of a server\<close>

lemma goroutine_ok_snoc: "goroutine_ok ms g \<Longrightarrow> goroutine_ok (ms @ [m]) g"
  by (auto simp: goroutine_ok_def split: option.splits) (metis append_assoc)

lemma goroutine_ok_freeze: "goroutine_ok ms g \<Longrightarrow> same_store s (kv_replay ms) \<Longrightarrow> goroutine_ok ms (freeze s g)"
  by (cases g; cases "snd g") (auto simp: goroutine_ok_def)

lemma goroutine_ok_index: "goroutine_ok ms g \<Longrightarrow> fst g \<in> set (cmd_indices ms)"
  by (auto simp: goroutine_ok_def split: option.splits)

lemma results_ok_snoc: "results_ok ms res \<Longrightarrow> res i = Some v \<Longrightarrow>
    \<exists>xs m' ys c n k. ms @ [m] = xs @ m' # ys \<and> get_at m' c n k \<and> i = commID c n \<and> v = mget [] (fst (kv_replay xs)) k"
  unfolding results_ok_def by (metis append_Cons append_assoc)

text \<open>Steps of the peer only add messages.\<close>

lemma kv_inv_grows:
  assumes "kv_inv (kv, pend, ins)" "grows (kv_rf kv, ins) (n, ins')"
  shows "kv_inv (kv\<lparr>kv_rf := n\<rparr>, pend, ins')"
  using assms by (auto simp: kv_inv_def grows_def)

lemma kv_inv_receive:
  assumes inv: "kv_inv (kv, pend, ins)" and m: "kv_mainProcess nbytes kv = Inr (kv', sn)"
  shows "kv_inv (kv', (if CommandValid (next_msg kv) then pend else map (freeze (rsm kv, kv_seq kv)) pend) @
             (case sn of None \<Rightarrow> [] | Some i \<Rightarrow> [(i, None)]), ins)"
proof -
  have lt: "received kv < length (kv_sent kv)" using m by (simp add: kv_mainProcess_def split: if_splits)
  then obtain kv1 where a: "apply_msg nbytes kv (next_msg kv) = Inr (kv1, sn)"
    and kv': "kv' = kv1\<lparr>received := Suc (received kv1)\<rparr>"
    using m by (auto simp: kv_mainProcess_def next_msg_def rbind_Inr_conv)
  note st = apply_msg_store [OF a]
  have seen: "kv_seen kv' = kv_seen kv @ [next_msg kv]" using lt by (simp add: kv' st(2,4) next_msg_def take_Suc_conv_app_nth)
  have store: "same_store (rsm kv, kv_seq kv) (kv_replay (kv_seen kv))" using inv by (simp add: kv_inv_def)
  have store': "same_store (rsm kv', kv_seq kv') (kv_replay (kv_seen kv'))"
    unfolding seen using same_store_replay [OF store] by (simp add: kv' st(1) del: replay_msg.simps)
  have new: "goroutine_ok (kv_seen kv') (i, None)" if "sn = Some i" for i
    unfolding seen using st(5) [OF that] by (simp add: goroutine_ok_def cmd_indices_def)
  have "goroutine_ok (kv_seen kv') (freeze (rsm kv, kv_seq kv) g)" "goroutine_ok (kv_seen kv') g" if "g \<in> set pend" for g
    using that inv goroutine_ok_freeze [of "kv_seen kv" g, OF _ store] by (auto simp: seen kv_inv_def intro!: goroutine_ok_snoc)
  with new have gs: "goroutine_ok (kv_seen kv') g"
    if "g \<in> set ((if CommandValid (next_msg kv) then pend else map (freeze (rsm kv, kv_seq kv)) pend) @
             (case sn of None \<Rightarrow> [] | Some i \<Rightarrow> [(i, None)]))" for g
    using that by (cases g) (auto split: if_splits option.splits)
  have "results_ok (kv_seen kv') (resultMap kv')"
    unfolding results_ok_def
  proof (intro allI impI)
    fix i v
    assume v: "resultMap kv' i = Some v"
    from apply_msg_result [OF a, of i v] v consider "resultMap kv i = Some v"
      | c n k where "get_at (next_msg kv) c n k" "i = commID c n" "v = mget [] (rsm kv) k"
      by (auto simp: kv')
    then show "\<exists>xs m ys c n k. kv_seen kv' = xs @ m # ys \<and> get_at m c n k \<and> i = commID c n \<and> v = mget [] (fst (kv_replay xs)) k"
    proof cases
      case 1
      have "results_ok (kv_seen kv) (resultMap kv)" using inv by (simp add: kv_inv_def)
      from results_ok_snoc [OF this 1] show ?thesis unfolding seen .
    next
      case 2
      then show ?thesis using store unfolding seen
        by (intro exI [of _ "kv_seen kv"] exI [of _ "next_msg kv"] exI [of _ "[]"]) (auto simp: same_store_def)
    qed
  qed
  then show ?thesis using inv lt gs store' by (auto simp: kv_inv_def kv' st(2,4))
qed

lemma kv_inv_Start:
  assumes inv: "kv_inv (kv, pend, ins)" and s: "kv_Start kv op = Inr (kv', index)"
  shows "kv_inv (kv', pend, ins)"
proof -
  obtain rf t ok where st: "Start (raft (kv_rf kv)) op = Inr (rf, index, t, ok)"
    and kv': "kv' = kv\<lparr>kv_rf := (kv_rf kv)\<lparr>raft := rf\<rparr>\<rparr>"
    using s by (auto simp: kv_Start_def rbind_Inr_conv)
  have "grows (kv_rf kv, ins) ((kv_rf kv)\<lparr>raft := rf\<rparr>, ins)"
    by (rule starts.op_grows) (use inv st in \<open>simp_all add: kv_inv_def, blast\<close>)
  then show ?thesis using kv_inv_grows [OF inv] by (simp add: kv')
qed

lemma kv_inv_register:
  assumes "kv_inv (kv, pend, ins)" "kv_seq kv c = None"
  shows "kv_inv (kv\<lparr>kv_seq := (kv_seq kv)(c \<mapsto> 0)\<rparr>, pend, ins)"
proof -
  have "mget 0 ((kv_seq kv)(c \<mapsto> 0)) c' = mget 0 (kv_seq kv) c'" for c'
    using assms(2) by (simp add: mget_def)
  then show ?thesis using assms(1) by (simp add: kv_inv_def same_store_def del: mget_upd)
qed

lemma kv_inv_PutAppend:
  assumes inv: "kv_inv (kv, pend, ins)" and b: "PutAppend_begin kv args = Inr (kv', r)"
  shows "kv_inv (kv', pend, ins)"
proof -
  let ?kv = "if kv_seq kv (PA_ClientID args) = None
    then kv\<lparr>kv_seq := (kv_seq kv)(PA_ClientID args \<mapsto> 0)\<rparr> else kv"
  have "kv_inv (?kv, pend, ins)" using inv kv_inv_register by simp
  moreover have "kv' = ?kv \<or> (\<exists>index. kv_Start ?kv (put_append_op args) = Inr (kv', index))"
    using b by (auto simp: PutAppend_begin_def Let_def rbind_Inr_conv split: if_splits)
  ultimately show ?thesis using kv_inv_Start by blast
qed

text \<open>A goroutine only takes snapshots of committed commands.\<close>

lemma kv_inv_committed:
  assumes "kv_inv (kv, pend, ins)" "(i, mp) \<in> set pend"
  shows "i \<le> commitIndex (raft (kv_rf kv))"
proof -
  have "i \<in> set (cmd_indices (kv_seen kv))" using goroutine_ok_index assms by (force simp: kv_inv_def)
  then have "i \<in> set (cmd_indices (kv_sent kv))" by (auto simp: cmd_indices_def dest: in_set_takeD)
  then show ?thesis using cmd_index_committed assms(1) by (fastforce simp: kv_inv_def peer_inv_def)
qed

lemma kv_inv_take:
  assumes inv: "kv_inv (kv, pend, ins)" and p: "(i, mp) \<in> set pend"
    and t: "TakeSnapshots (raft (kv_rf kv)) seq m i = Inr rf'"
  shows "kv_inv (kv\<lparr>kv_rf := (kv_rf kv)\<lparr>raft := rf'\<rparr>\<rparr>, remove1 (i, mp) pend, ins)"
proof -
  have c: "i - 1 \<le> commitIndex (raft (kv_rf kv))" using kv_inv_committed [OF inv p] by simp
  have "grows (kv_rf kv, ins) ((kv_rf kv)\<lparr>raft := rf'\<rparr>, ins)"
    by (rule snapshots.op_grows) (use inv t c in \<open>simp_all add: kv_inv_def, blast\<close>)
  from kv_inv_grows [OF inv this] show ?thesis
    using set_remove1_subset [of "(i, mp)" pend] by (auto simp: kv_inv_def)
qed

lemma kv_step_inv:
  assumes "kv_step nbytes s s'" "kv_inv s" "ahead (in_history (snd (snd s')))"
  shows "kv_inv s'"
  using assms
proof (cases rule: kv_step.cases)
  case (peer kv ins n ins' pend)
  then have "grows (kv_rf kv, ins) (n, ins')" using raft_step_grows assms(2,3) by (auto simp: kv_inv_def)
  then show ?thesis using kv_inv_grows assms(2) peer by blast
next
  case (receive kv kv' sn pend ins)
  then show ?thesis using kv_inv_receive assms(2) by simp
next
  case (take_snapshot i mp pend kv m seq rf' ins)
  then show ?thesis using kv_inv_take assms(2) by simp
next
  case (get kv args kv' r pend ins)
  then show ?thesis
    using kv_inv_Start assms(2) by (auto simp: Get_begin_def rbind_Inr_conv split: if_splits)
next
  case (put_append kv pargs kv' pr pend ins)
  then show ?thesis using kv_inv_PutAppend assms(2) by simp
next
  case (killed kv pend ins)
  have "grows (kv_rf kv, ins) ((kv_rf kv)\<lparr>raft := Kill (raft (kv_rf kv))\<rparr>, ins)"
    by (rule kills.op_grows) (use killed assms(2) in \<open>simp_all add: kv_inv_def\<close>)
  then show ?thesis using kv_inv_grows assms(2) killed by (simp add: kv_Kill_def)
qed

lemma kv_step_history: "kv_step nbytes s s' \<Longrightarrow> ahead (in_history (snd (snd s'))) \<Longrightarrow> ahead (in_history (snd (snd s)))"
  by (cases rule: kv_step.cases) (auto dest: raft_step_history)

lemma kv_reachable_inv:
  "kv_reachable nbytes n i ps maxstate s \<Longrightarrow> ahead (in_history (snd (snd s))) \<Longrightarrow> kv_inv s"
proof (induction rule: kv_reachable.induct)
  case (started kv)
  then obtain rf where "Make n i ps = Inr rf" and kv: "kv_rf kv = \<lparr>raft = rf, role = R_Main\<rparr>" "received kv = 0"
      "rsm kv = Map.empty" "kv_seq kv = Map.empty" "resultMap kv = Map.empty"
    by (auto simp: StartKVServer_def rbind_Inr_conv)
  then show ?case using Make_peer_inv by (simp add: kv_inv_def same_store_def results_ok_def)
next
  case (stepped s s')
  then show ?case using kv_step_inv [of nbytes s s'] kv_step_history [of nbytes s s'] by simp
qed




definition read_args :: GetArgs where
  "read_args = \<lparr>GA_ClientID = 5, GA_CommSeq = 2, GA_Key = ''k''\<rparr>"

definition foreign_append :: "int \<Rightarrow> int \<Rightarrow> Op list \<Rightarrow> int \<Rightarrow> Op AppendEntryArgs" where
  "foreign_append prev t ops commit = \<lparr>AE_Term = 2, LeaderID = 0, PrevLogIndex = prev, PrevLogTerm = t,
     Entries = map (\<lambda>op. \<lparr>Command = Some op, Term = 2\<rparr>) ops, LeaderCommit = commit\<rparr>"

lemma kv_reachable_append:
  assumes "kv_reachable nbytes n i ps ms (kv, pend, ins)" "AppendEntry (raft (kv_rf kv)) args = Inr (rf', reply)"
  shows "kv_reachable nbytes n i ps ms (kv\<lparr>kv_rf := (kv_rf kv)\<lparr>raft := rf'\<rparr>\<rparr>, pend, ins)"
  using kv_reachable.stepped [OF assms(1) kv_step.peer [OF raft_step.append [OF assms(2)]]] .

lemma kv_reachable_turn:
  assumes "kv_reachable nbytes n i ps ms (kv, pend, ins)" "mainProcess_turn (kv_rf kv) e = Inr s'"
  shows "kv_reachable nbytes n i ps ms (kv\<lparr>kv_rf := s'\<rparr>, pend, ins)"
  using kv_reachable.stepped [OF assms(1) kv_step.peer [OF raft_step.main [OF assms(2)]]] .

lemma kv_reachable_receive:
  assumes "kv_reachable nbytes n i ps ms (kv, [], ins)" "kv_mainProcess nbytes kv = Inr (kv', None)"
  shows "kv_reachable nbytes n i ps ms (kv', [], ins)"
  using kv_reachable.stepped [OF assms(1) kv_step.receive [OF assms(2)]] by (simp split: if_splits)

lemmas kv_run_defs = AppendEntry_def AppendEntry_commit_def AppendEntry_store_def foreign_append_def zero_raft_def
  notify_def at_def put_at_def slice_of_def index_defs persist_def kv_mainProcess_def apply_msg_def
  apply_command_def apply_write_def append_op_def cmd_msg_def CandidateProcess_start_def majority_def

text \<open>Server 1 gets an append and the read from the leader of term 2 and applies them; then it wins the next election and
  answers the waiting read.\<close>

lemma read_run:
  "\<exists>kv. kv_reachable (\<lambda>_. 0) 3 1 MakePersister (-1) (kv, [], \<lparr>in_pending = [], in_history = []\<rparr>) \<and>
     Get_poll kv read_args = Done (zero_get_reply\<lparr>GR_Value := ''v''\<rparr>) \<and>
     kv_sent kv = [cmd_msg (Some (append_op 5 1 ''v'')) 1, cmd_msg (Some (get_op read_args)) 2]"
proof -
  let ?ins = "\<lparr>in_pending = [], in_history = []\<rparr> :: Op installing"
  let ?R = "\<lambda>kv. kv_reachable (\<lambda>_. 0) 3 1 MakePersister (-1) (kv, [], ?ins)"
  obtain kv0 where s: "StartKVServer 3 1 MakePersister (-1) = Inr kv0"
    and kv0: "kv0 = \<lparr>kv_me = 1, kv_rf = \<lparr>raft = zero_raft\<lparr>peers := 3, me := 1, leaderNum := -1, votedFor := -1,
        log := [\<lparr>Command = None, Term = 0\<rparr>]\<rparr>, role = R_Main\<rparr>, received = 0, maxraftstate = -1, rsm = Map.empty,
        curCommitIndex = 0, kv_seq = Map.empty, resultMap = Map.empty\<rparr>"
    by (simp add: StartKVServer_def Make_def readSnapshotPersist_eq readPersist_def persister_defs zero_raft_def)
  have 0: "?R kv0" using kv_reachable.started [OF s] by (simp add: kv0 made_installing_def zero_raft_def)
  let ?c = "foreign_append 0 0 [append_op 5 1 ''v'', get_op read_args] 0" and ?d = "foreign_append 2 2 [] 2"
  have "\<exists>rf1 r1 rf2 r2 kv3 kv4 s5 s6. AppendEntry (raft (kv_rf kv0)) ?c = Inr (rf1, r1) \<and> AppendEntry rf1 ?d = Inr (rf2, r2) \<and>
      kv_mainProcess (\<lambda>_. 0) (kv0\<lparr>kv_rf := \<lparr>raft = rf2, role = R_Main\<rparr>\<rparr>) = Inr (kv3, None) \<and>
      kv_mainProcess (\<lambda>_. 0) kv3 = Inr (kv4, None) \<and> mainProcess_turn (kv_rf kv4) ME_Main = Inr s5 \<and>
      mainProcess_turn s5 (ME_Candidate (CE_Reply \<lparr>RVR_Term = 2, VoteGranted = True\<rparr>)) = Inr s6 \<and>
      Get_poll (kv4\<lparr>kv_rf := s6\<rparr>) read_args = Done (zero_get_reply\<lparr>GR_Value := ''v''\<rparr>) \<and>
      applyCh (raft s6) = [cmd_msg (Some (append_op 5 1 ''v'')) 1, cmd_msg (Some (get_op read_args)) 2]"
    by (simp add: kv_run_defs kv0 Get_poll_def GetLeaderNum_def LeaderProcess_start_def makeTermIndex_eq read_args_def get_op_def)
  then obtain rf1 r1 rf2 r2 kv3 kv4 s5 s6 where
    r: "AppendEntry (raft (kv_rf kv0)) ?c = Inr (rf1, r1)" "AppendEntry rf1 ?d = Inr (rf2, r2)"
      "kv_mainProcess (\<lambda>_. 0) (kv0\<lparr>kv_rf := \<lparr>raft = rf2, role = R_Main\<rparr>\<rparr>) = Inr (kv3, None)"
      "kv_mainProcess (\<lambda>_. 0) kv3 = Inr (kv4, None)" "mainProcess_turn (kv_rf kv4) ME_Main = Inr s5"
      "mainProcess_turn s5 (ME_Candidate (CE_Reply \<lparr>RVR_Term = 2, VoteGranted = True\<rparr>)) = Inr s6"
      "Get_poll (kv4\<lparr>kv_rf := s6\<rparr>) read_args = Done (zero_get_reply\<lparr>GR_Value := ''v''\<rparr>)"
      "applyCh (raft s6) = [cmd_msg (Some (append_op 5 1 ''v'')) 1, cmd_msg (Some (get_op read_args)) 2]"
    by blast
  have 2: "?R (kv0\<lparr>kv_rf := \<lparr>raft = rf2, role = R_Main\<rparr>\<rparr>)"
    using kv_reachable_append [OF kv_reachable_append [OF 0 r(1)]] r(2) by (simp add: kv0)
  have "?R (kv4\<lparr>kv_rf := s6\<rparr>)"
    using kv_reachable_turn [OF kv_reachable_turn [OF kv_reachable_receive [OF kv_reachable_receive [OF 2 r(3)] r(4)] r(5)]] r(6)
    by (simp del: mainProcess_turn.simps)
  then show ?thesis using r(7,8) by (intro exI [of _ "kv4\<lparr>kv_rf := s6\<rparr>"]) simp
qed


text \<open>The message of a snapshot is sent after the lock is released, so the messages of later commands can overtake it. Here
  server 1 installs a snapshot up to index 4, the leader's next two calls bring and commit an append at index 5, and the
  server applies it before the snapshot arrives: the snapshot's maps replace those with the append.\<close>

definition late_args :: "Op InstallSnapShotArgs" where
  "late_args = \<lparr>IS_Term = 2, LeaderId = 0, LastIncludedIndex = 4, LastIncludedTerm = 1,
     Data = [GSeq Map.empty, GRsm Map.empty, GInt 4, GInt 1]\<rparr>"

text \<open>C28: the message of an installed snapshot can arrive after the messages of later commands. From the start of a server
  there is a run in which a snapshot up to index 4 passes the tests of \<open>InstallSnapShot\<close> and is installed, the append at
  index 5 is committed and applied, and the snapshot's message then takes its effect out of the server's map, while the
  server counts index 5 as applied and has no further message to take.\<close>

theorem late_snapshot_undoes_a_command:
  "\<exists>kv0 rf1 m rf2 r2 rf3 r3 kv4 kv5. StartKVServer 3 1 MakePersister (-1) = Inr kv0 \<and>
     installs (raft (kv_rf kv0)) late_args \<and> readSnapshot_locked (raft (kv_rf kv0)) (Data late_args) = Inr (rf1, Some m) \<and>
     AppendEntry rf1 (foreign_append 4 1 [append_op 5 1 ''v''] 4) = Inr (rf2, r2) \<and>
     AppendEntry rf2 (foreign_append 5 2 [] 5) = Inr (rf3, r3) \<and>
     kv_mainProcess (\<lambda>_. 0) (kv0\<lparr>kv_rf := \<lparr>raft = rf3, role = R_Main\<rparr>\<rparr>) = Inr (kv4, None) \<and>
     rsm kv4 ''k'' = Some ''v'' \<and> commitIndex rf3 = 5 \<and>
     kv_mainProcess (\<lambda>_. 0) (kv4\<lparr>kv_rf := \<lparr>raft = readSnapshot_send rf3 (Data late_args) m, role = R_Main\<rparr>\<rparr>) = Inr (kv5, None) \<and>
     rsm kv5 ''k'' = None \<and> curCommitIndex kv5 = 5 \<and> received kv5 = length (kv_sent kv5)"
  by (simp add: StartKVServer_def Make_def readSnapshotPersist_eq readPersist_def persister_defs kv_run_defs late_args_def
      installs_def log_entry_def readSnapshot_locked_def decode_snapshot_def readSnapshot_send_def snapshot_msg_def)

definition put_leader :: KVServer where
  "put_leader = \<lparr>kv_me = 1, kv_rf = \<lparr>raft = zero_raft\<lparr>peers := 3, me := 1, leaderNum := 1, currentTerm := 1,
       log := [\<lparr>Command = None, Term = 0\<rparr>], nextIndex := [1, 1, 1], matchIndex := [0, 0, 0]\<rparr>, role = R_Main\<rparr>,
     received = 0, maxraftstate = -1, rsm = Map.empty, curCommitIndex = 0, kv_seq = Map.empty, resultMap = Map.empty\<rparr>"

definition put_mine :: PutAppendArgs where
  "put_mine = \<lparr>PA_Key = ''mine'', PA_Value = ''v'', PA_Op = ''Put'', PA_ClientID = 1, PA_CommSeq = 1\<rparr>"

text \<open>\<open>PutAppend\<close> answers with success as soon as the applied index reaches the index its command
  got, without looking at what was applied there. Here peer 1 as leader of term 1 starts a put at index 1,
  another leader overwrites and commits index 1, peer 1 applies that entry and wins the next election: the
  waiting handler then confirms a put that is in no log and not in the map.\<close>

theorem PutAppend_confirms_foreign_entry:
  "\<exists>kv1 rf2 r2 rf3 r3 kv4 rf5 b. PutAppend_begin put_leader put_mine = Inr (kv1, Inr 1) \<and>
     AppendEntry (raft (kv_rf kv1)) (foreign_append 0 0 [append_op 2 1 ''w''] 0) = Inr (rf2, r2) \<and>
     AppendEntry rf2 (foreign_append 1 2 [] 1) = Inr (rf3, r3) \<and>
     kv_mainProcess (\<lambda>_. 0) (kv1\<lparr>kv_rf := \<lparr>raft = rf3, role = R_Main\<rparr>\<rparr>) = Inr (kv4, None) \<and>
     CandidateProcess (raft (kv_rf kv4)) [CE_Reply \<lparr>RVR_Term = 2, VoteGranted = True\<rparr>] = Inr (Some (rf5, b)) \<and>
     PutAppend_poll (kv4\<lparr>kv_rf := \<lparr>raft = rf5, role = R_Main\<rparr>\<rparr>) 1 = Done zero_pa_reply \<and>
     rsm kv4 ''mine'' = None \<and> map Command (log rf5) = [None, Some (append_op 2 1 ''w'')]"
  by (simp add: PutAppend_begin_def put_leader_def put_mine_def put_append_op_def kv_Start_def Start_def
      GetLeaderNum_def AppendEntry_def AppendEntry_commit_def AppendEntry_store_def foreign_append_def zero_raft_def
      notify_def at_def put_at_def slice_of_def index_defs persist_def kv_mainProcess_def apply_msg_def
      apply_command_def apply_write_def append_op_def cmd_msg_def CandidateProcess_def CandidateProcess_start_def
      majority_def PutAppend_poll_def) blast

end
