(* ===== verification/KV_Clerk.thy ===== *)
theory KV_Clerk
  imports KV_Server
begin

section \<open>The key/value client\<close>

text \<open>
  \<^verbatim>\<open>src/kvraft/client.go\<close>. The clerk's loops call one server after the other until one answers as
  leader. What the calls return is an argument: \<open>None\<close> for a call that fails, together with the random
  number that picks the server when no leader is known. A list of such outcomes stands for the turns of
  the loop; the result is \<open>None\<close> while the loop still goes on.
\<close>

record Clerk =
  ck_servers :: nat
  ck_ID :: int32
  commSeq :: int
  LeaderIndex :: int

text \<open>\<open>nrand\<close> returns a number from 0 up to \<open>2 ^ 62\<close>; the random source is the argument.\<close>

definition nrand :: "nat \<Rightarrow> int" where
  "nrand x = int x mod 2 ^ 62"

definition MakeClerk :: "nat \<Rightarrow> nat \<Rightarrow> Clerk" where
  "MakeClerk servers x = \<lparr>ck_servers = servers, ck_ID = word_of_int (nrand x), commSeq = 1, LeaderIndex = -1\<rparr>"

text \<open>The server to ask: the known leader or a random one; \<open>%\<close> by zero and an index out of range
  panic.\<close>

definition pick_server :: "Clerk \<Rightarrow> nat \<Rightarrow> int result" where
  "pick_server ck x =
     rbind (if LeaderIndex ck \<noteq> -1 then Inr (LeaderIndex ck)
            else if ck_servers ck = 0 then Inl (Panicked ''integer divide by zero'')
            else Inr (nrand x mod int (ck_servers ck))) (\<lambda>leaderNum.
       if 0 \<le> leaderNum \<and> leaderNum < int (ck_servers ck) then Inr leaderNum else Inl IndexOutOfRange)"

definition Clerk_Get_args :: "Clerk \<Rightarrow> string \<Rightarrow> Clerk \<times> GetArgs" where
  "Clerk_Get_args ck key =
     (ck\<lparr>commSeq := commSeq ck + 1\<rparr>, \<lparr>GA_ClientID = ck_ID ck, GA_CommSeq = commSeq ck, GA_Key = key\<rparr>)"

fun Clerk_Get_loop :: "Clerk \<Rightarrow> (nat \<times> GetReply option) list \<Rightarrow> (Clerk \<times> string option) result" where
  "Clerk_Get_loop ck [] = Inr (ck, None)"
| "Clerk_Get_loop ck ((x, getReply) # calls) =
     rbind (pick_server ck x) (\<lambda>leaderNum.
       case getReply of
         None \<Rightarrow> Clerk_Get_loop (ck\<lparr>LeaderIndex := -1\<rparr>) calls
       | Some r \<Rightarrow>
           if GR_WrongLeader r then Clerk_Get_loop (ck\<lparr>LeaderIndex := -1\<rparr>) calls
           else if GR_Err r \<noteq> '''' then Clerk_Get_loop ck calls
           else Inr (ck\<lparr>LeaderIndex := leaderNum\<rparr>, Some (GR_Value r)))"

definition Clerk_Get :: "Clerk \<Rightarrow> string \<Rightarrow> (nat \<times> GetReply option) list \<Rightarrow> (Clerk \<times> string option) result" where
  "Clerk_Get ck key calls = Clerk_Get_loop (fst (Clerk_Get_args ck key)) calls"

definition Clerk_PutAppend_args :: "Clerk \<Rightarrow> string \<Rightarrow> string \<Rightarrow> string \<Rightarrow> Clerk \<times> PutAppendArgs" where
  "Clerk_PutAppend_args ck key val op =
     (ck\<lparr>commSeq := commSeq ck + 1\<rparr>,
      \<lparr>PA_Key = key, PA_Value = val, PA_Op = op, PA_ClientID = ck_ID ck, PA_CommSeq = commSeq ck\<rparr>)"

fun Clerk_PutAppend_loop :: "Clerk \<Rightarrow> (nat \<times> PutAppendReply option) list \<Rightarrow> (Clerk \<times> bool) result" where
  "Clerk_PutAppend_loop ck [] = Inr (ck, False)"
| "Clerk_PutAppend_loop ck ((x, paReply) # calls) =
     rbind (pick_server ck x) (\<lambda>leaderNum.
       case paReply of
         None \<Rightarrow> Clerk_PutAppend_loop (ck\<lparr>LeaderIndex := -1\<rparr>) calls
       | Some r \<Rightarrow>
           if PR_WrongLeader r then Clerk_PutAppend_loop (ck\<lparr>LeaderIndex := -1\<rparr>) calls
           else if PR_Err r \<noteq> '''' then Clerk_PutAppend_loop ck calls
           else Inr (ck\<lparr>LeaderIndex := leaderNum\<rparr>, True))"

definition Clerk_PutAppend ::
  "Clerk \<Rightarrow> string \<Rightarrow> string \<Rightarrow> string \<Rightarrow> (nat \<times> PutAppendReply option) list \<Rightarrow> (Clerk \<times> bool) result" where
  "Clerk_PutAppend ck key val op calls = Clerk_PutAppend_loop (fst (Clerk_PutAppend_args ck key val op)) calls"

definition Clerk_Put :: "Clerk \<Rightarrow> string \<Rightarrow> string \<Rightarrow> (nat \<times> PutAppendReply option) list \<Rightarrow> (Clerk \<times> bool) result" where
  "Clerk_Put ck key val calls = Clerk_PutAppend ck key val ''Put'' calls"

definition Clerk_Append :: "Clerk \<Rightarrow> string \<Rightarrow> string \<Rightarrow> (nat \<times> PutAppendReply option) list \<Rightarrow> (Clerk \<times> bool) result" where
  "Clerk_Append ck key val calls = Clerk_PutAppend ck key val ''Append'' calls"

text \<open>The reply of a call is decoded into the caller's variable; gob does not send zero fields, which
  therefore keep what the variable had.\<close>

definition decode_reply :: "GetReply \<Rightarrow> GetReply \<Rightarrow> GetReply" where
  "decode_reply old sent =
     \<lparr>GR_WrongLeader = (GR_WrongLeader sent \<or> GR_WrongLeader old),
      GR_Err = (if GR_Err sent = '''' then GR_Err old else GR_Err sent),
      GR_Value = (if GR_Value sent = '''' then GR_Value old else GR_Value sent)\<rparr>"

text \<open>\<open>call i args\<close> is what server \<open>i\<close> sends back.\<close>

fun GetLeader_loop :: "(nat \<Rightarrow> GetReply \<Rightarrow> GetReply option) \<Rightarrow> nat list \<Rightarrow> int" where
  "GetLeader_loop call [] = -1"
| "GetLeader_loop call (i # is) =
     (let reply = zero_get_reply\<lparr>GR_WrongLeader := True\<rparr>
      in case call i reply of
           None \<Rightarrow> GetLeader_loop call is
         | Some sent \<Rightarrow> if \<not> GR_WrongLeader (decode_reply reply sent) then int i else GetLeader_loop call is)"

definition GetLeader :: "Clerk \<Rightarrow> (nat \<Rightarrow> GetReply \<Rightarrow> GetReply option) \<Rightarrow> int" where
  "GetLeader ck call = GetLeader_loop call [0..<ck_servers ck]"

subsection \<open>The loops\<close>

definition clerk_wf :: "Clerk \<Rightarrow> bool" where
  "clerk_wf ck \<longleftrightarrow> 0 < ck_servers ck \<and> 0 < commSeq ck \<and>
     (LeaderIndex ck = -1 \<or> (0 \<le> LeaderIndex ck \<and> LeaderIndex ck < int (ck_servers ck)))"

lemma MakeClerk_wf: "0 < servers \<Longrightarrow> clerk_wf (MakeClerk servers x)"
  by (simp add: clerk_wf_def MakeClerk_def)

lemma pick_server_in_range:
  "clerk_wf ck \<Longrightarrow> \<exists>l. pick_server ck x = Inr l \<and> 0 \<le> l \<and> l < int (ck_servers ck)"
  by (auto simp: clerk_wf_def pick_server_def)

definition good_get :: "nat \<times> GetReply option \<Rightarrow> bool" where
  "good_get c \<longleftrightarrow> (\<exists>r. snd c = Some r \<and> \<not> GR_WrongLeader r \<and> GR_Err r = '''')"

text \<open>The server that is asked in turn \<open>i\<close>: the leader the clerk knew, as long as it only answered with errors, and a random
  one otherwise.\<close>

definition err_get :: "nat \<times> GetReply option \<Rightarrow> bool" where
  "err_get c \<longleftrightarrow> (\<exists>r. snd c = Some r \<and> \<not> GR_WrongLeader r \<and> GR_Err r \<noteq> '''')"

definition asked_server :: "Clerk \<Rightarrow> (nat \<times> GetReply option) list \<Rightarrow> nat \<Rightarrow> int" where
  "asked_server ck calls i =
     (if LeaderIndex ck \<noteq> -1 \<and> list_all err_get (take i calls) then LeaderIndex ck
      else nrand (fst (calls ! i)) mod int (ck_servers ck))"

text \<open>The first turn with an answer from a leader without an error.\<close>

definition first_good :: "(nat \<times> GetReply option) list \<Rightarrow> nat \<Rightarrow> bool" where
  "first_good calls i \<longleftrightarrow> i < length calls \<and> good_get (calls ! i) \<and> (\<forall>j < i. \<not> good_get (calls ! j))"

lemma first_good_Cons: "first_good (c # calls) i \<longleftrightarrow> (if good_get c then i = 0 else \<exists>j. i = Suc j \<and> first_good calls j)"
  by (cases i) (auto simp: first_good_def nth_Cons split: nat.splits)

lemma pick_server_asked: "clerk_wf ck \<Longrightarrow> pick_server ck x = Inr (asked_server ck ((x, r) # calls) 0)"
  by (auto simp: clerk_wf_def pick_server_def asked_server_def)

lemma asked_server_range: "clerk_wf ck \<Longrightarrow> 0 \<le> asked_server ck calls i \<and> asked_server ck calls i < int (ck_servers ck)"
  by (auto simp: clerk_wf_def asked_server_def)

lemma asked_server_Suc:
  "asked_server ck (c # calls) (Suc i) =
     asked_server (if err_get c then ck else ck\<lparr>LeaderIndex := -1\<rparr>) calls i"
  by (auto simp: asked_server_def)

lemma Clerk_Get_loop_none:
  assumes "clerk_wf ck" "\<And>i. \<not> first_good calls i"
  shows "\<exists>ck'. Clerk_Get_loop ck calls = Inr (ck', None) \<and> clerk_wf ck' \<and> commSeq ck' = commSeq ck"
  using assms
proof (induction calls arbitrary: ck)
  case (Cons c calls)
  obtain x r where c: "c = (x, r)" by (cases c)
  have g: "\<not> good_get c" using Cons.prems(2) [of 0] by (auto simp: first_good_Cons split: if_splits)
  have n: "\<not> first_good calls i" for i using Cons.prems(2) [of "Suc i"] g by (auto simp: first_good_Cons split: if_splits)
  have wf: "clerk_wf (ck\<lparr>LeaderIndex := -1\<rparr>)" using Cons.prems(1) by (simp add: clerk_wf_def)
  show ?case
    using g Cons.IH [OF Cons.prems(1) n] Cons.IH [OF wf n] pick_server_asked [OF Cons.prems(1), of x r calls]
    by (auto simp: c good_get_def split: option.splits)
qed auto

lemma Clerk_Get_loop_good:
  assumes "clerk_wf ck" "first_good calls i"
  shows "Clerk_Get_loop ck calls =
     Inr (ck\<lparr>LeaderIndex := asked_server ck calls i\<rparr>, Some (GR_Value (the (snd (calls ! i)))))"
  using assms
proof (induction calls arbitrary: ck i)
  case (Cons c calls)
  obtain x r where c: "c = (x, r)" by (cases c)
  note pick = pick_server_asked [OF Cons.prems(1), of x r calls]
  show ?case
  proof (cases "good_get c")
    case True
    then show ?thesis using Cons.prems(2) pick by (auto simp: c first_good_Cons good_get_def)
  next
    case False
    then obtain j where j: "i = Suc j" "first_good calls j" using Cons.prems(2) by (auto simp: first_good_Cons)
    have wf: "clerk_wf (ck\<lparr>LeaderIndex := -1\<rparr>)" using Cons.prems(1) by (simp add: clerk_wf_def)
    show ?thesis
      using False Cons.IH [OF Cons.prems(1) j(2)] Cons.IH [OF wf j(2)] pick
      by (auto simp: c j asked_server_Suc good_get_def err_get_def split: option.splits)
  qed
qed (simp add: first_good_def)

text \<open>C20: a clerk with at least one server never panics, whatever the servers answer. A read returns the value of the first
  answer that comes from a leader without an error, as soon as there is one, and remembers the server that gave this
  answer: the known leader if it had only answered with errors before, else the one picked at random in that turn. It keeps
  trying as long as there is no such answer. All tries have the same request number, which the clerk has not used before.\<close>

theorem Clerk_Get_returns_first_leader_answer:
  assumes "clerk_wf ck"
  shows "snd (Clerk_Get_args ck key) = \<lparr>GA_ClientID = ck_ID ck, GA_CommSeq = commSeq ck, GA_Key = key\<rparr> \<and>
     (\<forall>i. first_good calls i \<longrightarrow>
        Clerk_Get ck key calls =
          Inr (ck\<lparr>commSeq := commSeq ck + 1, LeaderIndex := asked_server ck calls i\<rparr>, Some (GR_Value (the (snd (calls ! i))))) \<and>
        0 \<le> asked_server ck calls i \<and> asked_server ck calls i < int (ck_servers ck)) \<and>
     ((\<forall>i. \<not> first_good calls i) \<longrightarrow>
        (\<exists>ck'. Clerk_Get ck key calls = Inr (ck', None) \<and> clerk_wf ck' \<and> commSeq ck' = commSeq ck + 1))"
proof -
  let ?ck = "fst (Clerk_Get_args ck key)"
  have wf: "clerk_wf ?ck" using assms by (auto simp: clerk_wf_def Clerk_Get_args_def)
  have "asked_server ?ck calls i = asked_server ck calls i" for i by (simp add: asked_server_def Clerk_Get_args_def)
  then show ?thesis
    using Clerk_Get_loop_good [OF wf] Clerk_Get_loop_none [OF wf] asked_server_range [OF assms]
    by (simp add: Clerk_Get_def) (simp add: Clerk_Get_args_def)
qed

theorem Clerk_Get_returns_first_leader_answer_witness:
  "Clerk_Get (MakeClerk 3 7) ''k'' [(4, None), (5, Some (zero_get_reply\<lparr>GR_WrongLeader := True\<rparr>)),
       (8, Some (zero_get_reply\<lparr>GR_Value := ''v''\<rparr>))] =
     Inr ((MakeClerk 3 7)\<lparr>commSeq := 2, LeaderIndex := 2\<rparr>, Some ''v'')"
proof -
  let ?calls = "[(4, None), (5, Some (zero_get_reply\<lparr>GR_WrongLeader := True\<rparr>)), (8, Some (zero_get_reply\<lparr>GR_Value := ''v''\<rparr>))]"
  have wf: "clerk_wf (MakeClerk 3 7)" by (rule MakeClerk_wf) simp
  have g: "first_good ?calls 2"
    by (auto simp: first_good_def good_get_def zero_get_reply_def less_2_cases_iff)
  have k: "asked_server (MakeClerk 3 7) ?calls 2 = 2" by (simp add: asked_server_def MakeClerk_def nrand_def)
  note c = Clerk_Get_returns_first_leader_answer [OF wf, of "''k''" ?calls]
  note spec [OF conjunct1 [OF conjunct2 [OF c]], of 2, THEN mp, OF g, THEN conjunct1, unfolded k]
  then show ?thesis by (simp add: MakeClerk_def zero_get_reply_def)
qed

text \<open>\<open>IsLeader\<close> sets its argument instead of its reply, so \<open>GetLeader\<close> never finds a leader: it
  returns -1 whatever the servers are.\<close>

theorem GetLeader_never_finds_one:
  assumes "\<And>i args sent. call i args = Some sent \<Longrightarrow> \<exists>kv. sent = snd (IsLeader kv args zero_get_reply)"
  shows "GetLeader ck call = -1"
proof -
  have "GetLeader_loop call is = -1" for "is"
  proof (induction "is")
    case (Cons i "is")
    show ?case
    proof (cases "call i (zero_get_reply\<lparr>GR_WrongLeader := True\<rparr>)")
      case (Some sent)
      then have "sent = zero_get_reply" using assms by (fastforce simp: IsLeader_def)
      then show ?thesis using Some Cons by (simp add: decode_reply_def)
    qed (use Cons in simp)
  qed simp
  then show ?thesis by (simp add: GetLeader_def)
qed

theorem GetLeader_never_finds_one_witness:
  "GetLeader (MakeClerk 3 7) (\<lambda>i args. Some (snd (IsLeader put_leader args zero_get_reply))) = -1 \<and>
     \<not> GR_WrongLeader (fst (IsLeader put_leader zero_get_reply zero_get_reply))"
  using GetLeader_never_finds_one [of "\<lambda>i args. Some (snd (IsLeader put_leader args zero_get_reply))" "MakeClerk 3 7"]
  by (auto simp: IsLeader_def put_leader_def GetLeaderNum_def zero_raft_def)

end
