(* ===== verification/Shard_Master.thy ===== *)
theory Shard_Master
  imports Raft_Node Dedup "HOL-Library.AList" "HOL-Library.Option_ord"
begin

section \<open>The shard master\<close>

text \<open>
  \<^verbatim>\<open>src/shardmaster/server.go\<close> and \<^verbatim>\<open>src/shardmaster/common.go\<close>. A configuration's \<open>Groups\<close> is a Go
  map over which the code iterates; it is an association list with distinct keys here, whose order is
  the order of an iteration. The lemma \<open>join_groups_perm\<close> shows that the order does not matter. The
  array \<open>Shards\<close> is a list of length \<open>NShards\<close>. As for the key/value server a handler is the part up
  to \<open>Start\<close> and one turn of its waiting loop.
\<close>

definition NShards :: nat where
  "NShards = 10"

record Config =
  Num :: int
  Shards :: "int list"
  Groups :: "(int \<times> string list) list"

definition zero_config :: Config where
  "zero_config = \<lparr>Num = 0, Shards = replicate NShards 0, Groups = []\<rparr>"

datatype SM_OpType = JoinType | LeaveType | MoveType | QueryType

record SM_Op =
  sm_ClientID :: int32
  sm_ProposalID :: int
  sm_Optype :: SM_OpType
  Servers :: "(int \<times> string list) list"
  GIDs :: "int list"
  Shard :: int
  GID :: int
  QNum :: int

record ShardMaster =
  sm_me :: int
  sm_rf :: "SM_Op node"
  sm_received :: nat
  sm_curCommitIndex :: int
  configs :: "Config list"
  sm_seq :: "int32 \<rightharpoonup> int"
  sm_resultMap :: "int64 \<rightharpoonup> Config"

subsection \<open>Rebalancing\<close>

fun rebalance_group :: "int list \<Rightarrow> int \<Rightarrow> nat \<Rightarrow> int \<Rightarrow> (int list \<times> int) result" where
  "rebalance_group shards shardInd 0 g = Inr (shards, shardInd)"
| "rebalance_group shards shardInd (Suc j) g =
     rbind (put_at shards shardInd g) (\<lambda>shards. rebalance_group shards (shardInd + 1) j g)"

fun rebalance_loop :: "int list \<Rightarrow> int \<Rightarrow> nat \<Rightarrow> nat \<Rightarrow> int list \<Rightarrow> int list result" where
  "rebalance_loop shards shardInd remainShards shardPerGroup [] = Inr shards"
| "rebalance_loop shards shardInd remainShards shardPerGroup (g # gs) =
     rbind (rebalance_group shards shardInd shardPerGroup g) (\<lambda>(shards, shardInd).
       if remainShards > 0
       then rbind (put_at shards shardInd g) (\<lambda>shards.
              rebalance_loop shards shardInd (remainShards - 1) shardPerGroup gs)
       else rebalance_loop shards shardInd remainShards shardPerGroup gs)"

definition rebalance :: "Config \<Rightarrow> Config result" where
  "rebalance cfg =
     (let groupCount = length (Groups cfg)
      in if groupCount \<le> 0 then Inr cfg
         else let GroupsIDs = sort (map fst (Groups cfg));
                  shardPerGroup = NShards div groupCount;
                  remainShards = NShards - shardPerGroup * groupCount
              in rbind (rebalance_loop (Shards cfg) 0 remainShards shardPerGroup GroupsIDs) (\<lambda>s.
                   Inr (cfg\<lparr>Shards := s\<rparr>)))"

subsection \<open>Applying a command\<close>

definition join_group :: "(int \<times> string list) list \<Rightarrow> int \<times> string list \<Rightarrow> (int \<times> string list) list" where
  "join_group groups kv =
     (case map_of groups (fst kv) of
        None \<Rightarrow> AList.update (fst kv) (snd kv) groups
      | Some servers \<Rightarrow> AList.update (fst kv) (servers @ snd kv) groups)"

definition leave_group :: "(int \<times> string list) list \<times> int list \<Rightarrow> int \<Rightarrow> (int \<times> string list) list \<times> int list" where
  "leave_group gs key = (AList.delete key (fst gs), map (\<lambda>g. if key = g then -1 else g) (snd gs))"

definition new_config :: "Config \<Rightarrow> SM_Op \<Rightarrow> Config result" where
  "new_config old op =
     (let cfg = \<lparr>Num = Num old + 1, Shards = Shards old, Groups = Groups old\<rparr>
      in rbind (case sm_Optype op of
                  JoinType \<Rightarrow> Inr (cfg\<lparr>Groups := foldl join_group (Groups cfg) (Servers op)\<rparr>)
                | LeaveType \<Rightarrow>
                    (case foldl leave_group (Groups cfg, Shards cfg) (GIDs op) of
                       (groups, shards) \<Rightarrow> Inr (cfg\<lparr>Groups := groups, Shards := shards\<rparr>))
                | MoveType \<Rightarrow> rbind (put_at (Shards cfg) (Shard op) (GID op)) (\<lambda>shards. Inr (cfg\<lparr>Shards := shards\<rparr>))
                | QueryType \<Rightarrow> Inr cfg)
           rebalance)"

text \<open>The commands that change the configuration, on the two fields they read and change.\<close>

definition apply_change ::
  "Config list \<times> (int32 \<rightharpoonup> int) \<Rightarrow> SM_Op \<Rightarrow> (Config list \<times> (int32 \<rightharpoonup> int)) result" where
  "apply_change s op =
     (if (case snd s (sm_ClientID op) of None \<Rightarrow> False | Some n \<Rightarrow> n \<ge> sm_ProposalID op) then Inr s
      else rbind (at (fst s) (int (length (fst s)) - 1)) (\<lambda>old.
           rbind (new_config old op) (\<lambda>cfg.
             Inr (fst s @ [cfg], (snd s)(sm_ClientID op \<mapsto> sm_ProposalID op)))))"

definition sm_apply :: "ShardMaster \<Rightarrow> SM_Op \<Rightarrow> ShardMaster result" where
  "sm_apply sm op =
     (if sm_Optype op = QueryType
      then rbind (if QNum op \<ge> 0 \<and> QNum op < int (length (configs sm)) then at (configs sm) (QNum op)
                  else at (configs sm) (int (length (configs sm)) - 1)) (\<lambda>cfg.
             Inr (sm\<lparr>sm_resultMap := (sm_resultMap sm)(commID (sm_ClientID op) (sm_ProposalID op) \<mapsto> cfg)\<rparr>))
      else rbind (apply_change (configs sm, sm_seq sm) op) (\<lambda>(cs, seq).
             Inr (sm\<lparr>configs := cs, sm_seq := seq\<rparr>)))"

text \<open>A message is handled in two parts: the commit index is raised before the lock is taken, the
  command is applied under it.\<close>

definition sm_note_index :: "ShardMaster \<Rightarrow> SM_Op ApplyMsg \<Rightarrow> (ShardMaster \<times> SM_Op) result" where
  "sm_note_index sm applyMsg =
     (case ApplyCommand applyMsg of
        None \<Rightarrow> Inl (Panicked ''interface conversion: interface is nil, not Op'')
      | Some commOp \<Rightarrow>
          Inr (if CommandIndex applyMsg > sm_curCommitIndex sm
               then sm\<lparr>sm_curCommitIndex := CommandIndex applyMsg\<rparr> else sm, commOp))"

definition sm_mainProcess :: "ShardMaster \<Rightarrow> ShardMaster result" where
  "sm_mainProcess sm =
     (if sm_received sm < length (applyCh (raft (sm_rf sm)))
      then rbind (sm_note_index sm (applyCh (raft (sm_rf sm)) ! sm_received sm)) (\<lambda>(sm, op).
           rbind (sm_apply sm op) (\<lambda>sm. Inr (sm\<lparr>sm_received := Suc (sm_received sm)\<rparr>)))
      else Inl Blocked)"

subsection \<open>The handlers\<close>

record JoinArgs =
  JA_ClientID :: int32
  JA_CommSeq :: int
  JA_Servers :: "(int \<times> string list) list"

record LeaveArgs =
  LA_ClientID :: int32
  LA_CommSeq :: int
  LA_GIDs :: "int list"

record MoveArgs =
  MA_ClientID :: int32
  MA_CommSeq :: int
  MA_Shard :: int
  MA_GID :: int

record QueryArgs =
  QA_ClientID :: int32
  QA_CommSeq :: int
  QA_Num :: int

text \<open>\<open>JoinReply\<close>, \<open>LeaveReply\<close> and \<open>MoveReply\<close> have the same two fields.\<close>

record ChangeReply =
  CR_WrongLeader :: bool
  CR_Err :: string

record QueryReply =
  QR_WrongLeader :: bool
  QR_Err :: string
  QR_Config :: Config

datatype 'r outcome = Replied 'r | Pending

definition zero_op :: SM_Op where
  "zero_op = \<lparr>sm_ClientID = 0, sm_ProposalID = 0, sm_Optype = QueryType, Servers = [], GIDs = [], Shard = 0,
     GID = 0, QNum = 0\<rparr>"

definition join_op :: "JoinArgs \<Rightarrow> SM_Op" where
  "join_op args = zero_op\<lparr>sm_ClientID := JA_ClientID args, sm_ProposalID := JA_CommSeq args,
     sm_Optype := JoinType, Servers := JA_Servers args\<rparr>"

definition leave_op :: "LeaveArgs \<Rightarrow> SM_Op" where
  "leave_op args = zero_op\<lparr>sm_ClientID := LA_ClientID args, sm_ProposalID := LA_CommSeq args,
     sm_Optype := LeaveType, GIDs := LA_GIDs args\<rparr>"

definition move_op :: "MoveArgs \<Rightarrow> SM_Op" where
  "move_op args = zero_op\<lparr>sm_ClientID := MA_ClientID args, sm_ProposalID := MA_CommSeq args,
     sm_Optype := MoveType, GID := MA_GID args, Shard := MA_Shard args\<rparr>"

definition query_op :: "QueryArgs \<Rightarrow> SM_Op" where
  "query_op args = zero_op\<lparr>sm_ClientID := QA_ClientID args, sm_ProposalID := QA_CommSeq args,
     sm_Optype := QueryType, QNum := QA_Num args\<rparr>"

text \<open>The part that is the same in all four handlers: refuse or start the command.\<close>

definition sm_begin :: "ShardMaster \<Rightarrow> SM_Op \<Rightarrow> (ShardMaster \<times> int option) result" where
  "sm_begin sm comm =
     (if sm_me sm \<noteq> GetLeaderNum (raft (sm_rf sm)) then Inr (sm, None)
      else rbind (Start (raft (sm_rf sm)) comm) (\<lambda>(rf, index, _, _).
             Inr (sm\<lparr>sm_rf := (sm_rf sm)\<lparr>raft := rf\<rparr>\<rparr>, Some index)))"

definition Join :: "ShardMaster \<Rightarrow> JoinArgs \<Rightarrow> (ShardMaster \<times> int option) result" where
  "Join sm args = sm_begin sm (join_op args)"

definition Leave :: "ShardMaster \<Rightarrow> LeaveArgs \<Rightarrow> (ShardMaster \<times> int option) result" where
  "Leave sm args = sm_begin sm (leave_op args)"

definition Move :: "ShardMaster \<Rightarrow> MoveArgs \<Rightarrow> (ShardMaster \<times> int option) result" where
  "Move sm args = sm_begin sm (move_op args)"

definition Query :: "ShardMaster \<Rightarrow> QueryArgs \<Rightarrow> (ShardMaster \<times> int option) result" where
  "Query sm args = sm_begin sm (query_op args)"

definition change_poll :: "ShardMaster \<Rightarrow> int \<Rightarrow> ChangeReply outcome" where
  "change_poll sm index =
     (if GetLeaderNum (raft (sm_rf sm)) \<noteq> sm_me sm then Replied \<lparr>CR_WrongLeader = True, CR_Err = ''''\<rparr>
      else if sm_curCommitIndex sm \<ge> index then Replied \<lparr>CR_WrongLeader = False, CR_Err = ''''\<rparr>
      else Pending)"

definition Query_poll :: "ShardMaster \<Rightarrow> QueryArgs \<Rightarrow> int \<Rightarrow> ShardMaster \<times> QueryReply outcome" where
  "Query_poll sm args index =
     (if GetLeaderNum (raft (sm_rf sm)) \<noteq> sm_me sm
      then (sm, Replied \<lparr>QR_WrongLeader = True, QR_Err = '''', QR_Config = zero_config\<rparr>)
      else if sm_curCommitIndex sm \<ge> index
      then let i = commID (QA_ClientID args) (QA_CommSeq args)
           in (sm\<lparr>sm_resultMap := (sm_resultMap sm)(i := None)\<rparr>,
               Replied \<lparr>QR_WrongLeader = False, QR_Err = '''', QR_Config = mget zero_config (sm_resultMap sm) i\<rparr>)
      else (sm, Pending))"

definition sm_Kill :: "ShardMaster \<Rightarrow> ShardMaster" where
  "sm_Kill sm = sm\<lparr>sm_rf := (sm_rf sm)\<lparr>raft := Kill (raft (sm_rf sm))\<rparr>\<rparr>"

text \<open>\<open>Make\<close> is called before the goroutine that receives is started, so a message it sends would
  block it.\<close>

definition sm_StartServer :: "nat \<Rightarrow> int \<Rightarrow> SM_Op Persister \<Rightarrow> ShardMaster result" where
  "sm_StartServer servers i ps =
     rbind (Make servers i ps) (\<lambda>rf.
       if applyCh rf \<noteq> [] then Inl Blocked
       else Inr \<lparr>sm_me = i, sm_rf = \<lparr>raft = rf, role = R_Main\<rparr>, sm_received = 0, sm_curCommitIndex = 0,
              configs = [zero_config], sm_seq = Map.empty, sm_resultMap = Map.empty\<rparr>)"

subsection \<open>What rebalancing computes\<close>

lemma rebalance_group_eq:
  "k + n \<le> length shards \<Longrightarrow>
     rebalance_group shards (int k) n g = Inr (take k shards @ replicate n g @ drop (k + n) shards, int (k + n))"
proof (induction n arbitrary: k shards)
  case (Suc n)
  have "rebalance_group (shards[k := g]) (int (Suc k)) n g =
      Inr (take (Suc k) (shards[k := g]) @ replicate n g @ drop (Suc k + n) (shards[k := g]), int (Suc k + n))"
    by (rule Suc.IH) (use Suc.prems in simp)
  then show ?case
    using Suc.prems by (simp add: put_at_def add.commute take_Suc_conv_app_nth)
qed simp

lemma rebalance_loop_eq:
  assumes "0 < per" "k + per * length gs \<le> length shards" "remain < length gs \<or> remain = 0"
  shows "rebalance_loop shards (int k) remain per gs =
     Inr (take k shards @ concat (map (replicate per) gs) @ drop (k + per * length gs) shards)"
  using assms
proof (induction gs arbitrary: k shards remain)
  case (Cons g gs)
  let ?s = "take k shards @ replicate per g @ drop (k + per) shards"
  have len: "k + per \<le> length shards" "length ?s = length shards" "k + per + per * length gs \<le> length shards"
    using Cons.prems(2) by simp_all
  have g: "rebalance_group shards (int k) per g = Inr (?s, int (k + per))"
    by (rule rebalance_group_eq) (use len in simp)
  show ?case
  proof (cases "remain > 0")
    case False
    then have r: "remain = 0" by simp
    have "rebalance_loop ?s (int (k + per)) 0 per gs =
        Inr (take (k + per) ?s @ concat (map (replicate per) gs) @ drop (k + per + per * length gs) ?s)"
      by (rule Cons.IH) (use assms(1) len in auto)
    then show ?thesis using g len r by (simp add: ac_simps)
  next
    case True
    then have "gs \<noteq> []" using Cons.prems(3) by auto
    then have "1 \<le> length gs" by (simp add: Suc_leI)
    then have "per * 1 \<le> per * length gs" by (rule mult_le_mono2)
    then have pos: "k + per < k + per + per * length gs" using assms(1) by linarith
    let ?t = "?s[k + per := g]"
    have "rebalance_loop ?t (int (k + per)) (remain - 1) per gs =
        Inr (take (k + per) ?t @ concat (map (replicate per) gs) @ drop (k + per + per * length gs) ?t)"
      by (rule Cons.IH) (use assms(1) len True Cons.prems(3) in auto)
    moreover have "put_at ?s (int (k + per)) g = Inr ?t"
    proof -
      have "k + per < length ?s" using pos len(2,3) by linarith
      then show ?thesis unfolding put_at_def by (simp del: length_append of_nat_add)
    qed
    moreover have "take (k + per) ?t = take k shards @ replicate per g" using len by simp
    moreover have "drop (k + per + per * length gs) ?t = drop (k + per + per * length gs) shards"
      using pos len by (simp add: ac_simps)
    ultimately show ?thesis using g True by (simp add: ac_simps)
  qed
qed simp

lemma rebalance_loop_zero:
  assumes "shards \<noteq> []"
  shows "rebalance_loop shards 0 remain 0 gs =
     Inr (if remain = 0 \<or> gs = [] then shards else shards[0 := gs ! (min remain (length gs) - 1)])"
  using assms
proof (induction gs arbitrary: shards remain)
  case (Cons g gs)
  show ?case
  proof (cases "remain = 0")
    case True
    then show ?thesis using Cons.IH [OF Cons.prems, of 0] by simp
  next
    case False
    have p: "put_at shards 0 g = Inr (shards[0 := g])" using Cons.prems by (simp add: put_at_def)
    have IH: "rebalance_loop (shards[0 := g]) 0 (remain - 1) 0 gs = Inr (if remain - 1 = 0 \<or> gs = [] then shards[0 := g]
        else (shards[0 := g])[0 := gs ! (min (remain - 1) (length gs) - 1)])"
      by (rule Cons.IH) (use Cons.prems in simp)
    have i: "min remain (length (g # gs)) - 1 = Suc (min (remain - 1) (length gs) - 1)" if "remain - 1 \<noteq> 0" "gs \<noteq> []"
      using that by (cases gs) (auto simp: min_def)
    have i0: "min remain (length (g # gs)) - 1 = 0" if "remain - 1 = 0 \<or> gs = []"
      using that False by (auto simp: min_def)
    have step: "rebalance_loop shards 0 remain 0 (g # gs) = rebalance_loop (shards[0 := g]) 0 (remain - 1) 0 gs"
      using False p by simp
    show ?thesis
    proof (cases "remain - 1 = 0 \<or> gs = []")
      case True
      then show ?thesis unfolding step IH i0 [OF True] using False by simp
    next
      case ne: False
      then have r: "remain - 1 \<noteq> 0" "gs \<noteq> []" by auto
      show ?thesis unfolding step IH i [OF r] using ne False by (simp only: nth_Cons_Suc list_update_overwrite) simp
    qed
  qed
qed simp

text \<open>The result in closed form: blocks of equal size in the order of the group numbers; what does
  not divide evenly keeps its old owner.\<close>

definition assigned :: "Config \<Rightarrow> int list" where
  "assigned cfg =
     (let ids = sort (map fst (Groups cfg)); per = NShards div length ids
      in if ids = [] then Shards cfg
         else if length ids \<le> NShards then concat (map (replicate per) ids) @ drop (per * length ids) (Shards cfg)
         else (Shards cfg)[0 := ids ! (NShards - 1)])"

lemma rebalance_assigned:
  assumes "length (Shards cfg) = NShards"
  shows "rebalance cfg = Inr (cfg\<lparr>Shards := assigned cfg\<rparr>)"
proof (cases "Groups cfg = []")
  case False
  define ids n per where "ids = sort (map fst (Groups cfg))" and "n = length ids" and "per = NShards div n"
  have n2: "length (Groups cfg) = n" by (simp add: ids_def n_def)
  have n1: "0 < n" using False unfolding n2 [symmetric] by simp
  have n3: "ids \<noteq> []" using n1 unfolding n_def by simp
  note n = n1 n2 n3
  have r: "rebalance cfg = rbind (rebalance_loop (Shards cfg) 0 (NShards - per * n) per ids) (\<lambda>s. Inr (cfg\<lparr>Shards := s\<rparr>))"
    unfolding rebalance_def Let_def n2 ids_def [symmetric] per_def [symmetric] using n1 by simp
  have a: "assigned cfg = (if n \<le> NShards then concat (map (replicate per) ids) @ drop (per * n) (Shards cfg)
      else (Shards cfg)[0 := ids ! (NShards - 1)])"
    unfolding assigned_def Let_def ids_def [symmetric] n_def [symmetric] per_def [symmetric] using n3 by simp
  show ?thesis
  proof (cases "n \<le> NShards")
    case True
    then have per: "0 < per" using n(1) by (simp add: per_def div_greater_zero_iff)
    have rem: "NShards - per * n = NShards mod n" by (simp add: per_def minus_div_mult_eq_mod)
    have "per * n \<le> NShards" by (simp add: per_def)
    then have "rebalance_loop (Shards cfg) (int 0) (NShards - per * n) per ids =
        Inr (take 0 (Shards cfg) @ concat (map (replicate per) ids) @ drop (0 + per * length ids) (Shards cfg))"
      using n(1) per assms rem by (intro rebalance_loop_eq) (simp_all flip: n_def)
    then show ?thesis unfolding r a using True by (simp flip: n_def)
  next
    case False
    then have per: "per = 0" by (simp add: per_def)
    have "Shards cfg \<noteq> []" using assms by (auto simp: NShards_def)
    from rebalance_loop_zero [OF this, of "NShards" ids]
    have "rebalance_loop (Shards cfg) 0 NShards 0 ids = Inr ((Shards cfg)[0 := ids ! (NShards - 1)])"
      using n(3) False by (simp add: NShards_def min_def flip: n_def)
    then show ?thesis unfolding r a per using False by simp
  qed
qed (simp add: rebalance_def assigned_def)

definition cfg_wf :: "Config \<Rightarrow> bool" where
  "cfg_wf cfg \<longleftrightarrow> length (Shards cfg) = NShards \<and> distinct (map fst (Groups cfg))"

lemma length_concat_replicate: "length (concat (map (replicate n) xs)) = n * length xs"
  by (induction xs) auto

lemma count_concat_replicate:
  "distinct xs \<Longrightarrow> count_list (concat (map (replicate n) xs)) x = (if x \<in> set xs then n else 0)"
proof (induction xs)
  case (Cons a xs)
  have "count_list (replicate n a) x = (if x = a then n else 0)" by (induction n) auto
  then show ?case using Cons by (auto simp: count_list_append)
qed simp

lemma length_assigned: "length (Shards cfg) = NShards \<Longrightarrow> length (assigned cfg) = NShards"
  by (auto simp: assigned_def Let_def length_concat_replicate)

lemma set_concat_replicate: "0 < n \<Longrightarrow> set (concat (map (replicate n) xs)) = set xs"
  by auto

text \<open>C22: with between one and ten groups, rebalancing gives every group the same number of shards,
  in blocks that only depend on the set of groups and not on any order of the map, and every shard of a
  block belongs to an existing group. Only the shards that do not divide evenly keep their old owner.\<close>

theorem rebalance_balances:
  assumes "cfg_wf cfg" "Groups cfg \<noteq> []" "length (Groups cfg) \<le> NShards"
  shows "\<exists>blocks. rebalance cfg =
       Inr (cfg\<lparr>Shards := blocks @ drop (NShards - NShards mod length (Groups cfg)) (Shards cfg)\<rparr>) \<and>
     length blocks = NShards - NShards mod length (Groups cfg) \<and> set blocks = fst ` set (Groups cfg) \<and>
     (\<forall>g \<in> fst ` set (Groups cfg). count_list blocks g = NShards div length (Groups cfg)) \<and>
     (\<forall>cfg'. fst ` set (Groups cfg') = fst ` set (Groups cfg) \<and> cfg_wf cfg' \<longrightarrow> take (length blocks) (assigned cfg') = blocks)"
proof -
  let ?ids = "sort (map fst (Groups cfg))" and ?n = "length (Groups cfg)"
  let ?per = "NShards div ?n"
  let ?blocks = "concat (map (replicate ?per) ?ids)"
  have ids: "?ids \<noteq> []" "length ?ids = ?n" "set ?ids = fst ` set (Groups cfg)" "distinct ?ids"
    using assms(1,2) by (auto simp: cfg_wf_def simp flip: set_empty)
  have per: "0 < ?per" using assms(2,3) by (simp add: div_greater_zero_iff)
  have len: "length ?blocks = NShards - NShards mod ?n"
    using ids(2) by (simp add: length_concat_replicate minus_mod_eq_div_mult)
  then have pn: "?per * ?n = NShards - NShards mod ?n" using ids(2) by (simp add: length_concat_replicate)
  have a: "assigned cfg = ?blocks @ drop (NShards - NShards mod ?n) (Shards cfg)"
    using ids(1,2) assms(3) pn by (simp add: assigned_def Let_def)
  have cnt: "\<forall>g \<in> fst ` set (Groups cfg). count_list ?blocks g = ?per"
    using count_concat_replicate [OF ids(4), of ?per] ids(3) by simp
  have ord: "take (length ?blocks) (assigned cfg') = ?blocks"
    if "fst ` set (Groups cfg') = fst ` set (Groups cfg)" "cfg_wf cfg'" for cfg'
  proof -
    have "sort (map fst (Groups cfg')) = ?ids"
      using that ids(3,4) by (intro sorted_distinct_set_unique) (auto simp: cfg_wf_def)
    then show ?thesis using ids(1,2) assms(3) by (simp add: assigned_def Let_def)
  qed
  have "length (Shards cfg) = NShards" using assms(1) by (simp add: cfg_wf_def)
  from rebalance_assigned [OF this] a len set_concat_replicate [OF per, of ?ids] ids(3) cnt ord
  show ?thesis by (intro exI [of _ ?blocks]) auto
qed

definition two_groups :: Config where
  "two_groups = zero_config\<lparr>Groups := [(7, [''s'']), (3, [''t''])]\<rparr>"

theorem rebalance_balances_witness:
  "\<exists>blocks. rebalance two_groups = Inr (two_groups\<lparr>Shards := blocks @ drop (NShards - NShards mod 2) (Shards two_groups)\<rparr>) \<and>
     length blocks = 10 \<and> set blocks = {7, 3}"
proof -
  have "cfg_wf two_groups" "Groups two_groups \<noteq> []" "length (Groups two_groups) \<le> NShards"
    by (simp_all add: two_groups_def zero_config_def cfg_wf_def NShards_def)
  from rebalance_balances [OF this] obtain blocks where
    "rebalance two_groups = Inr (two_groups\<lparr>Shards := blocks @ drop (NShards - NShards mod length (Groups two_groups)) (Shards two_groups)\<rparr>)"
    "length blocks = NShards - NShards mod length (Groups two_groups)" "set blocks = fst ` set (Groups two_groups)" by blast
  moreover have "length (Groups two_groups) = 2" "fst ` set (Groups two_groups) = {7, 3}" by (simp_all add: two_groups_def)
  ultimately show ?thesis by (intro exI [of _ blocks]) (simp_all add: NShards_def)
qed

subsection \<open>The history of configurations\<close>

definition valid_op :: "SM_Op \<Rightarrow> bool" where
  "valid_op op \<longleftrightarrow> (sm_Optype op = MoveType \<longrightarrow> 0 \<le> Shard op \<and> Shard op < int NShards)"

lemma distinct_join_group: "distinct (map fst groups) \<Longrightarrow> distinct (map fst (join_group groups kv))"
  by (auto simp: join_group_def distinct_update split: option.splits)

lemma distinct_join_groups: "distinct (map fst groups) \<Longrightarrow> distinct (map fst (foldl join_group groups kvs))"
  by (induction kvs arbitrary: groups) (simp_all add: distinct_join_group)

lemma map_of_join_groups:
  assumes "distinct (map fst kvs)"
  shows "map_of (foldl join_group groups kvs) k =
     (case map_of kvs k of None \<Rightarrow> map_of groups k
      | Some v \<Rightarrow> Some (case map_of groups k of None \<Rightarrow> v | Some old \<Rightarrow> old @ v))"
  using assms
proof (induction kvs arbitrary: groups)
  case (Cons kv kvs)
  have "map_of (join_group groups kv) k' =
      (if k' = fst kv then Some (case map_of groups k' of None \<Rightarrow> snd kv | Some old \<Rightarrow> old @ snd kv) else map_of groups k')" for k'
    by (auto simp: join_group_def update_conv' split: option.splits)
  moreover have "map_of kvs (fst kv) = None" using Cons.prems by (simp add: map_of_eq_None_iff)
  ultimately show ?case using Cons by (cases kv) (auto split: option.splits)
qed simp

lemma join_groups_perm:
  assumes "distinct (map fst kvs)" "mset kvs = mset kvs'"
  shows "map_of (foldl join_group groups kvs) = map_of (foldl join_group groups kvs')"
proof -
  have d: "distinct (map fst kvs')" using assms by (metis mset_map mset_eq_imp_distinct_iff)
  have "map_of kvs = map_of kvs'" using assms d by (metis map_of_inject_set mset_eq_setD)
  then show ?thesis by (intro ext) (simp add: map_of_join_groups assms(1) d)
qed

lemma leave_groups_wf:
  "distinct (map fst (fst gs)) \<Longrightarrow> distinct (map fst (fst (foldl leave_group gs keys))) \<and>
     length (snd (foldl leave_group gs keys)) = length (snd gs)"
  by (induction keys arbitrary: gs) (simp_all add: leave_group_def distinct_delete)

lemma new_config_wf:
  assumes "cfg_wf old" "valid_op op"
  shows "\<exists>cfg. new_config old op = Inr cfg \<and> cfg_wf cfg \<and> Num cfg = Num old + 1"
proof -
  have r: "cfg_wf cfg \<Longrightarrow> rebalance cfg = Inr (cfg\<lparr>Shards := assigned cfg\<rparr>) \<and> cfg_wf (cfg\<lparr>Shards := assigned cfg\<rparr>)" for cfg
    using rebalance_assigned [of cfg] length_assigned [of cfg] by (simp add: cfg_wf_def)
  let ?c = "\<lparr>Num = Num old + 1, Shards = Shards old, Groups = Groups old\<rparr>"
  have "cfg_wf (?c\<lparr>Groups := foldl join_group (Groups old) (Servers op)\<rparr>)" "cfg_wf ?c"
    "cfg_wf (?c\<lparr>Groups := fst (foldl leave_group (Groups old, Shards old) (GIDs op)),
       Shards := snd (foldl leave_group (Groups old, Shards old) (GIDs op))\<rparr>)"
    "cfg_wf (?c\<lparr>Shards := (Shards old)[nat (Shard op) := GID op]\<rparr>)"
    using assms(1) distinct_join_groups leave_groups_wf [of "(Groups old, Shards old)" "GIDs op"]
    by (auto simp: cfg_wf_def)
  note w = this [THEN r]
  show ?thesis
    using assms w
    by (cases "sm_Optype op") (auto simp: new_config_def valid_op_def put_at_def cfg_wf_def split: prod.splits)
qed

text \<open>A change that the servers can execute: not a query, and a shard that exists.\<close>

abbreviation is_change :: "SM_Op \<Rightarrow> bool" where
  "is_change op \<equiv> sm_Optype op \<noteq> QueryType \<and> valid_op op"

definition sm_change :: "Config list \<times> (int32 \<rightharpoonup> int) \<Rightarrow> SM_Op \<Rightarrow> Config list \<times> (int32 \<rightharpoonup> int)" where
  "sm_change s op =
     (if is_change op then case apply_change s op of Inr s' \<Rightarrow> s' | Inl _ \<Rightarrow> s else s)"

definition sm_inv :: "Config list \<times> (int32 \<rightharpoonup> int) \<Rightarrow> bool" where
  "sm_inv s \<longleftrightarrow> fst s \<noteq> [] \<and> (\<forall>cfg \<in> set (fst s). cfg_wf cfg)"

text \<open>The numbers seen per client; nothing seen is below every number.\<close>

abbreviation sm_seen :: "Config list \<times> (int32 \<rightharpoonup> int) \<Rightarrow> int32 \<Rightarrow> int option" where
  "sm_seen s c \<equiv> snd s c"

abbreviation sm_number :: "SM_Op \<Rightarrow> int option" where
  "sm_number op \<equiv> Some (sm_ProposalID op)"

lemma apply_change_new:
  assumes "sm_inv s" "valid_op op" "sm_seen s (sm_ClientID op) < sm_number op"
  shows "\<exists>cfg. new_config (last (fst s)) op = Inr cfg \<and> cfg_wf cfg \<and> Num cfg = Num (last (fst s)) + 1 \<and>
     apply_change s op = Inr (fst s @ [cfg], (snd s)(sm_ClientID op \<mapsto> sm_ProposalID op))"
proof -
  have "cfg_wf (last (fst s))" using assms(1) by (simp add: sm_inv_def)
  from new_config_wf [OF this assms(2)] obtain cfg where c: "new_config (last (fst s)) op = Inr cfg" "cfg_wf cfg"
    "Num cfg = Num (last (fst s)) + 1" by blast
  have "\<not> (case snd s (sm_ClientID op) of None \<Rightarrow> False | Some n \<Rightarrow> n \<ge> sm_ProposalID op)"
    using assms(3) by (cases "snd s (sm_ClientID op)") auto
  then show ?thesis using c assms(1) by (auto simp: apply_change_def sm_inv_def at_last)
qed

lemma apply_change_old:
  "sm_number op \<le> sm_seen s (sm_ClientID op) \<Longrightarrow> apply_change s op = Inr s"
  by (cases "snd s (sm_ClientID op)") (auto simp: apply_change_def)

lemma sm_change_new:
  assumes "sm_inv s" "is_change op" "sm_seen s (sm_ClientID op) < sm_number op"
  shows "\<exists>cfg. new_config (last (fst s)) op = Inr cfg \<and> cfg_wf cfg \<and> Num cfg = Num (last (fst s)) + 1 \<and>
     sm_change s op = (fst s @ [cfg], (snd s)(sm_ClientID op \<mapsto> sm_ProposalID op))"
  using apply_change_new [OF assms(1) _ assms(3)] assms(2) by (auto simp: sm_change_def)

interpretation sms: at_most_once sm_change sm_inv sm_seen is_change sm_ClientID sm_number
proof
  fix s op
  assume inv: "sm_inv s"
  show "sm_inv (sm_change s op)"
  proof (cases "is_change op \<and> sm_seen s (sm_ClientID op) < sm_number op")
    case True
    then show ?thesis using sm_change_new [OF inv] inv by (fastforce simp: sm_inv_def)
  next
    case False
    then have "sm_change s op = s"
      using apply_change_old [of op s] by (auto simp: sm_change_def not_less)
    then show ?thesis using inv by simp
  qed
  show "\<not> is_change op \<Longrightarrow> sm_change s op = s" by (auto simp: sm_change_def)
  show "is_change op \<Longrightarrow> sm_number op \<le> sm_seen s (sm_ClientID op) \<Longrightarrow> sm_change s op = s"
    using apply_change_old [of op s] by (simp add: sm_change_def)
  show "is_change op \<Longrightarrow> sm_seen s (sm_ClientID op) < sm_number op \<Longrightarrow>
      sm_seen (sm_change s op) = (sm_seen s)(sm_ClientID op := sm_number op)"
    using sm_change_new [OF inv] by fastforce
qed

text \<open>The history that a list of changes prescribes.\<close>

fun config_run :: "Config \<Rightarrow> SM_Op list \<Rightarrow> Config list" where
  "config_run cfg [] = [cfg]"
| "config_run cfg (op # ops) = cfg # (case new_config cfg op of Inr c \<Rightarrow> config_run c ops | Inl _ \<Rightarrow> [])"

lemma executed_run:
  assumes "sm_inv (cs @ [cfg], seq)"
  shows "fst (foldl sm_change (cs @ [cfg], seq) ops) =
     cs @ config_run cfg (executed is_change sm_ClientID sm_number seq ops)"
  using assms
proof (induction ops arbitrary: cs cfg seq)
  case (Cons op ops)
  show ?case
  proof (cases "is_change op \<and> seq (sm_ClientID op) < sm_number op")
    case True
    then obtain c where c: "new_config cfg op = Inr c" "cfg_wf c"
      and s: "sm_change (cs @ [cfg], seq) op = ((cs @ [cfg]) @ [c], seq(sm_ClientID op \<mapsto> sm_ProposalID op))"
      using sm_change_new [OF Cons.prems, of op] by auto
    have "sm_inv ((cs @ [cfg]) @ [c], seq(sm_ClientID op \<mapsto> sm_ProposalID op))"
      using Cons.prems c(2) by (auto simp: sm_inv_def)
    from Cons.IH [OF this] show ?thesis using True c(1) by (simp add: s del: fun_upd_apply)
  next
    case False
    then have "sm_change (cs @ [cfg], seq) op = (cs @ [cfg], seq)"
      using sms.reads [OF Cons.prems] sms.skips [OF Cons.prems] by (auto simp: not_less)
    then show ?thesis using False Cons by auto
  qed
qed simp

lemma config_run_wf:
  assumes "cfg_wf cfg" "\<And>op. op \<in> set ops \<Longrightarrow> valid_op op" "i < length (config_run cfg ops)"
  shows "cfg_wf (config_run cfg ops ! i) \<and> Num (config_run cfg ops ! i) = Num cfg + int i"
  using assms
proof (induction ops arbitrary: cfg i)
  case (Cons op ops)
  obtain c where c: "new_config cfg op = Inr c" "cfg_wf c" "Num c = Num cfg + 1"
    using new_config_wf [OF Cons.prems(1)] Cons.prems(2) by fastforce
  show ?case
  proof (cases i)
    case (Suc j)
    then have "cfg_wf (config_run c ops ! j) \<and> Num (config_run c ops ! j) = Num c + int j"
      using Cons.prems(2,3) c(1) by (intro Cons.IH c(2)) auto
    then show ?thesis using Suc c by simp
  qed (use Cons.prems in simp)
qed simp

lemma sm_change_extends: "sm_inv s \<Longrightarrow> \<exists>more. fst (foldl sm_change s ops) = fst s @ more"
proof (induction ops arbitrary: s)
  case (Cons op ops)
  have "\<exists>more. fst (sm_change s op) = fst s @ more"
    using sm_change_new [OF Cons.prems, of op] sms.reads [OF Cons.prems, of op] sms.skips [OF Cons.prems, of op]
    by (cases "is_change op \<and> sm_seen s (sm_ClientID op) < sm_number op") (fastforce simp: not_less)+
  then show ?case using Cons.IH [OF sms.keeps [OF Cons.prems, of op]] by auto
qed simp

abbreviation sm_executed :: "SM_Op list \<Rightarrow> SM_Op list" where
  "sm_executed ops \<equiv> executed is_change sm_ClientID sm_number (\<lambda>_. None) ops"

text \<open>C21: whatever requests are applied, with any repetitions, the list of configurations is the
  history that the executed changes prescribe from the initial configuration: configuration \<open>i\<close> has
  number \<open>i\<close> and is well-formed, later requests only append, every change of a client is executed at
  most once, and if each client's requests arrive in order every change is executed.\<close>

theorem configuration_history:
  "\<exists>cs. fst (foldl sm_change ([zero_config], Map.empty) ops) = cs \<and> cs = config_run zero_config (sm_executed ops) \<and>
     (\<forall>i < length cs. Num (cs ! i) = int i \<and> cfg_wf (cs ! i)) \<and>
     (\<forall>later. \<exists>more. fst (foldl sm_change ([zero_config], Map.empty) (ops @ later)) = cs @ more) \<and>
     distinct (map (\<lambda>op. (sm_ClientID op, sm_number op)) (sm_executed ops)) \<and>
     (in_order is_change sm_ClientID sm_number None [] ops \<longrightarrow>
        (\<forall>op. op \<in> set ops \<and> is_change op \<longrightarrow>
           (\<exists>y \<in> set (sm_executed ops). sm_ClientID y = sm_ClientID op \<and> sm_number y = sm_number op)))"
proof -
  let ?s = "([zero_config], Map.empty) :: Config list \<times> (int32 \<rightharpoonup> int)"
  have inv: "sm_inv ?s" by (simp add: sm_inv_def cfg_wf_def zero_config_def)
  have run: "fst (foldl sm_change ?s ops) = config_run zero_config (sm_executed ops)"
    using executed_run [of "[]" zero_config Map.empty ops] inv by simp
  have "valid_op op" if "op \<in> set (sm_executed ops)" for op
    using that executed_subset [of is_change sm_ClientID sm_number "\<lambda>_. None" ops] by auto
  then have num: "\<forall>i < length (config_run zero_config (sm_executed ops)).
      Num (config_run zero_config (sm_executed ops) ! i) = int i \<and> cfg_wf (config_run zero_config (sm_executed ops) ! i)"
    using config_run_wf [of zero_config "sm_executed ops"] inv by (auto simp: sm_inv_def zero_config_def)
  have ext: "\<exists>more. fst (foldl sm_change ?s (ops @ later)) = fst (foldl sm_change ?s ops) @ more" for later
    using sm_change_extends [OF sms.inv_foldl [OF inv, of ops], of later] by simp
  have all: "in_order is_change sm_ClientID sm_number None [] ops \<longrightarrow> (\<forall>op. op \<in> set ops \<and> is_change op \<longrightarrow>
      (\<exists>y \<in> set (sm_executed ops). sm_ClientID y = sm_ClientID op \<and> sm_number y = sm_number op))"
    using executed_all [of is_change sm_ClientID sm_number None ops] by blast
  show ?thesis
    by (rule exI [of _ "config_run zero_config (sm_executed ops)"])
      (intro conjI run refl num allI ext [unfolded run] all executed_distinct)
qed

definition join_three :: SM_Op where
  "join_three = join_op \<lparr>JA_ClientID = 1, JA_CommSeq = 0, JA_Servers = [(1, [''a'']), (2, [''b'']), (3, [''c''])]\<rparr>"

lemma join_three_run:
  "\<exists>c. new_config zero_config join_three = Inr c \<and> Shards c = [1, 1, 1, 2, 2, 2, 3, 3, 3, 0] \<and>
     Groups c = [(1, [''a'']), (2, [''b'']), (3, [''c''])]"
proof -
  let ?g = "[(1, [''a'']), (2, [''b'']), (3, [''c''])] :: (int \<times> string list) list"
  let ?c = "\<lparr>Num = 1, Shards = replicate NShards 0, Groups = ?g\<rparr>"
  have j: "new_config zero_config join_three = rebalance ?c"
    by (simp add: new_config_def join_three_def join_op_def zero_op_def zero_config_def join_group_def)
  have r: "replicate 3 x = [x, x, x]" for x :: int by (simp add: numeral_3_eq_3)
  have "sort (map fst ?g) = [1, 2, 3]" "length [1, 2, 3 :: int] = 3" "NShards div 3 = 3" "NShards - 9 = Suc 0" "3 \<le> NShards"
    by (simp_all add: NShards_def)
  then have "assigned ?c = [1, 1, 1, 2, 2, 2, 3, 3, 3, 0]"
    unfolding assigned_def Let_def by (simp add: r)
  then show ?thesis using rebalance_assigned [of ?c] by (simp add: j)
qed

theorem configuration_history_witness:
  "\<exists>cs. fst (foldl sm_change ([zero_config], Map.empty) [join_three, join_three]) = cs \<and> length cs = 2 \<and>
     Num (cs ! 1) = 1 \<and> (\<exists>y \<in> set (sm_executed [join_three, join_three]). sm_ClientID y = 1)"
proof -
  have f: "sm_Optype join_three = JoinType" "sm_ClientID join_three = 1" "sm_ProposalID join_three = 0" "valid_op join_three"
    by (simp_all add: join_three_def join_op_def zero_op_def valid_op_def)
  have ex: "sm_executed [join_three, join_three] = [join_three]" by (simp add: f)
  obtain c where c: "new_config zero_config join_three = Inr c" using join_three_run by blast
  have "in_order is_change sm_ClientID sm_number None [] [join_three, join_three]" by (simp add: f)
  then show ?thesis
    using configuration_history [of "[join_three, join_three]"] by (auto simp: ex c f)
qed

subsection \<open>Where the configurations are not what a client expects\<close>

text \<open>\<open>Move\<close> has no effect on a balanced configuration whose groups divide the shards evenly,
  because every command is followed by a rebalancing: the new configuration has the old assignment and
  only a new number. The comment in \<open>common.go\<close> says that \<open>Move\<close> hands the shard to the group.\<close>

theorem Move_is_undone:
  assumes "cfg_wf cfg" "Groups cfg \<noteq> []" "length (Groups cfg) dvd NShards" "Shards cfg = assigned cfg"
    and "sm_Optype op = MoveType" "0 \<le> Shard op" "Shard op < int NShards"
  shows "new_config cfg op = Inr (cfg\<lparr>Num := Num cfg + 1\<rparr>)"
proof -
  let ?c = "\<lparr>Num = Num cfg + 1, Shards = (Shards cfg)[nat (Shard op) := GID op], Groups = Groups cfg\<rparr>"
  have len: "length (Shards cfg) = NShards" using assms(1) by (simp add: cfg_wf_def)
  have le: "length (Groups cfg) \<le> NShards" using assms(3) by (intro dvd_imp_le) (simp_all add: NShards_def)
  have "NShards div length (Groups cfg) * length (Groups cfg) = NShards" using assms(3) by simp
  moreover have "sort (map fst (Groups cfg)) \<noteq> []" using assms(2) by (metis length_0_conv length_map length_sort)
  ultimately have "assigned ?c = assigned cfg" using le len by (simp add: assigned_def Let_def)
  then have "rebalance ?c = Inr (cfg\<lparr>Num := Num cfg + 1\<rparr>)"
    using rebalance_assigned [of ?c] len assms(4) by simp
  then show ?thesis using assms(5-7) len by (simp add: new_config_def put_at_def)
qed

definition balanced_pair :: Config where
  "balanced_pair = two_groups\<lparr>Shards := assigned two_groups\<rparr>"

theorem Move_is_undone_witness:
  "new_config balanced_pair (move_op \<lparr>MA_ClientID = 1, MA_CommSeq = 5, MA_Shard = 0, MA_GID = 7\<rparr>) =
     Inr (balanced_pair\<lparr>Num := 1\<rparr>)"
proof -
  let ?op = "move_op \<lparr>MA_ClientID = 1, MA_CommSeq = 5, MA_Shard = 0, MA_GID = 7\<rparr>"
  have two: "length (Groups two_groups) = 2" "Groups two_groups \<noteq> []" "length (Shards two_groups) = NShards"
    "distinct (map fst (Groups two_groups))"
    by (simp_all add: two_groups_def zero_config_def)
  have "NShards div 2 * 2 = NShards" "2 \<le> NShards" by (simp_all add: NShards_def)
  then have a: "assigned balanced_pair = assigned two_groups"
    using two by (simp add: balanced_pair_def assigned_def Let_def length_concat_replicate)
  have "cfg_wf balanced_pair" "Groups balanced_pair \<noteq> []" "length (Groups balanced_pair) dvd NShards"
    "Shards balanced_pair = assigned balanced_pair"
    using two length_assigned [OF two(3)] unfolding a by (simp_all add: balanced_pair_def cfg_wf_def NShards_def)
  moreover have "sm_Optype ?op = MoveType" "0 \<le> Shard ?op" "Shard ?op < int NShards"
    by (simp_all add: move_op_def zero_op_def NShards_def)
  ultimately have "new_config balanced_pair ?op = Inr (balanced_pair\<lparr>Num := Num balanced_pair + 1\<rparr>)"
    by (rule Move_is_undone)
  then show ?thesis by (simp add: balanced_pair_def two_groups_def zero_config_def)
qed

text \<open>The loop that hands out the remaining shards does not advance its index. After three
  groups have joined a fresh master, shard 9 still belongs to the invalid group 0.\<close>

theorem Join_of_three_leaves_a_shard:
  "\<exists>cfg. new_config zero_config join_three = Inr cfg \<and> Shards cfg ! 9 = 0 \<and> 0 \<notin> fst ` set (Groups cfg)"
  using join_three_run by (auto simp: numeral_eq_Suc)

subsection \<open>Queries\<close>

text \<open>C23: a query that has been applied is answered with the configuration of the asked number, or
  the latest one if there is none of that number; the stored answer is then removed.\<close>

theorem Query_answers_asked_configuration:
  assumes "sm_inv (configs sm, sm_seq sm)" "GetLeaderNum (raft (sm_rf sm)) = sm_me sm" "index \<le> sm_curCommitIndex sm"
  shows "\<exists>sm1 sm2 reply. sm_apply sm (query_op args) = Inr sm1 \<and> Query_poll sm1 args index = (sm2, Replied reply) \<and>
     \<not> QR_WrongLeader reply \<and>
     QR_Config reply = (if 0 \<le> QA_Num args \<and> QA_Num args < int (length (configs sm))
                        then configs sm ! nat (QA_Num args) else last (configs sm)) \<and>
     configs sm2 = configs sm \<and> sm_resultMap sm2 (commID (QA_ClientID args) (QA_CommSeq args)) = None"
proof -
  let ?in = "0 \<le> QA_Num args \<and> QA_Num args < int (length (configs sm))"
  let ?c = "if ?in then configs sm ! nat (QA_Num args) else last (configs sm)"
  have "configs sm \<noteq> []" using assms(1) by (simp add: sm_inv_def)
  then have "(if ?in then at (configs sm) (QA_Num args) else at (configs sm) (int (length (configs sm)) - 1)) = Inr ?c"
    using at_in_range [of "QA_Num args" "configs sm"] at_last [of "configs sm"] by simp
  then have "sm_apply sm (query_op args) =
      Inr (sm\<lparr>sm_resultMap := (sm_resultMap sm)(commID (QA_ClientID args) (QA_CommSeq args) \<mapsto> ?c)\<rparr>)"
    by (cases ?in) (auto simp: sm_apply_def query_op_def zero_op_def)
  then show ?thesis using assms(2,3) by (simp add: Query_poll_def Let_def)
qed

definition leading_master :: ShardMaster where
  "leading_master = \<lparr>sm_me = 1, sm_rf = \<lparr>raft = zero_raft\<lparr>me := 1, leaderNum := 1\<rparr>, role = R_Main\<rparr>, sm_received = 0,
     sm_curCommitIndex = 0, configs = [zero_config, two_groups\<lparr>Num := 1\<rparr>], sm_seq = Map.empty, sm_resultMap = Map.empty\<rparr>"

definition ask_latest :: QueryArgs where
  "ask_latest = \<lparr>QA_ClientID = 1, QA_CommSeq = 4, QA_Num = -1\<rparr>"

theorem Query_answers_asked_configuration_witness:
  "\<exists>sm1 sm2 reply. sm_apply leading_master (query_op ask_latest) = Inr sm1 \<and>
     Query_poll sm1 ask_latest 0 = (sm2, Replied reply) \<and> Num (QR_Config reply) = 1"
proof -
  have "sm_inv (configs leading_master, sm_seq leading_master)"
    "GetLeaderNum (raft (sm_rf leading_master)) = sm_me leading_master" "0 \<le> sm_curCommitIndex leading_master"
    by (simp_all add: leading_master_def sm_inv_def cfg_wf_def two_groups_def zero_config_def GetLeaderNum_def zero_raft_def)
  from Query_answers_asked_configuration [OF this, of ask_latest] show ?thesis
    by (auto simp: leading_master_def ask_latest_def)
qed

text \<open>The main loop raises the commit index before it applies the command. A query handler that
  looks in between finds its index reached and no result, and answers with the zero configuration, which
  has number 0 and no groups.\<close>

theorem Query_answers_before_it_is_applied:
  "\<exists>sm1 sm2 reply. sm_note_index leading_master (cmd_msg (Some (query_op ask_latest)) 1) = Inr (sm1, query_op ask_latest) \<and>
     Query_poll sm1 ask_latest 1 = (sm2, Replied reply) \<and> \<not> QR_WrongLeader reply \<and> QR_Config reply = zero_config \<and>
     last (configs sm1) \<noteq> zero_config"
  by (simp add: sm_note_index_def leading_master_def cmd_msg_def Query_poll_def GetLeaderNum_def zero_raft_def
      two_groups_def zero_config_def)

text \<open>A \<open>Move\<close> of a shard that does not exist is not refused anywhere: every replica panics when it
  applies it, and again after a restart.\<close>

theorem Move_out_of_range_panics:
  assumes "sm_inv (configs sm, sm_seq sm)" "sm_Optype op = MoveType" "\<not> valid_op op"
    and "sm_seq sm (sm_ClientID op) = None"
  shows "sm_apply sm op = Inl IndexOutOfRange"
proof -
  have "length (Shards (last (configs sm))) = NShards" using assms(1) by (auto simp: sm_inv_def cfg_wf_def)
  then have "new_config (last (configs sm)) op = Inl IndexOutOfRange"
    using assms(2,3) by (auto simp: new_config_def valid_op_def put_at_def)
  then show ?thesis
    using assms by (simp add: sm_apply_def apply_change_def sm_inv_def at_last)
qed

theorem Move_out_of_range_panics_witness:
  "sm_apply leading_master (move_op \<lparr>MA_ClientID = 1, MA_CommSeq = 5, MA_Shard = 10, MA_GID = 7\<rparr>) = Inl IndexOutOfRange"
  by (rule Move_out_of_range_panics)
    (simp_all add: leading_master_def sm_inv_def cfg_wf_def two_groups_def zero_config_def valid_op_def move_op_def
      zero_op_def NShards_def)

end
