(* ===== verification/Shard_Clerks.thy ===== *)
theory Shard_Clerks
  imports Shard_Master
begin

section \<open>The clients of the sharded service\<close>

text \<open>
  \<^verbatim>\<open>src/shardmaster/client.go\<close>, \<^verbatim>\<open>src/shardkv/client.go\<close>, \<^verbatim>\<open>src/shardkv/common.go\<close> and
  \<^verbatim>\<open>src/shardkv/server.go\<close>. A client's loop asks the servers one after the other, again and again; what
  the calls return is an argument (\<open>None\<close> for a failed call), in the order of the calls, and the result is
  \<open>None\<close> while the loop goes on. The sharded servers themselves are empty handlers.
\<close>

subsection \<open>The shard master's clerk\<close>

record SM_Clerk =
  smck_servers :: nat
  smck_ID :: int32
  requestSeq :: int

definition sm_MakeClerk :: "nat \<Rightarrow> nat \<Rightarrow> SM_Clerk" where
  "sm_MakeClerk servers x = \<lparr>smck_servers = servers, smck_ID = word_of_int (int x mod 2 ^ 62), requestSeq = 0\<rparr>"

text \<open>The loop that \<open>Query\<close>, \<open>Join\<close>, \<open>Leave\<close> and \<open>Move\<close> share: the first answer of a leader.\<close>

fun try_servers :: "('r \<Rightarrow> bool) \<Rightarrow> 'r option list \<Rightarrow> 'r option" where
  "try_servers wrongLeader [] = None"
| "try_servers wrongLeader (Some reply # calls) =
     (if \<not> wrongLeader reply then Some reply else try_servers wrongLeader calls)"
| "try_servers wrongLeader (None # calls) = try_servers wrongLeader calls"

definition sm_next_request :: "SM_Clerk \<Rightarrow> SM_Clerk \<times> int32 \<times> int" where
  "sm_next_request ck = (ck\<lparr>requestSeq := requestSeq ck + 1\<rparr>, smck_ID ck, requestSeq ck)"

definition Clerk_Query :: "SM_Clerk \<Rightarrow> int \<Rightarrow> QueryReply option list \<Rightarrow> SM_Clerk \<times> QueryArgs \<times> Config option" where
  "Clerk_Query ck num calls =
     (case sm_next_request ck of (ck, cid, seq) \<Rightarrow>
        (ck, \<lparr>QA_ClientID = cid, QA_CommSeq = seq, QA_Num = num\<rparr>,
         map_option QR_Config (try_servers QR_WrongLeader calls)))"

definition Clerk_Join :: "SM_Clerk \<Rightarrow> (int \<times> string list) list \<Rightarrow> ChangeReply option list \<Rightarrow> SM_Clerk \<times> JoinArgs \<times> bool" where
  "Clerk_Join ck servers calls =
     (case sm_next_request ck of (ck, cid, seq) \<Rightarrow>
        (ck, \<lparr>JA_ClientID = cid, JA_CommSeq = seq, JA_Servers = servers\<rparr>, try_servers CR_WrongLeader calls \<noteq> None))"

definition Clerk_Leave :: "SM_Clerk \<Rightarrow> int list \<Rightarrow> ChangeReply option list \<Rightarrow> SM_Clerk \<times> LeaveArgs \<times> bool" where
  "Clerk_Leave ck gids calls =
     (case sm_next_request ck of (ck, cid, seq) \<Rightarrow>
        (ck, \<lparr>LA_ClientID = cid, LA_CommSeq = seq, LA_GIDs = gids\<rparr>, try_servers CR_WrongLeader calls \<noteq> None))"

definition Clerk_Move :: "SM_Clerk \<Rightarrow> int \<Rightarrow> int \<Rightarrow> ChangeReply option list \<Rightarrow> SM_Clerk \<times> MoveArgs \<times> bool" where
  "Clerk_Move ck shard gid calls =
     (case sm_next_request ck of (ck, cid, seq) \<Rightarrow>
        (ck, \<lparr>MA_ClientID = cid, MA_CommSeq = seq, MA_Shard = shard, MA_GID = gid\<rparr>,
         try_servers CR_WrongLeader calls \<noteq> None))"

subsection \<open>The sharded key/value client\<close>

definition key2shard :: "string \<Rightarrow> int" where
  "key2shard key = (if length key > 0 then of_char (hd key) else 0) mod int NShards"

record SK_GetReply =
  SG_WrongLeader :: bool
  SG_Err :: string
  SG_Value :: string

record SK_PutAppendReply =
  SP_WrongLeader :: bool
  SP_Err :: string

text \<open>The servers of one group, in order, up to the first good answer or the first answer that names
  another group.\<close>

fun try_get :: "SK_GetReply option list \<Rightarrow> string option" where
  "try_get [] = None"
| "try_get (None # calls) = try_get calls"
| "try_get (Some r # calls) =
     (if \<not> SG_WrongLeader r \<and> (SG_Err r = ''OK'' \<or> SG_Err r = ''ErrNoKey'') then Some (SG_Value r)
      else if SG_Err r = ''ErrWrongGroup'' then None
      else try_get calls)"

fun try_put :: "SK_PutAppendReply option list \<Rightarrow> bool" where
  "try_put [] = False"
| "try_put (None # calls) = try_put calls"
| "try_put (Some r # calls) =
     (if \<not> SP_WrongLeader r \<and> SP_Err r = ''OK'' then True
      else if SP_Err r = ''ErrWrongGroup'' then False
      else try_put calls)"

text \<open>A round: the servers to ask, or \<open>None\<close> if the configuration has no such group.\<close>

definition shard_servers :: "Config \<Rightarrow> string \<Rightarrow> string list option result" where
  "shard_servers config key =
     rbind (at (Shards config) (key2shard key)) (\<lambda>gid. Inr (map_of (Groups config) gid))"

text \<open>The loops; a round is the answers of the group's servers and the configuration fetched after
  it. The new configuration is part of the clerk.\<close>

fun SK_Get :: "Config \<Rightarrow> string \<Rightarrow> (SK_GetReply option list \<times> Config) list \<Rightarrow> (Config \<times> string option) result" where
  "SK_Get config key [] = Inr (config, None)"
| "SK_Get config key ((calls, latest) # rounds) =
     rbind (shard_servers config key) (\<lambda>servers.
       case (case servers of None \<Rightarrow> None | Some ss \<Rightarrow> try_get (take (length ss) calls)) of
         Some v \<Rightarrow> Inr (config, Some v)
       | None \<Rightarrow> SK_Get latest key rounds)"

fun SK_PutAppend :: "Config \<Rightarrow> string \<Rightarrow> (SK_PutAppendReply option list \<times> Config) list \<Rightarrow> (Config \<times> bool) result" where
  "SK_PutAppend config key [] = Inr (config, False)"
| "SK_PutAppend config key ((calls, latest) # rounds) =
     rbind (shard_servers config key) (\<lambda>servers.
       if (case servers of None \<Rightarrow> False | Some ss \<Rightarrow> try_put (take (length ss) calls)) then Inr (config, True)
       else SK_PutAppend latest key rounds)"

text \<open>The handlers of \<open>ShardKV\<close> have empty bodies: the reply stays as it comes.\<close>

definition ShardKV_Get :: "SK_GetReply \<Rightarrow> SK_GetReply" where
  "ShardKV_Get reply = reply"

definition ShardKV_PutAppend :: "SK_PutAppendReply \<Rightarrow> SK_PutAppendReply" where
  "ShardKV_PutAppend reply = reply"

text \<open>A server with its peer; the channel to the service has no buffer, so that a start from a disk with a
  snapshot, which is sent before the server exists, blocks.\<close>

record 'c ShardKV =
  skv_me :: int
  skv_rf :: "'c node"
  skv_gid :: int
  skv_masters :: nat
  skv_maxraftstate :: int

definition ShardKV_StartServer :: "nat \<Rightarrow> int \<Rightarrow> 'c Persister \<Rightarrow> int \<Rightarrow> int \<Rightarrow> nat \<Rightarrow> 'c ShardKV result" where
  "ShardKV_StartServer servers i ps maxstate gid masters =
     rbind (Make servers i ps) (\<lambda>rf.
       if applyCh rf \<noteq> [] then Inl Blocked
       else Inr \<lparr>skv_me = i, skv_rf = \<lparr>raft = rf, role = R_Main\<rparr>, skv_gid = gid, skv_masters = masters, skv_maxraftstate = maxstate\<rparr>)"

definition ShardKV_Kill :: "'c ShardKV \<Rightarrow> 'c ShardKV" where
  "ShardKV_Kill kv = kv\<lparr>skv_rf := (skv_rf kv)\<lparr>raft := Kill (raft (skv_rf kv))\<rparr>\<rparr>"

text \<open>The clerk of the sharded service and its two kinds of write.\<close>

record SK_Clerk =
  sk_sm :: SM_Clerk
  sk_config :: Config

definition SK_MakeClerk :: "nat \<Rightarrow> nat \<Rightarrow> SK_Clerk" where
  "SK_MakeClerk masters x = \<lparr>sk_sm = sm_MakeClerk masters x, sk_config = zero_config\<rparr>"

record SK_PutAppendArgs =
  SPA_Key :: string
  SPA_Value :: string
  SPA_Op :: string

definition SK_write ::
  "SK_Clerk \<Rightarrow> string \<Rightarrow> string \<Rightarrow> string \<Rightarrow> (SK_PutAppendReply option list \<times> Config) list \<Rightarrow> (SK_PutAppendArgs \<times> SK_Clerk \<times> bool) result" where
  "SK_write ck key v op rounds =
     rbind (SK_PutAppend (sk_config ck) key rounds) (\<lambda>(config, done).
       Inr (\<lparr>SPA_Key = key, SPA_Value = v, SPA_Op = op\<rparr>, ck\<lparr>sk_config := config\<rparr>, done))"

definition SK_Put ::
  "SK_Clerk \<Rightarrow> string \<Rightarrow> string \<Rightarrow> (SK_PutAppendReply option list \<times> Config) list \<Rightarrow> (SK_PutAppendArgs \<times> SK_Clerk \<times> bool) result" where
  "SK_Put ck key v rounds = SK_write ck key v ''Put'' rounds"

definition SK_Append ::
  "SK_Clerk \<Rightarrow> string \<Rightarrow> string \<Rightarrow> (SK_PutAppendReply option list \<times> Config) list \<Rightarrow> (SK_PutAppendArgs \<times> SK_Clerk \<times> bool) result" where
  "SK_Append ck key v rounds = SK_write ck key v ''Append'' rounds"

subsection \<open>Properties\<close>

lemma key2shard_range: "0 \<le> key2shard key" "key2shard key < int NShards"
  by (simp_all add: key2shard_def NShards_def)

lemma try_servers_find:
  "try_servers w calls = map_option the (find (\<lambda>c. \<exists>r. c = Some r \<and> \<not> w r) calls)"
  by (induction w calls rule: try_servers.induct) auto

text \<open>Request numbers of one clerk never repeat, so that the master tells every request apart.\<close>

lemma sm_requests_distinct:
  "fst (sm_next_request ck) = ck' \<Longrightarrow> snd (snd (sm_next_request ck)) < snd (snd (sm_next_request ck')) \<and>
     fst (snd (sm_next_request ck')) = fst (snd (sm_next_request ck))"
  by (auto simp: sm_next_request_def)

lemma shard_servers_in_range:
  assumes "length (Shards config) = NShards"
  shows "shard_servers config key = Inr (map_of (Groups config) (Shards config ! nat (key2shard key)))"
  using assms key2shard_range [of key] by (simp add: shard_servers_def at_def)

lemma try_get_Some:
  "try_get calls = Some v \<Longrightarrow> \<exists>r. Some r \<in> set calls \<and> SG_Value r = v \<and> \<not> SG_WrongLeader r"
  by (induction calls rule: try_get.induct) (auto split: if_splits)

lemma try_get_zero:
  "(\<And>reply. Some reply \<in> set calls \<Longrightarrow> SG_Err reply = []) \<Longrightarrow> try_get calls = None"
  by (induction calls rule: try_get.induct) simp_all

text \<open>The value was sent, in one of the rounds, by a server of the group that owns the key's shard.\<close>

definition sent_by_owner :: "Config \<Rightarrow> string \<Rightarrow> (SK_GetReply option list \<times> Config) list \<Rightarrow> string \<Rightarrow> bool" where
  "sent_by_owner config key rounds v \<longleftrightarrow> (\<exists>calls \<in> fst ` set rounds. \<exists>servers reply.
     map_of (Groups config) (Shards config ! nat (key2shard key)) = Some servers \<and>
     Some reply \<in> set (take (length servers) calls) \<and> SG_Value reply = v \<and> \<not> SG_WrongLeader reply)"

lemma sent_by_owner_Cons: "sent_by_owner config key rounds v \<Longrightarrow> sent_by_owner config key (x # rounds) v"
  unfolding sent_by_owner_def by (meson image_mono set_subset_Cons subsetD)

lemma sent_by_owner_hd:
  assumes "map_of (Groups config) (Shards config ! nat (key2shard key)) = Some servers"
    and "try_get (take (length servers) calls) = Some v"
  shows "sent_by_owner config key ((calls, latest) # rounds) v"
  unfolding sent_by_owner_def using assms(1) try_get_Some [OF assms(2)] by (intro bexI [of _ calls]) auto

lemma SK_Get_step:
  assumes "length (Shards config) = NShards"
  shows "SK_Get config key ((calls, latest) # rounds) =
     (case map_of (Groups config) (Shards config ! nat (key2shard key)) of
        None \<Rightarrow> SK_Get latest key rounds
      | Some ss \<Rightarrow> (case try_get (take (length ss) calls) of
           Some v \<Rightarrow> Inr (config, Some v) | None \<Rightarrow> SK_Get latest key rounds))"
  by (simp add: shard_servers_in_range [OF assms] split: option.splits)


definition one_group :: Config where
  "one_group = zero_config\<lparr>Groups := [(0, [''s''])]\<rparr>"

lemma one_group_wf: "cfg_wf one_group" "length (Shards one_group) = NShards"
  by (simp_all add: one_group_def zero_config_def cfg_wf_def)


text \<open>The handlers of the sharded server are empty, so every answer has the zero reply's empty
  error, which the client takes for none of the codes it knows: no read ever returns.\<close>

theorem ShardKV_never_answers:
  assumes "\<And>calls c reply. (calls, c) \<in> set rounds \<Longrightarrow> Some reply \<in> set calls \<Longrightarrow>
      reply = ShardKV_Get \<lparr>SG_WrongLeader = False, SG_Err = [], SG_Value = []\<rparr>"
    and "SK_Get config key rounds = Inr (config', r)"
  shows "r = None"
  using assms
proof (induction rounds arbitrary: config)
  case (Cons round rounds)
  obtain calls latest where round: "round = (calls, latest)" by (cases round)
  have zero: "SG_Err reply = []" if "Some reply \<in> set (take n calls)" for reply n
    using Cons.prems(1) [of calls latest reply] in_set_takeD [OF that] by (simp add: round ShardKV_Get_def)
  then have calls: "try_get (take n calls) = None" for n by (rule try_get_zero)
  obtain servers where s: "shard_servers config key = Inr servers"
    using Cons.prems(2) by (auto simp: round rbind_Inr_conv)
  have "SK_Get latest key rounds = Inr (config', r)"
    using Cons.prems(2) by (cases servers) (simp_all add: round s calls)
  then show ?case using Cons.IH [of latest] Cons.prems(1) by (metis list.set_intros(2))
qed simp

theorem ShardKV_never_answers_witness:
  "\<exists>config' r. SK_Get one_group ''key'' [([Some (ShardKV_Get \<lparr>SG_WrongLeader = False, SG_Err = [], SG_Value = []\<rparr>)], one_group)] =
     Inr (config', r) \<and> r = None"
proof -
  let ?rounds = "[([Some (ShardKV_Get \<lparr>SG_WrongLeader = False, SG_Err = [], SG_Value = []\<rparr>)], one_group)]"
  have "\<exists>x. SK_Get one_group ''key'' ?rounds = Inr x"
    unfolding SK_Get_step [OF one_group_wf(2)] by (simp split: option.split)
  then obtain config' r where r: "SK_Get one_group ''key'' ?rounds = Inr (config', r)" by (metis prod.exhaust)
  have "r = None" by (rule ShardKV_never_answers [OF _ r]) auto
  with r show ?thesis by blast
qed

end
