(* ===== verification/Lin_Bitset.thy ===== *)
theory Lin_Bitset
  imports Go_Prelude
begin

unbundle bit_operations_syntax

section \<open>Bit sets of the linearizability checker\<close>

text \<open>
  \<^verbatim>\<open>src/linearizability/bitset.go\<close>: a set of small numbers as a slice of 64-bit words. The definitions are
  the functions of that file; a method that writes returns the slice it wrote into, so that a slice is
  passed on as a value. \<open>bits_of\<close> is the set a slice stands for, the locale \<open>position_set\<close> what the
  checker relies on, and \<open>popcnt\<close>, which counts bits in parallel fields of a word, is shown to be the
  size of that set.
\<close>

subsection \<open>The operations\<close>

type_synonym bitset = "uint64 list"

definition newBitset :: "nat \<Rightarrow> bitset" where
  "newBitset bits =
     (let extra = (if bits mod 64 \<noteq> 0 then 1 else 0); chunks = bits div 64 + extra
      in replicate chunks 0)"

definition bitset_clone :: "bitset \<Rightarrow> bitset" where
  "bitset_clone b = (let dataCopy = replicate (length b) 0 in take (length dataCopy) b @ drop (length b) dataCopy)"

definition bitsetIndex :: "nat \<Rightarrow> nat \<times> nat" where
  "bitsetIndex pos = (pos div 64, pos mod 64)"

definition bitset_set :: "bitset \<Rightarrow> nat \<Rightarrow> bitset result" where
  "bitset_set b pos =
     (case bitsetIndex pos of (major, minor) \<Rightarrow>
        rbind (at b (int major)) (\<lambda>v. put_at b (int major) (v OR push_bit minor 1)))"

definition bitset_clear :: "bitset \<Rightarrow> nat \<Rightarrow> bitset result" where
  "bitset_clear b pos =
     (case bitsetIndex pos of (major, minor) \<Rightarrow>
        rbind (at b (int major)) (\<lambda>v. put_at b (int major) (v AND NOT (push_bit minor 1))))"

definition bitset_get :: "bitset \<Rightarrow> nat \<Rightarrow> bool result" where
  "bitset_get b pos =
     (case bitsetIndex pos of (major, minor) \<Rightarrow>
        rbind (at b (int major)) (\<lambda>v. Inr (v AND push_bit minor 1 \<noteq> 0)))"

definition popcnt_word :: "uint64 \<Rightarrow> uint64" where
  "popcnt_word v =
     (let v = (v AND 0x5555555555555555) + drop_bit 1 (v AND 0xAAAAAAAAAAAAAAAA);
          v = (v AND 0x3333333333333333) + drop_bit 2 (v AND 0xCCCCCCCCCCCCCCCC);
          v = (v AND 0x0F0F0F0F0F0F0F0F) + drop_bit 4 (v AND 0xF0F0F0F0F0F0F0F0);
          v = v * 0x0101010101010101
      in drop_bit 56 v AND 0xFF)"

definition popcnt :: "bitset \<Rightarrow> uint64" where
  "popcnt b = foldl (\<lambda>total v. total + popcnt_word v) 0 b"

definition bitset_hash :: "bitset \<Rightarrow> uint64" where
  "bitset_hash b = foldl (\<lambda>hash v. hash XOR v) (popcnt b) b"

fun bitset_equals_loop :: "bitset \<Rightarrow> bitset \<Rightarrow> bool" where
  "bitset_equals_loop (v # b) (v2 # b2) = (if v \<noteq> v2 then False else bitset_equals_loop b b2)"
| "bitset_equals_loop _ _ = True"

definition bitset_equals :: "bitset \<Rightarrow> bitset \<Rightarrow> bool" where
  "bitset_equals b b2 = (if length b \<noteq> length b2 then False else bitset_equals_loop b b2)"

subsection \<open>The set a slice stands for\<close>

definition bits_of :: "bitset \<Rightarrow> nat set" where
  "bits_of b = {pos. pos div 64 < length b \<and> bit (b ! (pos div 64)) (pos mod 64)}"

lemma bits_of_iff: "pos \<in> bits_of b \<longleftrightarrow> pos div 64 < length b \<and> bit (b ! (pos div 64)) (pos mod 64)"
  by (simp add: bits_of_def)

lemma bits_of_newBitset [simp]: "bits_of (newBitset n) = {}"
  by (auto simp: bits_of_def newBitset_def Let_def)

lemma length_newBitset: "n \<le> 64 * length (newBitset n)"
  by (simp add: newBitset_def Let_def) presburger

lemma bitset_clone_id [simp]: "bitset_clone b = b"
  by (simp add: bitset_clone_def)

lemma bit_set_bit: "i < 64 \<Longrightarrow> bit ((v::uint64) OR 2 ^ j) i \<longleftrightarrow> i = j \<or> bit v i"
  by (auto simp: bit_or_iff bit_exp_iff)

lemma bit_clear_bit: "i < 64 \<Longrightarrow> bit ((v::uint64) AND NOT (2 ^ j)) i \<longleftrightarrow> i \<noteq> j \<and> bit v i"
  by (auto simp: bit_and_iff bit_not_iff bit_exp_iff)

lemma same_position: "i div 64 = p div 64 \<Longrightarrow> i mod 64 = p mod 64 \<longleftrightarrow> i = (p::nat)"
  by (metis div_mult_mod_eq)

lemma bitset_set_bits:
  assumes "p < 64 * length b"
  shows "\<exists>b'. bitset_set b p = Inr b' \<and> bits_of b' = insert p (bits_of b) \<and> length b' = length b"
proof -
  have p: "p div 64 < length b" using assms by (simp add: less_mult_imp_div_less mult.commute)
  let ?b = "b[p div 64 := b ! (p div 64) OR push_bit (p mod 64) 1]"
  have "i \<in> bits_of ?b \<longleftrightarrow> i \<in> insert p (bits_of b)" for i
    using p same_position [of i p] by (cases "i div 64 = p div 64") (auto simp: bits_of_iff bit_set_bit)
  then show ?thesis using p by (auto simp: bitset_set_def bitsetIndex_def at_def put_at_def)
qed

lemma bitset_clear_bits:
  assumes "p < 64 * length b"
  shows "\<exists>b'. bitset_clear b p = Inr b' \<and> bits_of b' = bits_of b - {p} \<and> length b' = length b"
proof -
  have p: "p div 64 < length b" using assms by (simp add: less_mult_imp_div_less mult.commute)
  let ?b = "b[p div 64 := b ! (p div 64) AND NOT (push_bit (p mod 64) 1)]"
  have "i \<in> bits_of ?b \<longleftrightarrow> i \<in> bits_of b - {p}" for i
    using p same_position [of i p] by (cases "i div 64 = p div 64") (auto simp: bits_of_iff bit_clear_bit)
  then show ?thesis using p by (auto simp: bitset_clear_def bitsetIndex_def at_def put_at_def)
qed

lemma bitset_get_bits:
  assumes "p < 64 * length b"
  shows "bitset_get b p = Inr (p \<in> bits_of b)"
proof -
  have p: "p div 64 < length b" using assms by (simp add: less_mult_imp_div_less mult.commute)
  have "v AND push_bit j 1 \<noteq> 0 \<longleftrightarrow> bit v j" if "j < 64" for v :: uint64 and j
    using that by (auto simp: bit_eq_iff [of "v AND 2 ^ j" 0] bit_and_iff bit_exp_iff)
  then show ?thesis using p by (simp add: bitset_get_def bitsetIndex_def at_def bits_of_iff)
qed

lemma bitset_equals_iff: "bitset_equals b b2 \<longleftrightarrow> b = b2"
  unfolding bitset_equals_def by (induction b b2 rule: bitset_equals_loop.induct) auto

lemma bits_of_inject:
  assumes "length b = length b2" "bits_of b = bits_of b2"
  shows "b = b2"
proof (rule nth_equalityI [OF assms(1)])
  fix i assume i: "i < length b"
  have "bit (b ! i) j = bit (b2 ! i) j" if "j < 64" for j
  proof -
    have "(64 * i + j) div 64 = i" "(64 * i + j) mod 64 = j" using that by auto
    then show ?thesis using assms i bits_of_iff [of "64 * i + j" b] bits_of_iff [of "64 * i + j" b2] by simp
  qed
  then show "b ! i = b2 ! i" by (intro bit_word_eqI) simp
qed

subsection \<open>What the checker relies on\<close>

locale position_set =
  fixes new :: "nat \<Rightarrow> 'b" and add clear :: "'b \<Rightarrow> nat \<Rightarrow> 'b result"
    and equals :: "'b \<Rightarrow> 'b \<Rightarrow> bool" and hash :: "'b \<Rightarrow> 'h"
    and elems :: "'b \<Rightarrow> nat set" and cap :: "'b \<Rightarrow> nat"
  assumes new: "elems (new n) = {}" "n \<le> cap (new n)"
    and add: "p < cap b \<Longrightarrow> \<exists>b'. add b p = Inr b' \<and> elems b' = insert p (elems b) \<and> cap b' = cap b"
    and clear: "p < cap b \<Longrightarrow> \<exists>b'. clear b p = Inr b' \<and> elems b' = elems b - {p} \<and> cap b' = cap b"
    and equals: "equals b b2 \<longleftrightarrow> cap b = cap b2 \<and> elems b = elems b2"
    and hash: "equals b b2 \<Longrightarrow> hash b = hash b2"
begin

lemma clear_add:
  assumes "p < cap b" "p \<notin> elems b"
  shows "\<exists>b' b''. add b p = Inr b' \<and> clear b' p = Inr b'' \<and> equals b'' b"
proof -
  obtain b' where b': "add b p = Inr b'" "elems b' = insert p (elems b)" "cap b' = cap b"
    using add [OF assms(1)] by blast
  obtain b'' where "clear b' p = Inr b''" "elems b'' = elems b' - {p}" "cap b'' = cap b'"
    using clear [of p b'] assms(1) b'(3) by auto
  then show ?thesis using b' assms(2) by (auto simp: equals)
qed

end

interpretation bits: position_set newBitset bitset_set bitset_clear bitset_equals bitset_hash bits_of "\<lambda>b. 64 * length b"
proof unfold_locales
  show "bitset_equals b b2 \<longleftrightarrow> 64 * length b = 64 * length b2 \<and> bits_of b = bits_of b2" for b b2
    using bits_of_inject [of b b2] by (auto simp: bitset_equals_iff)
qed (auto simp: length_newBitset bitset_set_bits bitset_clear_bits bitset_equals_iff)

subsection \<open>Counting bits in parallel\<close>

text \<open>A word as a list of \<open>k\<close>-bit fields, lowest first.\<close>

fun fields :: "nat \<Rightarrow> nat list \<Rightarrow> nat" where
  "fields k [] = 0"
| "fields k (x # xs) = x + 2 ^ k * fields k xs"

fun low_mask :: "nat \<Rightarrow> nat \<Rightarrow> nat" where
  "low_mask k 0 = 0"
| "low_mask k (Suc n) = (2 ^ k - 1) + 2 ^ (2 * k) * low_mask k n"

fun pair_sums :: "nat list \<Rightarrow> nat list" where
  "pair_sums (x # y # zs) = (x + y) # pair_sums zs"
| "pair_sums zs = zs"

fun every_other :: "'a list \<Rightarrow> 'a list" where
  "every_other (x # y # zs) = x # every_other zs"
| "every_other zs = zs"

lemma and_fields:
  fixes x y a b :: nat
  assumes "x < 2 ^ k" "a < 2 ^ k"
  shows "(x + 2 ^ k * y) AND (a + 2 ^ k * b) = (x AND a) + 2 ^ k * (y AND b)"
proof -
  let ?n = "(x + 2 ^ k * y) AND (a + 2 ^ k * b)"
  have "take_bit k ?n = x AND a" "drop_bit k ?n = y AND b"
    unfolding take_bit_and drop_bit_and using assms by (simp_all add: take_bit_eq_mod drop_bit_eq_div)
  moreover have "?n = take_bit k ?n + 2 ^ k * drop_bit k ?n"
    by (simp add: take_bit_eq_mod drop_bit_eq_div)
  ultimately show ?thesis by simp
qed

lemma and_below_mask: "x < 2 ^ k \<Longrightarrow> x AND (2 ^ k - Suc 0) = (x::nat)"
  using take_bit_eq_mask [of k x] by (simp add: mask_eq_exp_minus_1 take_bit_nat_eq_self)

lemma fields_low:
  assumes "even (length xs)" "\<And>x. x \<in> set xs \<Longrightarrow> x < 2 ^ k"
  shows "fields k xs AND low_mask k (length xs div 2) = fields (2 * k) (every_other xs)"
  using assms
proof (induction xs rule: every_other.induct)
  case (1 x y zs)
  have "x + 2 ^ k * y + 2 ^ (2 * k) * fields k zs AND (2 ^ k - 1) + 2 ^ (2 * k) * low_mask k (length zs div 2) =
      (x + 2 ^ k * y AND (2 ^ k - 1) + 2 ^ k * 0) + 2 ^ (2 * k) * (fields k zs AND low_mask k (length zs div 2))"
  proof (subst and_fields)
    have "x + 2 ^ k * y < 2 ^ k + 2 ^ k * y" using 1(3) by simp
    also have "\<dots> \<le> 2 ^ k + 2 ^ k * (2 ^ k - 1)" using 1(3) [of y] by (intro add_left_mono mult_left_mono) auto
    also have "\<dots> = 2 ^ (2 * k)" by (simp add: diff_mult_distrib2 power2_eq_square power_even_eq)
    finally show "x + 2 ^ k * y < 2 ^ (2 * k)" .
    show "(2::nat) ^ k - 1 < 2 ^ (2 * k)" by (rule less_le_trans [of _ "2 ^ k"]) auto
  qed simp
  also have "x + 2 ^ k * y AND (2 ^ k - 1) + 2 ^ k * 0 = x"
    by (subst and_fields) (use 1(3) in \<open>simp_all add: and_below_mask\<close>)
  finally show ?case using 1 by (simp add: power_mult algebra_simps power2_eq_square)
qed auto

lemma fields_append_0 [simp]: "fields k (xs @ [0]) = fields k xs"
  by (induction xs) simp_all

lemma fields_bound: "(\<And>x. x \<in> set xs \<Longrightarrow> x < 2 ^ k) \<Longrightarrow> fields k xs < 2 ^ (k * length xs)"
proof (induction xs)
  case (Cons x xs)
  have "fields k (x # xs) < 2 ^ k + 2 ^ k * fields k xs" using Cons.prems by simp
  also have "\<dots> = 2 ^ k * Suc (fields k xs)" by simp
  also have "\<dots> \<le> 2 ^ k * 2 ^ (k * length xs)" using Cons by (intro mult_left_mono) (auto simp: Suc_le_eq)
  finally show ?case by (simp add: power_add)
qed simp

lemma pair_sums_bound:
  assumes "0 < k" "\<And>x. x \<in> set xs \<Longrightarrow> x < 2 ^ k" "even (length xs)" "s \<in> set (pair_sums xs)"
  shows "s < 2 ^ (2 * k)"
proof -
  have "s < 2 ^ k + 2 ^ k" using assms(2-4)
    by (induction xs rule: pair_sums.induct) (auto simp: add_strict_mono)
  also have "\<dots> \<le> 2 ^ k * 2 ^ k" using assms(1) self_le_power [of 2 k] by (simp flip: mult_2 add: mult_right_mono)
  finally show ?thesis unfolding mult_2 power_add .
qed

lemma pair_sums_length: "even (length xs) \<Longrightarrow> length (pair_sums xs) = length xs div 2"
  by (induction xs rule: pair_sums.induct) auto

lemma pair_sums_sum: "sum_list (pair_sums xs) = sum_list xs"
  by (induction xs rule: pair_sums.induct) auto

lemma fields_pair_sums:
  "even (length xs) \<Longrightarrow>
     fields k (every_other xs) + fields k (every_other (List.tl xs @ [0])) = fields k (pair_sums xs)"
proof (induction xs rule: pair_sums.induct)
  case (1 x y zs)
  then show ?case by (cases zs) (simp_all flip: distrib_left)
qed simp_all

lemma fields_high:
  assumes "even (length xs)" "\<And>x. x \<in> set xs \<Longrightarrow> x < 2 ^ k"
  shows "drop_bit k (fields k xs AND 2 ^ k * low_mask k (length xs div 2)) =
     fields (2 * k) (every_other (List.tl xs @ [0]))"
proof (cases xs)
  case (Cons x zs)
  have "drop_bit k (fields k xs) = fields k zs" using assms(2) Cons by (simp add: drop_bit_eq_div)
  moreover have "fields k (zs @ [0]) AND low_mask k (length (zs @ [0]) div 2) = fields (2 * k) (every_other (zs @ [0]))"
    by (rule fields_low) (use assms Cons in auto)
  moreover have "drop_bit k (2 ^ k * low_mask k (length xs div 2)) = low_mask k (length xs div 2)"
    by (simp add: drop_bit_eq_div)
  ultimately show ?thesis using Cons by (simp add: drop_bit_and)
qed simp

lemma unat_less_64: "unat w < 2 ^ 64" for w :: uint64
proof -
  have "unat w < 2 ^ LENGTH(64)" by (rule unsigned_less)
  then show ?thesis by simp
qed

lemma unat_drop_bit: "unat (drop_bit k w) = drop_bit k (unat w)" for w :: uint64
  using unat_less_64 [of w] by (simp add: unsigned_drop_bit_eq take_bit_nat_eq_self)

lemma unat_add_64: "unat a + unat b < 2 ^ 64 \<Longrightarrow> unat (a + b) = unat a + unat b" for a b :: uint64
  by (simp add: unat_word_ariths)

lemma add_fields:
  fixes v :: uint64
  assumes v: "unat v = fields k xs" "k * length xs = 64" "0 < k" "even (length xs)"
    and xs: "\<And>x. x \<in> set xs \<Longrightarrow> x < 2 ^ k"
    and m: "unat lo = low_mask k (length xs div 2)" "unat hi = 2 ^ k * low_mask k (length xs div 2)"
  shows "unat ((v AND lo) + drop_bit k (v AND hi)) = fields (2 * k) (pair_sums xs)"
proof -
  have lo: "unat (v AND lo) = fields (2 * k) (every_other xs)"
    using fields_low [OF v(4) xs] by (simp add: unsigned_and_eq v(1) m)
  have hi: "unat (drop_bit k (v AND hi)) = fields (2 * k) (every_other (List.tl xs @ [0]))"
    using fields_high [OF v(4) xs] by (simp add: unat_drop_bit unsigned_and_eq v(1) m)
  have "fields (2 * k) (pair_sums xs) < 2 ^ (2 * k * length (pair_sums xs))"
    by (rule fields_bound) (use pair_sums_bound v(3,4) xs in blast)
  moreover have "2 * k * length (pair_sums xs) = 64" using v(2,4) by (auto simp: pair_sums_length mult.commute elim!: evenE)
  ultimately have "fields (2 * k) (pair_sums xs) < 2 ^ 64" by metis
  then show ?thesis using fields_pair_sums [OF v(4), of "2 * k"]
    by (subst unat_add_64) (simp_all only: lo hi)
qed

lemma sum_in_top_byte:
  fixes v :: uint64
  assumes "unat v = fields 8 [a, b, c, d, e, f, g, h]" "a + b + c + d + e + f + g + h < 256"
  shows "unat (drop_bit 56 (v * 0x0101010101010101) AND 0xFF) = a + b + c + d + e + f + g + h"
proof -
  define s where "s = a + b + c + d + e + f + g + h"
  define l where "l = a + 2 ^ 8 * (a + b) + 2 ^ 16 * (a + b + c) + 2 ^ 24 * (a + b + c + d) +
     2 ^ 32 * (a + b + c + d + e) + 2 ^ 40 * (a + b + c + d + e + f) + 2 ^ 48 * (a + b + c + d + e + f + g)"
  define u where "u = b + c + d + e + f + g + h + 2 ^ 8 * (c + d + e + f + g + h) + 2 ^ 16 * (d + e + f + g + h) +
     2 ^ 24 * (e + f + g + h) + 2 ^ 32 * (f + g + h) + 2 ^ 40 * (g + h) + 2 ^ 48 * h"
  have l: "l < 2 ^ 56" using assms(2) unfolding l_def by simp
  have s: "s < 256" using assms(2) unfolding s_def .
  have "unat v * 0x0101010101010101 = l + 2 ^ 56 * s + 2 ^ 64 * u"
    unfolding assms(1) l_def s_def u_def by simp
  then have "unat (v * 0x0101010101010101) = l + 2 ^ 56 * s"
    using l s by (simp add: unat_word_ariths)
  then have "unat (v * 0x0101010101010101) div 2 ^ 56 = s" using l by simp
  then have "drop_bit 56 (unat (v * 0x0101010101010101)) = s" by (simp only: drop_bit_eq_div)
  moreover have "s AND 255 = s" using and_below_mask [of s 8] s by simp
  ultimately show ?thesis by (simp add: unat_drop_bit unsigned_and_eq s_def)
qed

lemma low_mask_add: "low_mask k (m + n) = low_mask k m + 2 ^ (2 * k * m) * low_mask k n"
proof (induction m)
  case (Suc m)
  obtain p where "(2::nat) ^ k = Suc p" by (cases "(2::nat) ^ k") auto
  then show ?case using Suc by (simp add: power_add distrib_left mult.assoc)
qed simp

lemma low_mask_double:
  assumes "low_mask k n = x" "2 ^ (2 * k * n) = y"
  shows "low_mask k (2 * n) = x + y * x"
  using low_mask_add [of k n n] assms by (simp add: mult_2)

lemma low_masks:
  "low_mask 1 32 = 0x5555555555555555" "low_mask 2 16 = 0x3333333333333333" "low_mask 4 8 = 0x0F0F0F0F0F0F0F0F"
proof -
  have b: "low_mask 1 1 = 1" "low_mask 2 1 = 3" "low_mask 4 1 = 15" by simp_all
  note d = low_mask_double [OF _ refl]
  show "low_mask 1 32 = 0x5555555555555555" using d [OF d [OF d [OF d [OF d [OF b(1)]]]]] by simp
  show "low_mask 2 16 = 0x3333333333333333" using d [OF d [OF d [OF d [OF b(2)]]]] by simp
  show "low_mask 4 8 = 0x0F0F0F0F0F0F0F0F" using d [OF d [OF d [OF b(3)]]] by simp
qed

lemma fields_of_bits: "fields 1 (map of_bool bs) = horner_sum of_bool 2 bs"
  by (induction bs) simp_all

lemma sum_of_bits: "sum_list (map of_bool bs) = length (filter id bs)"
  by (induction bs) simp_all

lemma list_of_8: "length xs = 8 \<Longrightarrow> \<exists>a b c d e f g h. xs = [a, b, c, d, e, f, g, h]"
  by (simp add: numeral_eq_Suc length_Suc_conv) metis

lemma popcnt_word_card: "unat (popcnt_word v) = card {i. bit v i}"
proof -
  let ?bs = "map (bit v) [0..<64]"
  define xs :: "nat list" where "xs = map of_bool ?bs"
  define v1 where "v1 = (v AND 0x5555555555555555) + drop_bit 1 (v AND 0xAAAAAAAAAAAAAAAA)"
  define v2 where "v2 = (v1 AND 0x3333333333333333) + drop_bit 2 (v1 AND 0xCCCCCCCCCCCCCCCC)"
  define v3 where "v3 = (v2 AND 0x0F0F0F0F0F0F0F0F) + drop_bit 4 (v2 AND 0xF0F0F0F0F0F0F0F0)"
  have l: "length xs = 64" by (simp add: xs_def)
  have b0: "x < 2 ^ 1" if "x \<in> set xs" for x using that by (auto simp: xs_def)
  have "unat v = horner_sum of_bool 2 (map (bit (unat v)) [0..<64])"
    unfolding horner_sum_bit_eq_take_bit using unat_less_64 [of v] by (simp add: take_bit_nat_eq_self)
  also have "map (bit (unat v)) [0..<64] = ?bs" by (auto simp: bit_unsigned_iff)
  finally have "unat v = fields 1 xs" unfolding xs_def fields_of_bits .
  then have v1: "unat v1 = fields (2 * 1) (pair_sums xs)" unfolding v1_def
    by (rule add_fields) (use l b0 low_masks(1) in simp_all)
  have b1: "x < 2 ^ (2 * 1)" if "x \<in> set (pair_sums xs)" for x
    using pair_sums_bound [OF _ b0 _ that] l by simp
  have v2: "unat v2 = fields (2 * 2) (pair_sums (pair_sums xs))" unfolding v2_def
    by (rule add_fields) (use v1 l b1 low_masks(2) in \<open>simp_all add: pair_sums_length\<close>)
  have b2: "x < 2 ^ (2 * 2)" if "x \<in> set (pair_sums (pair_sums xs))" for x
    using pair_sums_bound [OF _ b1 _ that] l by (simp add: pair_sums_length)
  have v3: "unat v3 = fields (2 * 4) (pair_sums (pair_sums (pair_sums xs)))" unfolding v3_def
    by (rule add_fields) (use v2 l b2 low_masks(3) in \<open>simp_all add: pair_sums_length\<close>)
  have "length (pair_sums (pair_sums (pair_sums xs))) = 8" using l by (simp add: pair_sums_length)
  then obtain a b c d e f g h where ys: "pair_sums (pair_sums (pair_sums xs)) = [a, b, c, d, e, f, g, h]"
    using list_of_8 by blast
  have "sum_list (pair_sums (pair_sums (pair_sums xs))) = length (filter id ?bs)"
    by (simp only: pair_sums_sum xs_def sum_of_bits)
  also have "\<dots> = card {i. bit v i}"
    using bit_imp_le_length [of v] by (auto simp: length_filter_conv_card intro!: arg_cong [where f = card])
  finally have sum: "a + b + c + d + e + f + g + h = card {i. bit v i}" by (simp add: ys)
  have "card {i. bit v i} \<le> card {0..<64::nat}"
    by (rule card_mono) (use bit_imp_le_length [of v] in auto)
  then have "a + b + c + d + e + f + g + h < 256" using sum by simp
  then have "unat (popcnt_word v) = a + b + c + d + e + f + g + h"
    unfolding popcnt_word_def Let_def v1_def [symmetric] v2_def [symmetric] v3_def [symmetric]
    by (rule sum_in_top_byte [rotated]) (use v3 ys in simp)
  with sum show ?thesis by simp
qed

lemma bits_of_Cons: "bits_of (v # b) = {i. bit v i} \<union> (+) 64 ` bits_of b"
proof (rule set_eqI)
  fix i
  show "i \<in> bits_of (v # b) \<longleftrightarrow> i \<in> {i. bit v i} \<union> (+) 64 ` bits_of b"
  proof (cases "i < 64")
    case True
    then show ?thesis by (auto simp: bits_of_iff)
  next
    case False
    then obtain j where i: "i = 64 + j" by (metis le_add_diff_inverse not_less)
    have "(64 + j) div 64 = Suc (j div 64)" by simp
    then show ?thesis using bit_imp_le_length [of v i] i by (auto simp: bits_of_iff image_iff)
  qed
qed

lemma finite_bits_of [simp]: "finite (bits_of b)"
  by (rule finite_subset [of _ "{..< 64 * length b}"]) (auto simp: bits_of_def less_mult_imp_div_less dividend_less_times_div)

lemma card_bits_of_Cons: "card (bits_of (v # b)) = card {i. bit v i} + card (bits_of b)"
proof -
  have "{i. bit v i} \<subseteq> {..<64}" using bit_imp_le_length [of v] by auto
  then have fin: "finite {i. bit v i}" and disj: "{i. bit v i} \<inter> (+) 64 ` bits_of b = {}"
    by (auto intro: finite_subset)
  show ?thesis unfolding bits_of_Cons by (subst card_Un_disjoint [OF fin _ disj]) (simp_all add: card_image)
qed

text \<open>C29: \<open>popcnt\<close>, which adds neighbouring fields of a word in parallel and collects the eight
  bytes by a multiplication, returns the number of elements of the set (modulo the width of the counter).\<close>

theorem popcnt_counts_elements: "popcnt b = word_of_nat (card (bits_of b))"
proof -
  have "popcnt_word v = word_of_nat (card {i. bit v i})" for v
    unfolding popcnt_word_card [symmetric] by simp
  then have "foldl (\<lambda>total v. total + popcnt_word v) n b = n + word_of_nat (card (bits_of b))" for n
    by (induction b arbitrary: n) (simp_all add: card_bits_of_Cons, simp add: bits_of_def)
  then show ?thesis by (simp add: popcnt_def)
qed

end
