(* ===== verification/Lin_Model.thy ===== *)
theory Lin_Model
  imports Go_Prelude
begin

section \<open>Histories and models of the linearizability checker\<close>

text \<open>
  \<^verbatim>\<open>src/linearizability/model.go\<close>, \<^verbatim>\<open>src/linearizability/models.go\<close> and the part of
  \<^verbatim>\<open>src/linearizability/linearizability.go\<close> that turns a history into a sequence of entries. The type
  \<open>'v\<close> stands for the values behind \<open>interface{}\<close>, \<open>'s\<close> for the states of a model; a step may panic, as a
  failed type assertion does. \<open>sort.Sort\<close> promises a sorted permutation and no stability, and a range
  over a map promises no order, so both are arguments of the definitions that use them.
\<close>

subsection \<open>model.go\<close>

record 'v Operation =
  Input :: 'v
  Call :: int
  Output :: 'v
  Return :: int

datatype EventKind = CallEvent | ReturnEvent

record 'v Event =
  ev_Kind :: EventKind
  ev_Value :: 'v
  ev_Id :: nat

record ('v, 's) Model =
  Partition :: "('v Operation list \<Rightarrow> 'v Operation list list result) option"
  PartitionEvent :: "('v Event list \<Rightarrow> 'v Event list list result) option"
  Init :: 's
  Step :: "'s \<Rightarrow> 'v \<Rightarrow> 'v \<Rightarrow> (bool \<times> 's) result"
  Equal :: "('s \<Rightarrow> 's \<Rightarrow> bool) option"

definition NoPartition :: "'v Operation list \<Rightarrow> 'v Operation list list result" where
  "NoPartition history = Inr [history]"

definition NoPartitionEvent :: "'v Event list \<Rightarrow> 'v Event list list result" where
  "NoPartitionEvent history = Inr [history]"

definition ShallowEqual :: "'s \<Rightarrow> 's \<Rightarrow> bool" where
  "ShallowEqual state1 state2 \<longleftrightarrow> state1 = state2"

definition fillDefault :: "('v, 's) Model \<Rightarrow> ('v, 's) Model" where
  "fillDefault model =
     (let model = (if Partition model = None then model\<lparr>Partition := Some NoPartition\<rparr> else model);
          model = (if PartitionEvent model = None then model\<lparr>PartitionEvent := Some NoPartitionEvent\<rparr> else model);
          model = (if Equal model = None then model\<lparr>Equal := Some ShallowEqual\<rparr> else model)
      in model)"

subsection \<open>models.go: the key/value model\<close>

record KvInput =
  kv_Op :: "8 word"
  kv_Key :: string
  kv_Value :: string

datatype kv_value = KV_In KvInput | KV_Out string

definition assert_input :: "kv_value \<Rightarrow> KvInput result" where
  "assert_input v = (case v of KV_In i \<Rightarrow> Inr i | KV_Out _ \<Rightarrow> Inl (Panicked ''interface conversion''))"

definition assert_output :: "kv_value \<Rightarrow> string result" where
  "assert_output v = (case v of KV_Out s \<Rightarrow> Inr s | KV_In _ \<Rightarrow> Inl (Panicked ''interface conversion''))"

text \<open>The map of \<open>Partition\<close>, with its keys in the order of their first use.\<close>

fun kv_append :: "(string \<times> 'a list) list \<Rightarrow> string \<Rightarrow> 'a \<Rightarrow> (string \<times> 'a list) list" where
  "kv_append [] key v = [(key, [v])]"
| "kv_append ((k, vs) # m) key v = (if k = key then (k, vs @ [v]) # m else (k, vs) # kv_append m key v)"

fun kv_groups ::
  "(string \<times> kv_value Operation list) list \<Rightarrow> kv_value Operation list \<Rightarrow> (string \<times> kv_value Operation list) list result" where
  "kv_groups m [] = Inr m"
| "kv_groups m (v # history) =
     rbind (assert_input (Input v)) (\<lambda>i. kv_groups (kv_append m (kv_Key i) v) history)"

definition kv_Partition ::
  "(kv_value Operation list list \<Rightarrow> kv_value Operation list list) \<Rightarrow> kv_value Operation list \<Rightarrow>
     kv_value Operation list list result" where
  "kv_Partition iter history = rbind (kv_groups [] history) (\<lambda>m. Inr (iter (map snd m)))"

definition kv_Step :: "string \<Rightarrow> kv_value \<Rightarrow> kv_value \<Rightarrow> (bool \<times> string) result" where
  "kv_Step st input out =
     rbind (assert_input input) (\<lambda>inp. rbind (assert_output out) (\<lambda>out.
       if kv_Op inp = 0 then Inr (out = st, st)
       else if kv_Op inp = 1 then Inr (True, kv_Value inp)
       else Inr (True, st @ kv_Value inp)))"

definition KvModel ::
  "(kv_value Operation list list \<Rightarrow> kv_value Operation list list) \<Rightarrow> (kv_value, string) Model" where
  "KvModel iter = \<lparr>Partition = Some (kv_Partition iter), PartitionEvent = None, Init = [],
     Step = kv_Step, Equal = Some ShallowEqual\<rparr>"

subsection \<open>linearizability.go: entries\<close>

datatype entryKind = callEntry | returnEntry

record 'v entry =
  en_kind :: entryKind
  en_value :: 'v
  en_id :: nat
  en_time :: int

fun operation_entries :: "nat \<Rightarrow> 'v Operation list \<Rightarrow> 'v entry list" where
  "operation_entries ident [] = []"
| "operation_entries ident (elem # history) =
     \<lparr>en_kind = callEntry, en_value = Input elem, en_id = ident, en_time = Call elem\<rparr> #
     \<lparr>en_kind = returnEntry, en_value = Output elem, en_id = ident, en_time = Return elem\<rparr> #
     operation_entries (Suc ident) history"

definition makeEntries :: "('v entry list \<Rightarrow> 'v entry list) \<Rightarrow> 'v Operation list \<Rightarrow> 'v entry list" where
  "makeEntries sorter history = sorter (operation_entries 0 history)"

fun renumber_loop :: "(nat \<rightharpoonup> nat) \<Rightarrow> nat \<Rightarrow> 'v Event list \<Rightarrow> 'v Event list" where
  "renumber_loop m ident [] = []"
| "renumber_loop m ident (v # events) =
     (case m (ev_Id v) of
        Some r \<Rightarrow> v\<lparr>ev_Id := r\<rparr> # renumber_loop m ident events
      | None \<Rightarrow> v\<lparr>ev_Id := ident\<rparr> # renumber_loop (m(ev_Id v \<mapsto> ident)) (ident + 1) events)"

definition renumber :: "'v Event list \<Rightarrow> 'v Event list" where
  "renumber events = renumber_loop Map.empty 0 events"

definition convertEntries :: "'v Event list \<Rightarrow> 'v entry list" where
  "convertEntries events =
     map (\<lambda>elem. \<lparr>en_kind = (if ev_Kind elem = ReturnEvent then returnEntry else callEntry),
        en_value = ev_Value elem, en_id = ev_Id elem, en_time = -1\<rparr>) events"

subsection \<open>What the checker decides\<close>

text \<open>A set of operations is linearizable if it has an order that respects the real-time precedence
  \<open>prec\<close> and that a sequential object accepts.\<close>

fun accepts :: "('s \<Rightarrow> 'x \<Rightarrow> 's option) \<Rightarrow> 's \<Rightarrow> 'x list \<Rightarrow> bool" where
  "accepts stp s [] = True"
| "accepts stp s (x # xs) = (case stp s x of None \<Rightarrow> False | Some s' \<Rightarrow> accepts stp s' xs)"

definition in_real_time :: "('x \<Rightarrow> 'x \<Rightarrow> bool) \<Rightarrow> 'x list \<Rightarrow> bool" where
  "in_real_time prec order \<longleftrightarrow> sorted_wrt (\<lambda>x y. \<not> prec y x) order"

definition linearizable :: "('s \<Rightarrow> 'x \<Rightarrow> 's option) \<Rightarrow> 's \<Rightarrow> ('x \<Rightarrow> 'x \<Rightarrow> bool) \<Rightarrow> 'x set \<Rightarrow> bool" where
  "linearizable stp s prec X \<longleftrightarrow>
     (\<exists>order. distinct order \<and> set order = X \<and> in_real_time prec order \<and> accepts stp s order)"

definition model_step :: "('v, 's) Model \<Rightarrow> 's \<Rightarrow> 'v \<Rightarrow> 'v \<Rightarrow> 's option" where
  "model_step model s i out = (case Step model s i out of Inr (True, s') \<Rightarrow> Some s' | _ \<Rightarrow> None)"

text \<open>For a list of operations: the operations are named by their positions, and one precedes another
  if it returned before the other was called.\<close>

definition op_step :: "('v, 's) Model \<Rightarrow> 'v Operation list \<Rightarrow> 's \<Rightarrow> nat \<Rightarrow> 's option" where
  "op_step model history s i = model_step model s (Input (history ! i)) (Output (history ! i))"

definition op_precedes :: "'v Operation list \<Rightarrow> nat \<Rightarrow> nat \<Rightarrow> bool" where
  "op_precedes history i j \<longleftrightarrow> Return (history ! i) < Call (history ! j)"

definition linearizable_ops :: "('v, 's) Model \<Rightarrow> 'v Operation list \<Rightarrow> bool" where
  "linearizable_ops model history \<longleftrightarrow>
     linearizable (op_step model history) (Init model) (op_precedes history) {..<length history}"

lemma accepts_cong:
  "(\<And>s x. x \<in> set xs \<Longrightarrow> stp s x = stp' s x) \<Longrightarrow> accepts stp s xs = accepts stp' s xs"
  by (induction xs arbitrary: s) (auto split: option.splits)

lemma accepts_map: "accepts stp s (map f xs) = accepts (\<lambda>s x. stp s (f x)) s xs"
  by (induction xs arbitrary: s) (auto split: option.splits)

text \<open>Renaming the operations does not change the verdict.\<close>

lemma linearizable_image:
  assumes "inj_on f X"
    and "\<And>s x. x \<in> X \<Longrightarrow> stp s x = stp' s (f x)"
    and "\<And>x y. x \<in> X \<Longrightarrow> y \<in> X \<Longrightarrow> prec x y \<longleftrightarrow> prec' (f x) (f y)"
  shows "linearizable stp s prec X \<longleftrightarrow> linearizable stp' s prec' (f ` X)"
proof
  assume "linearizable stp s prec X"
  then obtain order where o: "distinct order" "set order = X" "in_real_time prec order" "accepts stp s order"
    by (auto simp: linearizable_def)
  have "distinct (map f order)" using o(1,2) assms(1) by (simp add: distinct_map)
  moreover have "in_real_time prec' (map f order)"
    using o(2,3) assms(3) by (auto simp: in_real_time_def sorted_wrt_map intro: sorted_wrt_mono_rel [rotated])
  moreover have "accepts stp' s (map f order)"
    using o(2,4) assms(2) accepts_cong [of order stp "\<lambda>s x. stp' s (f x)" s] by (simp add: accepts_map)
  ultimately show "linearizable stp' s prec' (f ` X)"
    unfolding linearizable_def using o(2) by (intro exI [of _ "map f order"]) simp
next
  assume "linearizable stp' s prec' (f ` X)"
  then obtain order where o: "distinct order" "set order = f ` X" "in_real_time prec' order" "accepts stp' s order"
    by (auto simp: linearizable_def)
  define xs where "xs = map (inv_into X f) order"
  have order: "order = map f xs" unfolding xs_def using o(2) by (auto simp: f_inv_into_f intro!: map_idI [symmetric])
  have X: "set xs = X" unfolding xs_def using o(2) assms(1) by (auto simp: image_image)
  have "distinct xs" unfolding xs_def using o(1,2) by (simp add: distinct_map inj_on_inv_into)
  moreover have "in_real_time prec xs"
    using o(3) X assms(3) unfolding order in_real_time_def sorted_wrt_map
    by (auto intro: sorted_wrt_mono_rel [rotated])
  moreover have "accepts stp s xs"
    using o(4) X assms(2) accepts_cong [of xs stp "\<lambda>s x. stp' s (f x)" s] by (simp add: order accepts_map)
  ultimately show "linearizable stp s prec X" unfolding linearizable_def using X by blast
qed

end
