(* ===== verification/Lin_List.thy ===== *)
theory Lin_List
  imports Lin_Model
begin

section \<open>The linked list of the linearizability checker\<close>

text \<open>
  The doubly linked list of \<^verbatim>\<open>src/linearizability/linearizability.go\<close>. Nodes live in a store from addresses
  to nodes, a pointer is \<open>None\<close> for nil or an address, and following nil panics. The node allocated
  for entry \<open>i\<close> has address \<open>i\<close>. The lemmas relate the store to the list of addresses
  reached from a node (\<open>dll\<close>): building the list, taking a call and its return out (\<open>lift\<close>), and
  that putting them back (\<open>unlift\<close>) restores the very store there was before.
\<close>

subsection \<open>The operations\<close>

record 'v node =
  n_value :: "'v option"
  n_match :: "nat option"
  n_id :: nat
  n_next :: "nat option"
  n_prev :: "nat option"

type_synonym 'v store = "nat \<Rightarrow> 'v node"

definition nil_dereference :: go_panic where
  "nil_dereference = Panicked ''invalid memory address or nil pointer dereference''"

definition node_at :: "'v store \<Rightarrow> nat option \<Rightarrow> 'v node result" where
  "node_at h p = (case p of None \<Rightarrow> Inl nil_dereference | Some a \<Rightarrow> Inr (h a))"

definition set_next :: "'v store \<Rightarrow> nat option \<Rightarrow> nat option \<Rightarrow> 'v store result" where
  "set_next h p x = (case p of None \<Rightarrow> Inl nil_dereference | Some a \<Rightarrow> Inr (h(a := (h a)\<lparr>n_next := x\<rparr>)))"

definition set_prev :: "'v store \<Rightarrow> nat option \<Rightarrow> nat option \<Rightarrow> 'v store result" where
  "set_prev h p x = (case p of None \<Rightarrow> Inl nil_dereference | Some a \<Rightarrow> Inr (h(a := (h a)\<lparr>n_prev := x\<rparr>)))"

definition insertBefore :: "'v store \<Rightarrow> nat \<Rightarrow> nat option \<Rightarrow> 'v store" where
  "insertBefore h n mark =
     (case mark of
        None \<Rightarrow> h
      | Some mk \<Rightarrow>
          let beforeMark = n_prev (h mk);
              h = h(mk := (h mk)\<lparr>n_prev := Some n\<rparr>);
              h = h(n := (h n)\<lparr>n_next := Some mk\<rparr>)
          in (case beforeMark of
                None \<Rightarrow> h
              | Some b \<Rightarrow>
                  let h = h(n := (h n)\<lparr>n_prev := Some b\<rparr>) in h(b := (h b)\<lparr>n_next := Some n\<rparr>)))"

text \<open>The loop of \<open>length\<close> ends only if the list does.\<close>

partial_function (option) node_length :: "'v store \<Rightarrow> nat option \<Rightarrow> nat \<Rightarrow> nat option" where
  "node_length h n l = (case n of None \<Rightarrow> Some l | Some a \<Rightarrow> node_length h (n_next (h a)) (l + 1))"

definition new_node :: "'v option \<Rightarrow> nat option \<Rightarrow> nat \<Rightarrow> 'v node" where
  "new_node v m i = \<lparr>n_value = v, n_match = m, n_id = i, n_next = None, n_prev = None\<rparr>"

definition link_entry ::
  "nat \<Rightarrow> 'v entry \<Rightarrow> 'v store \<times> nat option \<times> (nat \<rightharpoonup> nat) \<Rightarrow> 'v store \<times> nat option \<times> (nat \<rightharpoonup> nat)" where
  "link_entry i elem = (\<lambda>(h, root, match).
     if en_kind elem = returnEntry then
       let h = h(i := new_node (Some (en_value elem)) None (en_id elem));
           match = match(en_id elem \<mapsto> i)
       in (insertBefore h i root, Some i, match)
     else
       let h = h(i := new_node (Some (en_value elem)) (match (en_id elem)) (en_id elem))
       in (insertBefore h i root, Some i, match))"

primrec link_loop ::
  "'v entry list \<Rightarrow> nat \<Rightarrow> 'v store \<times> nat option \<times> (nat \<rightharpoonup> nat) \<Rightarrow> 'v store \<times> nat option \<times> (nat \<rightharpoonup> nat)" where
  "link_loop entries 0 st = st"
| "link_loop entries (Suc i) st = link_loop entries i (link_entry i (entries ! i) st)"

definition makeLinkedEntries :: "'v entry list \<Rightarrow> 'v store \<times> nat option" where
  "makeLinkedEntries entries =
     (case link_loop entries (length entries) (\<lambda>_. new_node None None 0, None, Map.empty) of
        (h, root, _) \<Rightarrow> (h, root))"

definition lift :: "'v store \<Rightarrow> nat \<Rightarrow> 'v store result" where
  "lift h entry =
     rbind (set_next h (n_prev (h entry)) (n_next (h entry))) (\<lambda>h.
     rbind (set_prev h (n_next (h entry)) (n_prev (h entry))) (\<lambda>h.
     let match = n_match (h entry) in
     rbind (node_at h match) (\<lambda>m.
     rbind (set_next h (n_prev m) (n_next m)) (\<lambda>h.
     rbind (node_at h match) (\<lambda>m.
     if n_next m \<noteq> None then set_prev h (n_next m) (n_prev m) else Inr h)))))"

definition unlift :: "'v store \<Rightarrow> nat \<Rightarrow> 'v store result" where
  "unlift h entry =
     (let match = n_match (h entry) in
     rbind (node_at h match) (\<lambda>m.
     rbind (set_next h (n_prev m) match) (\<lambda>h.
     rbind (node_at h match) (\<lambda>m.
     rbind (if n_next m \<noteq> None then set_prev h (n_next m) match else Inr h) (\<lambda>h.
     rbind (set_next h (n_prev (h entry)) (Some entry)) (\<lambda>h.
     set_prev h (n_next (h entry)) (Some entry)))))))"

subsection \<open>Linked lists in the store\<close>

fun path :: "'v store \<Rightarrow> nat \<Rightarrow> nat list \<Rightarrow> bool" where
  "path h p [] \<longleftrightarrow> True"
| "path h p (a # as) \<longleftrightarrow> n_next (h p) = Some a \<and> n_prev (h a) = Some p \<and> path h a as"

definition dll :: "'v store \<Rightarrow> nat \<Rightarrow> nat list \<Rightarrow> bool" where
  "dll h p xs \<longleftrightarrow> path h p xs \<and> n_next (h (last (p # xs))) = None \<and> distinct (p # xs)"

lemma path_append: "path h p (us @ ws) \<longleftrightarrow> path h p us \<and> path h (last (p # us)) ws"
  by (induction us arbitrary: p) auto

lemma path_cong:
  "(\<And>x. x \<in> set (butlast (p # xs)) \<Longrightarrow> n_next (h x) = n_next (h' x)) \<Longrightarrow>
   (\<And>x. x \<in> set xs \<Longrightarrow> n_prev (h x) = n_prev (h' x)) \<Longrightarrow> path h p xs = path h' p xs"
  by (induction xs arbitrary: p) auto

lemma node_length_path:
  "path h p xs \<Longrightarrow> n_next (h (last (p # xs))) = None \<Longrightarrow> node_length h (n_next (h p)) l = Some (l + length xs)"
proof (induction xs arbitrary: p l)
  case Nil
  then show ?case by (simp add: node_length.simps)
next
  case (Cons a xs)
  then show ?case by (subst node_length.simps) simp
qed

text \<open>Taking one node out of a list and putting it back.\<close>

definition unlink :: "'v store \<Rightarrow> nat \<Rightarrow> 'v store" where
  "unlink h a =
     (case n_prev (h a) of None \<Rightarrow> h | Some p \<Rightarrow>
        let h = h(p := (h p)\<lparr>n_next := n_next (h a)\<rparr>)
        in (case n_next (h a) of None \<Rightarrow> h | Some q \<Rightarrow> h(q := (h q)\<lparr>n_prev := Some p\<rparr>)))"

definition relink :: "'v store \<Rightarrow> nat \<Rightarrow> 'v store" where
  "relink h a =
     (case n_prev (h a) of None \<Rightarrow> h | Some p \<Rightarrow>
        let h = h(p := (h p)\<lparr>n_next := Some a\<rparr>)
        in (case n_next (h a) of None \<Rightarrow> h | Some q \<Rightarrow> h(q := (h q)\<lparr>n_prev := Some a\<rparr>)))"

lemma unlink_same [simp]:
  "n_value (unlink h a x) = n_value (h x)" "n_match (unlink h a x) = n_match (h x)" "n_id (unlink h a x) = n_id (h x)"
  by (auto simp: unlink_def Let_def split: option.splits)

lemma dll_distinct:
  assumes "dll h p (us @ a # ws)"
  shows "distinct (butlast (p # us) @ last (p # us) # a # ws)"
proof -
  have "distinct ((p # us) @ a # ws)" using assms by (simp add: dll_def)
  moreover have "p # us = butlast (p # us) @ [last (p # us)]" by (rule append_butlast_last_id [symmetric]) simp
  ultimately show ?thesis by (metis append.assoc append_Cons append_Nil)
qed

lemma dll_around:
  assumes "dll h p (us @ a # ws)"
  shows "n_prev (h a) = Some (last (p # us))" "n_next (h (last (p # us))) = Some a"
    and "n_next (h a) = (case ws of [] \<Rightarrow> None | b # _ \<Rightarrow> Some b)"
    and "\<And>b ws'. ws = b # ws' \<Longrightarrow> n_prev (h b) = Some a"
  using assms unfolding dll_def path_append by (auto split: list.splits if_splits)

lemma unlink_dll:
  assumes "dll h p (us @ a # ws)"
  shows "dll (unlink h a) p (us @ ws)"
proof -
  define vs q where "vs = butlast (p # us)" and "q = last (p # us)"
  note around = dll_around [OF assms, folded q_def]
  have dist: "distinct (vs @ q # a # ws)" using dll_distinct [OF assms] by (simp only: vs_def q_def)
  have path: "path h p us" "path h a ws" "distinct (p # us @ a # ws)" "n_next (h (last (a # ws))) = None"
    using assms by (simp_all add: dll_def path_append)
  have q: "set (p # us) = insert q (set vs)"
    unfolding vs_def q_def using arg_cong [OF append_butlast_last_id [of "p # us"], of set] by auto
  have us: "path h' p us"
    if "\<And>x. x \<noteq> q \<Longrightarrow> n_next (h' x) = n_next (h x)" "\<And>x. x \<notin> set ws \<Longrightarrow> n_prev (h' x) = n_prev (h x)" for h'
  proof (rule path_cong [THEN iffD1, OF _ _ path(1)])
    fix x assume "x \<in> set (butlast (p # us))"
    then have "x \<noteq> q" using dist unfolding vs_def [symmetric] by auto
    then show "n_next (h x) = n_next (h' x)" by (rule that(1) [symmetric])
  next
    fix x assume "x \<in> set us"
    then have "x \<notin> set ws" using path(3) by auto
    then show "n_prev (h x) = n_prev (h' x)" by (rule that(2) [symmetric])
  qed
  show ?thesis
  proof (cases ws)
    case Nil
    have h: "unlink h a = h(q := (h q)\<lparr>n_next := None\<rparr>)"
      using around Nil dist by (auto simp: unlink_def Let_def)
    have "path (unlink h a) p us" by (rule us) (auto simp: h)
    then show ?thesis using path(3) Nil by (simp add: dll_def h q_def [symmetric] del: last.simps)
  next
    case (Cons b ws')
    have h: "unlink h a = h(q := (h q)\<lparr>n_next := Some b\<rparr>, b := (h b)\<lparr>n_prev := Some q\<rparr>)"
      using around Cons dist by (auto simp: unlink_def Let_def)
    have "path (unlink h a) p us" by (rule us) (use Cons in \<open>auto simp: h\<close>)
    moreover have "path h b ws'" using path(2) Cons by simp
    then have "path (unlink h a) b ws'"
      by (rule path_cong [THEN iffD1, rotated 2]) (use dist Cons in \<open>auto simp: h dest: in_set_butlastD split: if_splits\<close>)
    moreover have "n_next (unlink h a (last (b # ws'))) = None"
      using path(4) dist Cons by (auto simp: h)
    moreover have "n_next (unlink h a q) = Some b" "n_prev (unlink h a b) = Some q" using dist Cons by (auto simp: h)
    moreover have "last (p # us @ b # ws') = last (b # ws')" by simp
    ultimately show ?thesis
      using path(3) unfolding dll_def Cons path_append q_def [symmetric] by (simp only: path.simps) simp
  qed
qed

lemma relink_unlink:
  assumes "dll h p (us @ a # ws)"
  shows "relink (unlink h a) a = h"
proof -
  note around = dll_around [OF assms]
  have dist: "distinct (last (p # us) # a # ws)" using dll_distinct [OF assms] by (simp del: last.simps)
  show ?thesis
    using around dist by (cases ws) (auto simp: relink_def unlink_def Let_def fun_eq_iff simp del: last.simps)
qed

lemma unlink_self:
  assumes "dll h p (us @ a # ws)"
  shows "n_prev (unlink h a a) = n_prev (h a)" "n_next (unlink h a a) = n_next (h a)"
  using dll_around [OF assms] dll_distinct [OF assms]
  by (cases ws; simp add: unlink_def Let_def del: last.simps)+

text \<open>\<open>lift\<close> takes two nodes out, \<open>unlift\<close> puts them back in the opposite order.\<close>

lemma lift_unlinks:
  assumes "dll h p (us @ a # vs @ r # ws)" "n_match (h a) = Some r"
  shows "lift h a = Inr (unlink (unlink h a) r)" and "dll (unlink (unlink h a) r) p (us @ vs @ ws)"
    and "unlift (unlink (unlink h a) r) a = Inr h"
proof -
  let ?h1 = "unlink h a"
  let ?h2 = "unlink ?h1 r"
  obtain b where b: "n_next (h a) = Some b" using dll_around(3) [OF assms(1)] by (cases vs) auto
  obtain q where q: "n_prev (h a) = Some q" "q \<noteq> a"
    using dll_around(1) [OF assms(1)] dll_distinct [OF assms(1)] by (simp del: last.simps)
  have d1: "dll ?h1 p ((us @ vs) @ r # ws)" using unlink_dll [OF assms(1)] by simp
  obtain q2 where q2: "n_prev (?h1 r) = Some q2" "q2 \<noteq> r"
    using dll_around(1) [OF d1] dll_distinct [OF d1] by (simp del: last.simps)
  have m: "n_match (?h1 a) = Some r" "n_match (?h2 a) = Some r" using assms(2) by simp_all
  have step1: "rbind (set_next h (n_prev (h a)) (n_next (h a))) (\<lambda>h. rbind (set_prev h (n_next (h a)) (n_prev (h a))) f) = f ?h1" for f
    using q b by (simp add: set_next_def set_prev_def unlink_def Let_def)
  show "lift h a = Inr ?h2"
    unfolding lift_def step1 Let_def m(1)
    using q2 by (auto simp: node_at_def set_next_def set_prev_def unlink_def [of ?h1] Let_def)
  show "dll ?h2 p (us @ vs @ ws)" using unlink_dll [OF d1] by simp
  note self = unlink_self [OF d1]
  have r: "relink ?h2 r = ?h1" by (rule relink_unlink [OF d1])
  have step2: "rbind (node_at k (Some r)) (\<lambda>m. rbind (set_next k (n_prev m) (Some r)) (\<lambda>h.
      rbind (node_at h (Some r)) (\<lambda>m. rbind (if n_next m \<noteq> None then set_prev h (n_next m) (Some r) else Inr h) f))) =
      f (relink k r)" if "n_prev (k r) = Some q2" for k :: "'a store" and f
    using that q2(2) by (auto simp: relink_def node_at_def set_next_def set_prev_def Let_def split: option.splits)
  have a: "n_prev (?h1 a) = Some q" "n_next (?h1 a) = Some b" using unlink_self [OF assms(1)] q b by simp_all
  show "unlift ?h2 a = Inr h"
    unfolding unlift_def Let_def m(2) step2 [of ?h2, unfolded self, OF q2(1)] r
    using relink_unlink [OF assms(1)] a q b by (simp add: set_next_def set_prev_def relink_def Let_def)
qed

subsection \<open>Building the list\<close>

text \<open>The store after the entries from \<open>i\<close> on have been linked.\<close>

definition return_from :: "'v entry list \<Rightarrow> nat \<Rightarrow> nat \<Rightarrow> nat option" where
  "return_from es i k = List.find (\<lambda>j. en_kind (es ! j) = returnEntry \<and> en_id (es ! j) = k) [i..<length es]"

definition linked_store :: "'v entry list \<Rightarrow> nat \<Rightarrow> 'v store" where
  "linked_store es i = (\<lambda>j.
     if i \<le> j \<and> j < length es then
       \<lparr>n_value = Some (en_value (es ! j)),
        n_match = (if en_kind (es ! j) = returnEntry then None else return_from es (Suc j) (en_id (es ! j))),
        n_id = en_id (es ! j),
        n_next = (if Suc j < length es then Some (Suc j) else None),
        n_prev = (if i < j then Some (j - 1) else None)\<rparr>
     else new_node None None 0)"

definition linked_root :: "'v entry list \<Rightarrow> nat \<Rightarrow> nat option" where
  "linked_root es i = (if i < length es then Some i else None)"

lemma return_from_step:
  "i < length es \<Longrightarrow> return_from es i k =
     (if en_kind (es ! i) = returnEntry \<and> en_id (es ! i) = k then Some i else return_from es (Suc i) k)"
  by (simp add: return_from_def upt_conv_Cons)

lemma link_entry_linked:
  assumes "i < length es"
  shows "link_entry i (es ! i) (linked_store es (Suc i), linked_root es (Suc i), return_from es (Suc i)) =
     (linked_store es i, linked_root es i, return_from es i)"
proof -
  have "insertBefore ((linked_store es (Suc i))(i := new_node (Some (en_value (es ! i)))
       (if en_kind (es ! i) = returnEntry then None else return_from es (Suc i) (en_id (es ! i))) (en_id (es ! i)))) i
     (linked_root es (Suc i)) = linked_store es i"
    using assms by (auto simp: insertBefore_def linked_store_def linked_root_def new_node_def Let_def fun_eq_iff not_less_eq)
  moreover have "return_from es i = (if en_kind (es ! i) = returnEntry then (return_from es (Suc i))(en_id (es ! i) \<mapsto> i)
      else return_from es (Suc i))"
    using return_from_step [OF assms] by (auto simp: fun_eq_iff)
  ultimately show ?thesis using assms by (auto simp: link_entry_def linked_root_def Let_def)
qed

lemma link_loop_linked:
  "i \<le> length es \<Longrightarrow> link_loop es i (linked_store es i, linked_root es i, return_from es i) =
     (linked_store es 0, linked_root es 0, return_from es 0)"
  by (induction i) (simp_all add: link_entry_linked)

lemma makeLinkedEntries_linked: "makeLinkedEntries es = (linked_store es 0, linked_root es 0)"
proof -
  have "(\<lambda>_. new_node None None 0, None, Map.empty) =
      (linked_store es (length es), linked_root es (length es), return_from es (length es))"
    by (auto simp: linked_store_def linked_root_def return_from_def fun_eq_iff)
  then show ?thesis using link_loop_linked [of "length es" es] by (simp add: makeLinkedEntries_def)
qed

text \<open>With the extra node that \<open>checkSingle\<close> puts in front, the addresses follow each other.\<close>

definition headed_store :: "'v entry list \<Rightarrow> 'v store" where
  "headed_store es = insertBefore ((linked_store es 0)(length es := new_node None None (2 ^ 64 - 1))) (length es) (linked_root es 0)"

lemma headed_store_simps:
  "j < length es \<Longrightarrow> n_value (headed_store es j) = Some (en_value (es ! j))"
  "j < length es \<Longrightarrow> n_id (headed_store es j) = en_id (es ! j)"
  "j < length es \<Longrightarrow> n_match (headed_store es j) =
     (if en_kind (es ! j) = returnEntry then None else return_from es (Suc j) (en_id (es ! j)))"
  "j < length es \<Longrightarrow> n_next (headed_store es j) = (if Suc j < length es then Some (Suc j) else None)"
  "j < length es \<Longrightarrow> n_prev (headed_store es j) = (if 0 < j then Some (j - 1) else Some (length es))"
  "n_next (headed_store es (length es)) = linked_root es 0"
  by (auto simp: headed_store_def insertBefore_def linked_store_def linked_root_def new_node_def Let_def)

lemma path_upt:
  "i \<le> length es \<Longrightarrow> 0 < i \<Longrightarrow> path (headed_store es) (i - 1) [i..<length es]"
proof (induction "length es - i" arbitrary: i)
  case (Suc k)
  then have "i < length es" by simp
  then show ?case using Suc(1) [of "Suc i"] Suc(2-4) by (simp add: upt_conv_Cons headed_store_simps)
qed simp

lemma headed_store_dll: "dll (headed_store es) (length es) [0..<length es]"
proof (cases "es = []")
  case True
  then show ?thesis using headed_store_simps(6) [of es] by (simp add: dll_def linked_root_def)
next
  case False
  then have "path (headed_store es) (length es) (0 # [1..<length es])"
    using path_upt [of 1 es] by (simp add: headed_store_simps linked_root_def Suc_le_eq)
  then show ?thesis using False by (simp add: dll_def upt_conv_Cons [symmetric] headed_store_simps)
qed

end
