(* ===== verification/Lin_Check.thy ===== *)
theory Lin_Check
  imports Lin_Bitset Lin_List
begin

section \<open>The search of the linearizability checker\<close>

text \<open>
  \<open>checkSingle\<close> of \<^verbatim>\<open>src/linearizability/linearizability.go\<close>, with its cache. An iteration of its loop is
  \<open>check_step\<close>; the loop itself may run for ever as far as the definition goes, so that a search that
  does not return is \<open>None\<close>. The flag \<open>kill\<close> is set by another goroutine: the argument says in how many
  iterations, or never. The theory shows that the loop computes a recursive depth-first search over the list
  of addresses (\<open>dfs\<close>), and that this search finds an order exactly if there is one.
\<close>

subsection \<open>The cache\<close>

record 's cacheEntry =
  ce_linearized :: bitset
  ce_state :: 's

type_synonym 's cache = "uint64 \<Rightarrow> 's cacheEntry list"

definition call_Equal :: "('v, 's) Model \<Rightarrow> 's \<Rightarrow> 's \<Rightarrow> bool result" where
  "call_Equal model s t = (case Equal model of None \<Rightarrow> Inl nil_dereference | Some eq \<Rightarrow> Inr (eq s t))"

fun cache_scan :: "('v, 's) Model \<Rightarrow> 's cacheEntry list \<Rightarrow> 's cacheEntry \<Rightarrow> bool result" where
  "cache_scan model [] entry = Inr False"
| "cache_scan model (elem # elems) entry =
     (if bitset_equals (ce_linearized entry) (ce_linearized elem) then
        rbind (call_Equal model (ce_state entry) (ce_state elem)) (\<lambda>same.
          if same then Inr True else cache_scan model elems entry)
      else cache_scan model elems entry)"

definition cacheContains :: "('v, 's) Model \<Rightarrow> 's cache \<Rightarrow> 's cacheEntry \<Rightarrow> bool result" where
  "cacheContains model cache entry = cache_scan model (cache (bitset_hash (ce_linearized entry))) entry"

subsection \<open>The loop\<close>

record 's callsEntry =
  cl_entry :: nat
  cl_state :: 's

record ('v, 's) search =
  sr_store :: "'v store"
  sr_linearized :: bitset
  sr_cache :: "'s cache"
  sr_calls :: "'s callsEntry list"
  sr_state :: 's
  sr_entry :: "nat option"

definition call_Step :: "('v, 's) Model \<Rightarrow> 's \<Rightarrow> 'v option \<Rightarrow> 'v option \<Rightarrow> (bool \<times> 's) result" where
  "call_Step model s i out =
     (case (i, out) of (Some i, Some out) \<Rightarrow> Step model s i out | _ \<Rightarrow> Inl (Panicked ''interface conversion''))"

definition go_on :: "('v, 's) search \<Rightarrow> nat \<Rightarrow> ('v, 's) search" where
  "go_on c a = c\<lparr>sr_entry := n_next (sr_store c a)\<rparr>"

definition check_call :: "('v, 's) Model \<Rightarrow> nat \<Rightarrow> ('v, 's) search \<Rightarrow> nat \<Rightarrow> nat \<Rightarrow> ('v, 's) search result" where
  "check_call model head c a matching =
     (let h = sr_store c in
      rbind (call_Step model (sr_state c) (n_value (h a)) (n_value (h matching))) (\<lambda>(ok, newState).
        if ok then
          rbind (bitset_set (bitset_clone (sr_linearized c)) (n_id (h a))) (\<lambda>newLinearized.
          let newCacheEntry = \<lparr>ce_linearized = newLinearized, ce_state = newState\<rparr> in
          rbind (cacheContains model (sr_cache c) newCacheEntry) (\<lambda>found.
            if \<not> found then
              let hash = bitset_hash newLinearized;
                  cache = (sr_cache c)(hash := sr_cache c hash @ [newCacheEntry]);
                  calls = sr_calls c @ [\<lparr>cl_entry = a, cl_state = sr_state c\<rparr>]
              in rbind (bitset_set (sr_linearized c) (n_id (h a))) (\<lambda>linearized.
                 rbind (lift h a) (\<lambda>h.
                 Inr \<lparr>sr_store = h, sr_linearized = linearized, sr_cache = cache, sr_calls = calls,
                   sr_state = newState, sr_entry = n_next (h head)\<rparr>))
            else Inr (go_on c a)))
        else Inr (go_on c a)))"

definition check_return :: "('v, 's) search \<Rightarrow> (bool + ('v, 's) search) result" where
  "check_return c =
     (if sr_calls c = [] then Inr (Inl False)
      else
        let callsTop = last (sr_calls c); a = cl_entry callsTop in
        rbind (bitset_clear (sr_linearized c) (n_id (sr_store c a))) (\<lambda>linearized.
        rbind (unlift (sr_store c) a) (\<lambda>h.
        Inr (Inr (c\<lparr>sr_store := h, sr_linearized := linearized, sr_calls := butlast (sr_calls c),
          sr_state := cl_state callsTop, sr_entry := n_next (h a)\<rparr>)))))"

definition check_step ::
  "('v, 's) Model \<Rightarrow> nat \<Rightarrow> bool \<Rightarrow> ('v, 's) search \<Rightarrow> (bool + ('v, 's) search) result" where
  "check_step model head killed c =
     (if n_next (sr_store c head) = None then Inr (Inl True)
      else if killed then Inr (Inl False)
      else case sr_entry c of
        None \<Rightarrow> Inl nil_dereference
      | Some a \<Rightarrow> (case n_match (sr_store c a) of
            Some matching \<Rightarrow> rbind (check_call model head c a matching) (\<lambda>c. Inr (Inr c))
          | None \<Rightarrow> check_return c))"

partial_function (option) check_loop ::
  "('v, 's) Model \<Rightarrow> nat \<Rightarrow> nat option \<Rightarrow> ('v, 's) search \<Rightarrow> bool result option" where
  "check_loop model head kill c =
     (case check_step model head (kill = Some 0) c of
        Inl e \<Rightarrow> Some (Inl e)
      | Inr (Inl b) \<Rightarrow> Some (Inr b)
      | Inr (Inr c) \<Rightarrow> check_loop model head (map_option (\<lambda>k. k - 1) kill) c)"

text \<open>\<open>fresh\<close> is the address of the node that is put in front of the list.\<close>

definition checkSingle ::
  "('v, 's) Model \<Rightarrow> 'v store \<Rightarrow> nat option \<Rightarrow> nat \<Rightarrow> nat option \<Rightarrow> bool result option" where
  "checkSingle model h subhistory fresh kill =
     (case node_length h subhistory 0 of
        None \<Rightarrow> None
      | Some l \<Rightarrow>
          let n = l div 2;
              h = insertBefore (h(fresh := new_node None None (2 ^ 64 - 1))) fresh subhistory
          in check_loop model fresh kill
               \<lparr>sr_store = h, sr_linearized = newBitset n, sr_cache = (\<lambda>_. []), sr_calls = [],
                sr_state = Init model, sr_entry = subhistory\<rparr>)"

subsection \<open>The search as a recursion over the list\<close>

definition cache_has :: "('s \<Rightarrow> 's \<Rightarrow> bool) \<Rightarrow> 's cache \<Rightarrow> bitset \<Rightarrow> 's \<Rightarrow> bool" where
  "cache_has eq c b s \<longleftrightarrow> list_ex (\<lambda>e. bitset_equals b (ce_linearized e) \<and> eq s (ce_state e)) (c (bitset_hash b))"

definition cache_add :: "'s cache \<Rightarrow> bitset \<Rightarrow> 's \<Rightarrow> 's cache" where
  "cache_add c b s = c(bitset_hash b := c (bitset_hash b) @ [\<lparr>ce_linearized = b, ce_state = s\<rparr>])"

definition with_bit :: "bitset \<Rightarrow> nat \<Rightarrow> bitset" where
  "with_bit b p = (case bitset_set b p of Inr b' \<Rightarrow> b' | Inl _ \<Rightarrow> b)"

definition without :: "(nat \<Rightarrow> nat option) \<Rightarrow> nat list \<Rightarrow> nat \<Rightarrow> nat list" where
  "without mt ns a = filter (\<lambda>x. x \<noteq> a \<and> mt a \<noteq> Some x) ns"

fun dfs ::
  "('s \<Rightarrow> 's \<Rightarrow> bool) \<Rightarrow> (nat \<Rightarrow> nat option) \<Rightarrow> (nat \<Rightarrow> nat) \<Rightarrow> ('s \<Rightarrow> nat \<Rightarrow> 's option) \<Rightarrow>
     nat \<Rightarrow> nat list \<Rightarrow> 's \<Rightarrow> bitset \<Rightarrow> 's cache \<Rightarrow> nat list \<Rightarrow> bool \<times> 's cache" where
  "dfs eq mt idt stp 0 ns s b c xs = (False, c)"
| "dfs eq mt idt stp (Suc n) ns s b c [] = (False, c)"
| "dfs eq mt idt stp (Suc n) ns s b c (a # xs) =
     (if mt a = None then (False, c)
      else case stp s a of
        None \<Rightarrow> dfs eq mt idt stp (Suc n) ns s b c xs
      | Some s' \<Rightarrow>
          let b' = with_bit b (idt a); c' = cache_add c b' s'; ns' = without mt ns a
          in if cache_has eq c b' s' then dfs eq mt idt stp (Suc n) ns s b c xs
             else if ns' = [] then (True, c')
             else case dfs eq mt idt stp n ns' s' b' c' ns' of
               (True, c'') \<Rightarrow> (True, c'')
             | (False, c'') \<Rightarrow> dfs eq mt idt stp (Suc n) ns s b c'' xs)"

text \<open>Lists of calls and returns in which every call comes before its return.\<close>

fun before :: "nat list \<Rightarrow> nat \<Rightarrow> nat \<Rightarrow> bool" where
  "before [] x y \<longleftrightarrow> False"
| "before (z # zs) x y \<longleftrightarrow> z = x \<and> y \<in> set zs \<or> before zs x y"

definition balanced :: "(nat \<Rightarrow> nat option) \<Rightarrow> nat list \<Rightarrow> bool" where
  "balanced mt ns \<longleftrightarrow> distinct ns \<and>
     (\<forall>a \<in> set ns. \<forall>r. mt a = Some r \<longrightarrow> before ns a r \<and> mt r = None) \<and>
     (\<forall>r \<in> set ns. mt r = None \<longrightarrow> (\<exists>a \<in> set ns. mt a = Some r)) \<and>
     (\<forall>a \<in> set ns. \<forall>a' \<in> set ns. \<forall>r. mt a = Some r \<longrightarrow> mt a' = Some r \<longrightarrow> a = a')"

lemma before_set: "before ns x y \<Longrightarrow> x \<in> set ns \<and> y \<in> set ns"
  by (induction ns) auto

lemma before_filter: "P x \<Longrightarrow> P y \<Longrightarrow> before (filter P ns) x y \<longleftrightarrow> before ns x y"
  by (induction ns) auto

lemma before_append: "before (us @ ws) x y \<longleftrightarrow> before us x y \<or> before ws x y \<or> x \<in> set us \<and> y \<in> set ws"
  by (induction us) auto

lemma before_split: "before ns x y \<Longrightarrow> \<exists>us vs ws. ns = us @ x # vs @ y # ws"
proof (induction ns)
  case (Cons z zs)
  show ?case
  proof (cases "before zs x y")
    case True
    then obtain us vs ws where "zs = us @ x # vs @ y # ws" using Cons.IH by blast
    then show ?thesis by (metis append_Cons)
  next
    case False
    then have "z = x" "y \<in> set zs" using Cons.prems by auto
    then show ?thesis by (metis append_Nil in_set_conv_decomp)
  qed
qed simp

lemma balanced_return_behind:
  assumes "balanced mt (us @ a # ws)" "mt a = Some r"
  shows "r \<in> set ws"
proof -
  have "before (us @ a # ws) a r" "a \<notin> set us" using assms by (auto simp: balanced_def)
  then show ?thesis by (auto simp: before_append dest: before_set)
qed

lemma without_split:
  assumes "balanced mt (us @ a # vs @ r # ws)" "mt a = Some r"
  shows "without mt (us @ a # vs @ r # ws) a = us @ vs @ ws"
proof -
  have "distinct (us @ a # vs @ r # ws)" using assms by (simp add: balanced_def)
  then have "filter (\<lambda>x. x \<noteq> a \<and> r \<noteq> x) us = us" "filter (\<lambda>x. x \<noteq> a \<and> r \<noteq> x) vs = vs"
    "filter (\<lambda>x. x \<noteq> a \<and> r \<noteq> x) ws = ws"
    by (auto intro!: filter_True)
  then show ?thesis using assms(2) by (simp add: without_def)
qed

lemma in_without: "x \<in> set (without mt ns a) \<longleftrightarrow> x \<in> set ns \<and> x \<noteq> a \<and> mt a \<noteq> Some x"
  by (simp add: without_def)

lemma balancedD:
  assumes "balanced mt ns"
  shows "distinct ns"
    and "a \<in> set ns \<Longrightarrow> mt a = Some r \<Longrightarrow> before ns a r"
    and "a \<in> set ns \<Longrightarrow> mt a = Some r \<Longrightarrow> mt r = None"
    and "r \<in> set ns \<Longrightarrow> mt r = None \<Longrightarrow> \<exists>a \<in> set ns. mt a = Some r"
    and "a \<in> set ns \<Longrightarrow> a' \<in> set ns \<Longrightarrow> mt a = Some r \<Longrightarrow> mt a' = Some r \<Longrightarrow> a = a'"
  using assms unfolding balanced_def by blast+

lemma balanced_without:
  assumes "balanced mt ns" "a \<in> set ns" "mt a = Some r"
  shows "balanced mt (without mt ns a)"
  unfolding balanced_def
proof (intro conjI ballI allI impI)
  note b = balancedD [OF assms(1)]
  have r: "mt r = None" by (rule b(3) [OF assms(2,3)])
  show "distinct (without mt ns a)" using b(1) by (simp add: without_def)
  fix x assume x: "x \<in> set (without mt ns a)"
  then have x': "x \<in> set ns" "x \<noteq> a" "x \<noteq> r" using assms(3) by (auto simp: in_without)
  {
    fix y assume y: "mt x = Some y"
    have "y \<noteq> r" using b(5) [OF x'(1) assms(2) y] assms(3) x'(2) by auto
    moreover have "y \<noteq> a" using b(3) [OF x'(1) y] assms(3) by auto
    ultimately show "before (without mt ns a) x y"
      unfolding without_def using assms(3) x' b(2) [OF x'(1) y] by (subst before_filter) auto
    show "mt y = None" by (rule b(3) [OF x'(1) y])
    fix x2 assume "x2 \<in> set (without mt ns a)" "mt x2 = Some y"
    then show "x = x2" using b(5) [OF x'(1) _ y] by (simp add: in_without)
  }
  assume y: "mt x = None"
  obtain z where z: "z \<in> set ns" "mt z = Some x" using b(4) [OF x'(1) y] by blast
  have "z \<in> set (without mt ns a)" using z assms(3) r x'(3) by (auto simp: in_without)
  then show "\<exists>z \<in> set (without mt ns a). mt z = Some x" using z(2) by blast
qed

subsection \<open>The loop computes the recursion\<close>

text \<open>What a search works on: matches, identifiers and values that no operation changes, a model that
  steps without panic, and a bit set that has room for the identifiers.\<close>

definition fixed_fields :: "(nat \<Rightarrow> nat option) \<Rightarrow> (nat \<Rightarrow> nat) \<Rightarrow> (nat \<Rightarrow> 'v option) \<Rightarrow> 'v store \<Rightarrow> bool" where
  "fixed_fields mt idt val h \<longleftrightarrow> (\<forall>a. n_match (h a) = mt a \<and> n_id (h a) = idt a \<and> n_value (h a) = val a)"

definition steps_as ::
  "('v, 's) Model \<Rightarrow> (nat \<Rightarrow> nat option) \<Rightarrow> (nat \<Rightarrow> 'v option) \<Rightarrow> ('s \<Rightarrow> nat \<Rightarrow> 's option) \<Rightarrow> nat list \<Rightarrow> bool" where
  "steps_as model mt val stp ns \<longleftrightarrow> (\<forall>s. \<forall>a \<in> set ns. \<forall>r. mt a = Some r \<longrightarrow>
     (\<exists>ok s'. call_Step model s (val a) (val r) = Inr (ok, s') \<and> stp s a = (if ok then Some s' else None)))"

definition room :: "(nat \<Rightarrow> nat option) \<Rightarrow> (nat \<Rightarrow> nat) \<Rightarrow> bitset \<Rightarrow> nat list \<Rightarrow> bool" where
  "room mt idt b ns \<longleftrightarrow>
     (\<forall>a \<in> set ns. idt a < 64 * length b \<and> idt a \<notin> bits_of b) \<and>
     (\<forall>a \<in> set ns. \<forall>x \<in> set ns. mt a \<noteq> None \<longrightarrow> idt x = idt a \<longrightarrow> x = a \<or> mt a = Some x)"

lemma fixed_fields_unlink: "fixed_fields mt idt val h \<Longrightarrow> fixed_fields mt idt val (unlink h a)"
  by (simp add: fixed_fields_def)

lemma steps_as_without: "steps_as model mt val stp ns \<Longrightarrow> steps_as model mt val stp (without mt ns a)"
  by (auto simp: steps_as_def in_without)

lemma with_bit_set:
  assumes "p < 64 * length b"
  shows "bitset_set b p = Inr (with_bit b p)" "bits_of (with_bit b p) = insert p (bits_of b)"
    and "length (with_bit b p) = length b"
proof -
  obtain b' where b': "bitset_set b p = Inr b'" "bits_of b' = insert p (bits_of b)" "length b' = length b"
    using bitset_set_bits [OF assms] by blast
  then have "with_bit b p = b'" by (simp add: with_bit_def)
  with b' show "bitset_set b p = Inr (with_bit b p)" "bits_of (with_bit b p) = insert p (bits_of b)"
    "length (with_bit b p) = length b" by simp_all
qed

lemma with_bit_clear:
  assumes "p < 64 * length b" "p \<notin> bits_of b"
  shows "bitset_clear (with_bit b p) p = Inr b"
proof -
  obtain b' b'' where "bitset_set b p = Inr b'" "bitset_clear b' p = Inr b''" "bitset_equals b'' b"
    using bits.clear_add [OF assms] by blast
  then show ?thesis using with_bit_set(1) [OF assms(1)] by (simp add: bitset_equals_iff)
qed

lemma steps_asD:
  "steps_as model mt val stp ns \<Longrightarrow> a \<in> set ns \<Longrightarrow> mt a = Some r \<Longrightarrow>
     \<exists>ok s'. call_Step model s (val a) (val r) = Inr (ok, s') \<and> stp s a = (if ok then Some s' else None)"
  unfolding steps_as_def by blast

lemma roomD:
  assumes "room mt idt b ns" "a \<in> set ns"
  shows "idt a < 64 * length b" "idt a \<notin> bits_of b"
    and "x \<in> set ns \<Longrightarrow> mt a \<noteq> None \<Longrightarrow> idt x = idt a \<Longrightarrow> x = a \<or> mt a = Some x"
  using assms unfolding room_def by blast+

lemma room_without:
  assumes "room mt idt b ns" "a \<in> set ns" "mt a \<noteq> None"
  shows "room mt idt (with_bit b (idt a)) (without mt ns a)"
proof -
  note a = with_bit_set [OF roomD(1) [OF assms(1,2)]]
  have in_ns: "x \<in> set ns" if "x \<in> set (without mt ns a)" for x using that by (simp add: in_without)
  have other: "idt x \<noteq> idt a" if "x \<in> set (without mt ns a)" for x
    using roomD(3) [OF assms(1,2) in_ns [OF that] assms(3)] that by (auto simp: in_without)
  show ?thesis
    unfolding room_def a(2,3)
  proof (intro conjI ballI impI)
    fix x assume x: "x \<in> set (without mt ns a)"
    show "idt x < 64 * length b" by (rule roomD(1) [OF assms(1) in_ns [OF x]])
    show "idt x \<notin> insert (idt a) (bits_of b)" using roomD(2) [OF assms(1) in_ns [OF x]] other [OF x] by simp
    fix y assume "y \<in> set (without mt ns a)" "mt x \<noteq> None" "idt y = idt x"
    then show "y = x \<or> mt x = Some y" by (intro roomD(3) [OF assms(1) in_ns [OF x]] in_ns)
  qed
qed

lemma cacheContains_has:
  assumes "Equal model = Some eq"
  shows "cacheContains model c \<lparr>ce_linearized = b, ce_state = s\<rparr> = Inr (cache_has eq c b s)"
proof -
  have "cache_scan model es \<lparr>ce_linearized = b, ce_state = s\<rparr> =
      Inr (list_ex (\<lambda>e. bitset_equals b (ce_linearized e) \<and> eq s (ce_state e)) es)" for es
    by (induction es) (simp_all add: call_Equal_def assms)
  then show ?thesis by (simp add: cacheContains_def cache_has_def)
qed

lemma check_loop_next:
  "check_step model head False c = Inr (Inr c') \<Longrightarrow> check_loop model head None c = check_loop model head None c'"
  by (subst check_loop.simps) simp

lemma check_loop_done:
  "check_step model head False c = Inr (Inl r) \<Longrightarrow> check_loop model head None c = Some (Inr r)"
  by (subst check_loop.simps) simp

abbreviation conf where
  "conf h b c calls s e \<equiv> \<lparr>sr_store = h, sr_linearized = b, sr_cache = c, sr_calls = calls, sr_state = s, sr_entry = e\<rparr>"

lemma dll_head_next: "dll h head ns \<Longrightarrow> n_next (h head) = (case ns of [] \<Rightarrow> None | x # _ \<Rightarrow> Some x)"
  by (cases ns) (auto simp: dll_def)

lemma dll_entry_next: "dll h head (us @ a # xs) \<Longrightarrow> xs \<noteq> [] \<Longrightarrow> n_next (h a) = Some (hd xs)"
  using dll_around(3) [of h head us a xs] by (cases xs) auto

definition searchable ::
  "('v, 's) Model \<Rightarrow> ('s \<Rightarrow> 's \<Rightarrow> bool) \<Rightarrow> (nat \<Rightarrow> nat option) \<Rightarrow> (nat \<Rightarrow> nat) \<Rightarrow> (nat \<Rightarrow> 'v option) \<Rightarrow>
     ('s \<Rightarrow> nat \<Rightarrow> 's option) \<Rightarrow> nat \<Rightarrow> 'v store \<Rightarrow> bitset \<Rightarrow> nat list \<Rightarrow> bool" where
  "searchable model eq mt idt val stp head h b ns \<longleftrightarrow>
     Equal model = Some eq \<and> fixed_fields mt idt val h \<and> steps_as model mt val stp ns \<and> balanced mt ns \<and>
     room mt idt b ns \<and> dll h head ns"

text \<open>One iteration at a call, in the three ways it can go.\<close>

lemma searchableD:
  assumes "searchable model eq mt idt val stp head h b ns"
  shows "Equal model = Some eq" "steps_as model mt val stp ns" "balanced mt ns" "room mt idt b ns" "dll h head ns"
    and "n_match (h x) = mt x" "n_id (h x) = idt x" "n_value (h x) = val x"
  using assms by (simp_all add: searchable_def fixed_fields_def)

lemma check_loop_skip:
  assumes sr: "searchable model eq mt idt val stp head h b (us @ a # xs)" and xs: "xs \<noteq> []" and r: "mt a = Some r"
    and skip: "stp s a = None \<or> (\<exists>s'. stp s a = Some s' \<and> cache_has eq c (with_bit b (idt a)) s')"
  shows "check_loop model head None (conf h b c calls s (Some a)) = check_loop model head None (conf h b c calls s (Some (hd xs)))"
proof (rule check_loop_next)
  note sr' = searchableD [OF sr]
  have nx: "n_next (h a) = Some (hd xs)" by (rule dll_entry_next [OF sr'(5) xs])
  obtain ok s' where step: "call_Step model s (val a) (val r) = Inr (ok, s')" "stp s a = (if ok then Some s' else None)"
    using steps_asD [OF sr'(2) _ r, of s] by auto
  have bits: "bitset_set b (idt a) = Inr (with_bit b (idt a))" using roomD(1) [OF sr'(4), of a] by (intro with_bit_set) simp
  have "check_call model head (conf h b c calls s (Some a)) a r = Inr (conf h b c calls s (Some (hd xs)))"
  proof (cases ok)
    case True
    then have "cache_has eq c (with_bit b (idt a)) s'" using skip step(2) by simp
    then show ?thesis using True by (simp add: check_call_def sr'(6-8) step(1) bits cacheContains_has [OF sr'(1)] go_on_def nx)
  next
    case False
    then show ?thesis by (simp add: check_call_def sr'(6-8) step(1) go_on_def nx)
  qed
  moreover have "n_next (h head) \<noteq> None" using dll_head_next [OF sr'(5)] by (cases us) auto
  ultimately show "check_step model head False (conf h b c calls s (Some a)) = Inr (Inr (conf h b c calls s (Some (hd xs))))"
    by (simp add: check_step_def sr'(6) r)
qed

text \<open>The store with a call and its return taken out.\<close>

abbreviation (input) lifted :: "'v store \<Rightarrow> nat \<Rightarrow> nat \<Rightarrow> 'v store" where
  "lifted h a r \<equiv> unlink (unlink h a) r"

lemma searchable_split:
  assumes sr: "searchable model eq mt idt val stp head h b (us @ a # xs)" and r: "mt a = Some r"
  obtains vs ws where "xs = vs @ r # ws" "without mt (us @ a # xs) a = us @ vs @ ws"
proof -
  have "r \<in> set xs" by (rule balanced_return_behind [OF searchableD(3) [OF sr] r])
  then obtain vs ws where xs: "xs = vs @ r # ws" by (meson split_list)
  then show thesis using that without_split [of mt us a vs r ws] searchableD(3) [OF sr] r by simp
qed

lemma searchable_lifted:
  assumes sr: "searchable model eq mt idt val stp head h b (us @ a # xs)" and r: "mt a = Some r"
  shows "lift h a = Inr (lifted h a r)" "unlift (lifted h a r) a = Inr h"
    and "searchable model eq mt idt val stp head (lifted h a r) (with_bit b (idt a)) (without mt (us @ a # xs) a)"
proof -
  obtain vs ws where xs: "xs = vs @ r # ws" and w: "without mt (us @ a # xs) a = us @ vs @ ws"
    using searchable_split [OF sr r] .
  have d: "dll h head (us @ a # vs @ r # ws)" "n_match (h a) = Some r" using searchableD(5,6) [OF sr] r by (simp_all add: xs)
  show "lift h a = Inr (lifted h a r)" "unlift (lifted h a r) a = Inr h" by (rule lift_unlinks [OF d])+
  have "dll (lifted h a r) head (without mt (us @ a # xs) a)" unfolding w by (rule lift_unlinks [OF d])
  moreover have "fixed_fields mt idt val (lifted h a r)"
    using sr by (intro fixed_fields_unlink) (simp add: searchable_def)
  moreover have "room mt idt (with_bit b (idt a)) (without mt (us @ a # xs) a)"
    using r by (intro room_without searchableD(4) [OF sr]) simp_all
  moreover have "balanced mt (without mt (us @ a # xs) a)"
    using r by (intro balanced_without searchableD(3) [OF sr]) simp_all
  ultimately show "searchable model eq mt idt val stp head (lifted h a r) (with_bit b (idt a)) (without mt (us @ a # xs) a)"
    using searchableD(1,2) [OF sr] by (simp add: searchable_def steps_as_without)
qed

lemma check_loop_descend:
  assumes sr: "searchable model eq mt idt val stp head h b (us @ a # xs)" and r: "mt a = Some r"
    and s': "stp s a = Some s'" "\<not> cache_has eq c (with_bit b (idt a)) s'"
  shows "check_loop model head None (conf h b c calls s (Some a)) =
     check_loop model head None (conf (lifted h a r) (with_bit b (idt a)) (cache_add c (with_bit b (idt a)) s')
       (calls @ [\<lparr>cl_entry = a, cl_state = s\<rparr>]) s' (n_next (lifted h a r head)))"
proof (rule check_loop_next)
  note sr' = searchableD [OF sr]
  obtain ok t where step: "call_Step model s (val a) (val r) = Inr (ok, t)" "stp s a = (if ok then Some t else None)"
    using steps_asD [OF sr'(2) _ r, of s] by auto
  then have ok: "ok" "t = s'" using s'(1) by (simp_all split: if_splits)
  have bits: "bitset_set b (idt a) = Inr (with_bit b (idt a))" using roomD(1) [OF sr'(4), of a] by (intro with_bit_set) simp
  have "n_next (h head) \<noteq> None" using dll_head_next [OF sr'(5)] by (cases us) auto
  then show "check_step model head False (conf h b c calls s (Some a)) =
     Inr (Inr (conf (lifted h a r) (with_bit b (idt a)) (cache_add c (with_bit b (idt a)) s')
       (calls @ [\<lparr>cl_entry = a, cl_state = s\<rparr>]) s' (n_next (lifted h a r head))))"
    using s'(2) by (simp add: check_step_def sr'(6) r check_call_def sr'(7,8) step(1) ok bits cacheContains_has [OF sr'(1)]
        searchable_lifted(1) [OF sr r] cache_add_def Let_def)
qed

lemma check_loop_back:
  assumes sr: "searchable model eq mt idt val stp head h b (us @ a # xs)" and r: "mt a = Some r"
    and y: "mt y = None" and ns: "without mt (us @ a # xs) a \<noteq> []"
  shows "check_loop model head None (conf (lifted h a r) (with_bit b (idt a)) c (calls @ [\<lparr>cl_entry = a, cl_state = s\<rparr>]) s' (Some y)) =
     check_loop model head None (conf h b c calls s (Some (hd xs)))"
proof (rule check_loop_next)
  note sr' = searchableD [OF sr] and lf = searchable_lifted [OF sr r]
  have "xs \<noteq> []" using searchable_split [OF sr r] by blast
  then have nx: "n_next (h a) = Some (hd xs)" by (rule dll_entry_next [OF sr'(5)])
  have "n_next (lifted h a r head) \<noteq> None"
    using dll_head_next [OF searchableD(5) [OF lf(3)]] ns by (simp split: list.splits)
  moreover have "bitset_clear (with_bit b (idt a)) (idt a) = Inr b"
    using roomD(1,2) [OF sr'(4), of a] by (intro with_bit_clear) simp_all
  ultimately show "check_step model head False
      (conf (lifted h a r) (with_bit b (idt a)) c (calls @ [\<lparr>cl_entry = a, cl_state = s\<rparr>]) s' (Some y)) =
      Inr (Inr (conf h b c calls s (Some (hd xs))))"
    using lf(2) y nx by (auto simp: check_step_def check_return_def sr'(6,7))
qed

text \<open>The loop from a position in the list on: it finds what the recursion finds, or comes to the
  first return with store, bit set, calls and state as they were.\<close>

definition first_return :: "(nat \<Rightarrow> nat option) \<Rightarrow> nat list \<Rightarrow> nat" where
  "first_return mt ns = hd (dropWhile (\<lambda>a. mt a \<noteq> None) ns)"

lemma first_return_here:
  "(\<And>u. u \<in> set us \<Longrightarrow> mt u \<noteq> None) \<Longrightarrow> mt a = None \<Longrightarrow> first_return mt (us @ a # xs) = a"
  by (induction us) (auto simp: first_return_def)

lemma first_return_None:
  assumes "balanced mt ns" "ns \<noteq> []"
  shows "mt (first_return mt ns) = None"
proof -
  have "\<exists>r \<in> set ns. mt r = None"
    using balancedD(2,3) [OF assms(1), of "hd ns"] assms(2) before_set hd_in_set by (metis not_None_eq)
  then have "dropWhile (\<lambda>a. mt a \<noteq> None) ns \<noteq> []" by (auto simp: dropWhile_eq_Nil_conv)
  then show ?thesis unfolding first_return_def using hd_dropWhile by blast
qed

lemma without_shorter:
  assumes "searchable model eq mt idt val stp head h b (us @ a # xs)" "mt a = Some r"
  shows "length (us @ a # xs) = length (without mt (us @ a # xs) a) + 2"
  using searchable_split [OF assms] by (metis add_2_eq_Suc' add_Suc_right length_Cons length_append)

text \<open>Trying a new call, given what the search below it does.\<close>

lemma check_loop_try:
  assumes sr: "searchable model eq mt idt val stp head h b (us @ a # xs)" and r: "mt a = Some r"
    and s': "stp s a = Some s'" and new: "\<not> cache_has eq c (with_bit b (idt a)) s'"
    and ns': "ns' = without mt (us @ a # xs) a" and b': "b' = with_bit b (idt a)"
    and child: "ns' \<noteq> [] \<Longrightarrow>
      check_loop model head None (conf (lifted h a r) b' (cache_add c b' s')
          (calls @ [\<lparr>cl_entry = a, cl_state = s\<rparr>]) s' (Some (hd ns'))) =
        (if found then Some (Inr True)
         else check_loop model head None (conf (lifted h a r) b' c2 (calls @ [\<lparr>cl_entry = a, cl_state = s\<rparr>]) s'
           (Some (first_return mt ns'))))"
  shows "check_loop model head None (conf h b c calls s (Some a)) =
     (if ns' = [] \<or> found then Some (Inr True)
      else check_loop model head None (conf h b c2 calls s (Some (hd xs))))"
proof -
  note down = check_loop_descend [OF sr r s' new, of calls, folded b']
  have lf: "searchable model eq mt idt val stp head (lifted h a r) b' ns'"
    using searchable_lifted(3) [OF sr r] by (simp add: b' ns')
  note nx = dll_head_next [OF searchableD(5) [OF lf]]
  show ?thesis
  proof (cases "ns' = []")
    case True
    have "check_loop model head None (conf (lifted h a r) b' (cache_add c b' s')
        (calls @ [\<lparr>cl_entry = a, cl_state = s\<rparr>]) s' None) = Some (Inr True)"
      by (rule check_loop_done) (use nx True in \<open>simp add: check_step_def\<close>)
    then show ?thesis using down nx True by simp
  next
    case False
    have "check_loop model head None (conf (lifted h a r) b' c2 (calls @ [\<lparr>cl_entry = a, cl_state = s\<rparr>]) s'
        (Some (first_return mt ns'))) = check_loop model head None (conf h b c2 calls s (Some (hd xs)))"
      unfolding b' using first_return_None [OF searchableD(3) [OF lf] False] False
      by (intro check_loop_back [OF sr r]) (simp_all add: ns')
    moreover have "n_next (lifted h a r head) = Some (hd ns')" using nx False by (cases ns') auto
    ultimately show ?thesis using down child [OF False] False by simp
  qed
qed

lemma check_loop_dfs:
  assumes "searchable model eq mt idt val stp head h b ns" "ns = us @ xs" "xs \<noteq> []"
    and "\<And>u. u \<in> set us \<Longrightarrow> mt u \<noteq> None" "length ns \<le> 2 * n"
  shows "check_loop model head None (conf h b c calls s (Some (hd xs))) =
     (case dfs eq mt idt stp n ns s b c xs of
        (True, _) \<Rightarrow> Some (Inr True)
      | (False, c') \<Rightarrow> check_loop model head None (conf h b c' calls s (Some (first_return mt ns))))"
  using assms
proof (induction eq mt idt stp n ns s b c xs arbitrary: h us calls rule: dfs.induct)
  case (3 eq mt idt stp n ns s b c a xs)
  show ?case
  proof (cases "mt a")
    case None
    then show ?thesis using first_return_here [of us mt a xs] "3.prems"(2,4) by simp
  next
    case r: (Some r)
    have sr: "searchable model eq mt idt val stp head h b (us @ a # xs)" using "3.prems"(1,2) by simp
    have xs: "xs \<noteq> []" using searchable_split [OF sr r] by blast
    have us: "\<And>u. u \<in> set (us @ [a]) \<Longrightarrow> mt u \<noteq> None" using "3.prems"(4) r by auto
    have ns: "ns = (us @ [a]) @ xs" using "3.prems"(2) by simp
    define b' where "b' = with_bit b (idt a)"
    define ns' where "ns' = without mt ns a"
    consider (refused) "stp s a = None" | (seen) s' where "stp s a = Some s'" "cache_has eq c b' s'"
      | (new) s' where "stp s a = Some s'" "\<not> cache_has eq c b' s'" by (cases "stp s a") auto
    then show ?thesis
    proof cases
      case refused
      then show ?thesis using check_loop_skip [OF sr xs r, of s c calls] "3.IH"(1) [OF _ refused "3.prems"(1) ns xs us "3.prems"(5)] r
        by simp
    next
      case seen
      then show ?thesis using check_loop_skip [OF sr xs r, of s c calls] r
          "3.IH"(2) [OF _ seen(1) b'_def refl ns'_def seen(2) "3.prems"(1) ns xs us "3.prems"(5)]
        by (simp add: b'_def)
    next
      case new
      obtain found c2 where c2: "dfs eq mt idt stp n ns' s' b' (cache_add c b' s') ns' = (found, c2)" by fastforce
      have lf: "searchable model eq mt idt val stp head (lifted h a r) b' ns'"
        using searchable_lifted(3) [OF sr r] by (simp add: b'_def ns'_def "3.prems"(2))
      have len: "length ns' \<le> 2 * n" using without_shorter [OF sr r] "3.prems"(2,5) by (simp add: ns'_def)
      have "check_loop model head None (conf h b c calls s (Some a)) =
          (if ns' = [] \<or> found then Some (Inr True) else check_loop model head None (conf h b c2 calls s (Some (hd xs))))"
      proof (rule check_loop_try [OF sr r new(1) _ _ b'_def])
        assume ne: "ns' \<noteq> []"
        show "check_loop model head None (conf (lifted h a r) b' (cache_add c b' s') (calls @ [\<lparr>cl_entry = a, cl_state = s\<rparr>]) s' (Some (hd ns'))) =
            (if found then Some (Inr True) else check_loop model head None (conf (lifted h a r) b' c2 (calls @ [\<lparr>cl_entry = a, cl_state = s\<rparr>]) s' (Some (first_return mt ns'))))"
          using "3.IH"(3) [OF _ new(1) b'_def refl ns'_def new(2) ne lf _ ne _ len, of "[]" "calls @ [\<lparr>cl_entry = a, cl_state = s\<rparr>]"] r c2
          by simp
      qed (use new(2) in \<open>simp_all add: b'_def ns'_def "3.prems"(2)\<close>)
      then show ?thesis using c2 r new
          "3.IH"(4) [OF _ new(1) b'_def refl ns'_def new(2) _ c2 [symmetric] _ "3.prems"(1) ns xs us "3.prems"(5)]
        by (simp add: b'_def [symmetric] ns'_def [symmetric] Let_def)
    qed
  qed
qed simp_all

subsection \<open>The recursion finds an order if there is one\<close>

text \<open>An order in which the calls of a list can be taken out one after the other, each before the first
  return that is left.\<close>

fun legal :: "(nat \<Rightarrow> nat option) \<Rightarrow> ('s \<Rightarrow> nat \<Rightarrow> 's option) \<Rightarrow> nat list \<Rightarrow> 's \<Rightarrow> nat list \<Rightarrow> bool" where
  "legal mt stp ns s [] \<longleftrightarrow> ns = []"
| "legal mt stp ns s (a # order) \<longleftrightarrow> a \<in> set (takeWhile (\<lambda>x. mt x \<noteq> None) ns) \<and>
     (case stp s a of None \<Rightarrow> False | Some s' \<Rightarrow> legal mt stp (without mt ns a) s' order)"

definition completable :: "(nat \<Rightarrow> nat option) \<Rightarrow> ('s \<Rightarrow> nat \<Rightarrow> 's option) \<Rightarrow> nat list \<Rightarrow> 's \<Rightarrow> bool" where
  "completable mt stp ns s \<longleftrightarrow> (\<exists>order. legal mt stp ns s order)"

lemma completable_Nil [simp]: "completable mt stp [] s"
  unfolding completable_def by (rule exI [of _ "[]"]) simp

lemma completable_step:
  "ns \<noteq> [] \<Longrightarrow> completable mt stp ns s \<longleftrightarrow>
     (\<exists>a \<in> set (takeWhile (\<lambda>x. mt x \<noteq> None) ns). \<exists>s'. stp s a = Some s' \<and> completable mt stp (without mt ns a) s')"
proof
  assume "ns \<noteq> []" "completable mt stp ns s"
  then obtain a order where "legal mt stp ns s (a # order)" unfolding completable_def by (metis legal.simps(1) list.exhaust)
  then show "\<exists>a \<in> set (takeWhile (\<lambda>x. mt x \<noteq> None) ns). \<exists>s'. stp s a = Some s' \<and> completable mt stp (without mt ns a) s'"
    by (auto simp: completable_def split: option.splits)
next
  assume "\<exists>a \<in> set (takeWhile (\<lambda>x. mt x \<noteq> None) ns). \<exists>s'. stp s a = Some s' \<and> completable mt stp (without mt ns a) s'"
  then obtain a s' order where "a \<in> set (takeWhile (\<lambda>x. mt x \<noteq> None) ns)" "stp s a = Some s'"
      "legal mt stp (without mt ns a) s' order" by (auto simp: completable_def)
  then have "legal mt stp ns s (a # order)" by simp
  then show "completable mt stp ns s" unfolding completable_def by blast
qed

lemma dfs_new:
  assumes "mt a \<noteq> None" "stp s a = Some s'" "b' = with_bit b (idt a)" "ns' = without mt ns a" "\<not> cache_has eq c b' s'"
    and "dfs eq mt idt stp n ns' s' b' (cache_add c b' s') ns' = (found, c2)"
  shows "dfs eq mt idt stp (Suc n) ns s b c (a # xs) =
     (if ns' = [] then (True, cache_add c b' s') else if found then (True, c2) else dfs eq mt idt stp (Suc n) ns s b c2 xs)"
  using assms by (auto simp: Let_def split: bool.split)

lemma dfs_sound:
  assumes "ns = us @ xs" "\<And>u. u \<in> set us \<Longrightarrow> mt u \<noteq> None" "fst (dfs eq mt idt stp n ns s b c xs)"
  shows "completable mt stp ns s"
  using assms
proof (induction eq mt idt stp n ns s b c xs arbitrary: us rule: dfs.induct)
  case (3 eq mt idt stp n ns s b c a xs)
  obtain r where r: "mt a = Some r" using "3.prems"(3) by (cases "mt a") auto
  have us: "\<And>u. u \<in> set (us @ [a]) \<Longrightarrow> mt u \<noteq> None" and ns: "ns = (us @ [a]) @ xs" using "3.prems"(1,2) r by auto
  have a: "a \<in> set (takeWhile (\<lambda>x. mt x \<noteq> None) ns)" using us unfolding ns by (subst takeWhile_append2) auto
  define b' where "b' = with_bit b (idt a)"
  define ns' where "ns' = without mt ns a"
  have ne: "ns \<noteq> []" using "3.prems"(1) by simp
  consider (refused) "stp s a = None" | (seen) s' where "stp s a = Some s'" "cache_has eq c b' s'"
    | (new) s' where "stp s a = Some s'" "\<not> cache_has eq c b' s'" by (cases "stp s a") auto
  then show ?case
  proof cases
    case refused
    then show ?thesis using "3.IH"(1) [OF _ refused ns us] "3.prems"(3) r by simp
  next
    case seen
    then show ?thesis using "3.IH"(2) [OF _ seen(1) b'_def refl ns'_def seen(2) ns us] "3.prems"(3) r by (simp add: b'_def)
  next
    case new
    obtain found c2 where c2: "dfs eq mt idt stp n ns' s' b' (cache_add c b' s') ns' = (found, c2)" by fastforce
    show ?thesis
    proof (cases "ns' = [] \<or> found")
      case True
      then have "completable mt stp ns' s'"
        using "3.IH"(3) [OF _ new(1) b'_def refl ns'_def new(2), of "[]"] r c2 by (cases "ns' = []") simp_all
      then show ?thesis using a new(1) by (auto simp: completable_step [OF ne] ns'_def)
    next
      case False
      then show ?thesis using "3.IH"(4) [OF _ new(1) b'_def refl ns'_def new(2) _ c2 [symmetric] _ ns us] "3.prems"(3) r new c2
        by (simp add: b'_def [symmetric] ns'_def [symmetric] Let_def)
    qed
  qed
qed simp_all

text \<open>What the cache stands for, and that a search without result leaves only hopeless entries behind.\<close>

definition cached :: "'s cache \<Rightarrow> (nat set \<times> 's) set" where
  "cached c = {(bits_of (ce_linearized e), ce_state e) | e k. e \<in> set (c k)}"

definition cache_wf :: "nat \<Rightarrow> 's cache \<Rightarrow> bool" where
  "cache_wf l c \<longleftrightarrow> (\<forall>k. \<forall>e \<in> set (c k). bitset_hash (ce_linearized e) = k \<and> length (ce_linearized e) = l)"

lemma cached_empty [simp]: "cached (\<lambda>_. []) = {}" "cache_wf l (\<lambda>_. [])"
  by (simp_all add: cached_def cache_wf_def)

lemma cache_has_iff:
  assumes "cache_wf (length b) c"
  shows "cache_has eq c b s \<longleftrightarrow> (\<exists>t. (bits_of b, t) \<in> cached c \<and> eq s t)"
proof
  assume "cache_has eq c b s"
  then show "\<exists>t. (bits_of b, t) \<in> cached c \<and> eq s t"
    by (auto simp: cache_has_def list_ex_iff bitset_equals_iff cached_def)
next
  assume "\<exists>t. (bits_of b, t) \<in> cached c \<and> eq s t"
  then obtain e k where e: "e \<in> set (c k)" "bits_of (ce_linearized e) = bits_of b" "eq s (ce_state e)"
    by (auto simp: cached_def)
  then have "ce_linearized e = b" "k = bitset_hash b"
    using assms bits_of_inject [of "ce_linearized e" b] by (auto simp: cache_wf_def)
  then show "cache_has eq c b s" using e unfolding cache_has_def list_ex_iff bitset_equals_iff by auto
qed

lemma cached_add: "cached (cache_add c b s) = insert (bits_of b, s) (cached c)"
  unfolding cached_def cache_add_def by (auto split: if_splits) force+

lemma cache_wf_add: "cache_wf (length b) c \<Longrightarrow> cache_wf (length b) (cache_add c b s)"
  by (auto simp: cache_wf_def cache_add_def)

definition rest :: "(nat \<Rightarrow> nat) \<Rightarrow> nat list \<Rightarrow> nat set \<Rightarrow> nat list" where
  "rest idt ns B = filter (\<lambda>x. idt x \<notin> B) ns"

definition hopeless ::
  "(nat \<Rightarrow> nat option) \<Rightarrow> (nat \<Rightarrow> nat) \<Rightarrow> ('s \<Rightarrow> nat \<Rightarrow> 's option) \<Rightarrow> nat list \<Rightarrow> nat \<Rightarrow> 's cache \<Rightarrow> bool" where
  "hopeless mt idt stp ns0 k c \<longleftrightarrow> (\<forall>(B, t) \<in> cached c. k < card B \<longrightarrow> \<not> completable mt stp (rest idt ns0 B) t)"

lemma hopelessD:
  "hopeless mt idt stp ns0 k c \<Longrightarrow> (B, t) \<in> cached c \<Longrightarrow> k < card B \<Longrightarrow> \<not> completable mt stp (rest idt ns0 B) t"
  unfolding hopeless_def by blast

lemma hopeless_add:
  assumes "hopeless mt idt stp ns0 k c" "card (bits_of b) = Suc k"
  shows "hopeless mt idt stp ns0 (Suc k) (cache_add c b s)"
  unfolding hopeless_def
proof (intro ballI, clarify)
  fix B t assume "(B, t) \<in> cached (cache_add c b s)" "Suc k < card B" "completable mt stp (rest idt ns0 B) t"
  then show False using assms hopelessD [OF assms(1), of B t] by (auto simp: cached_add)
qed

lemma without_rest:
  assumes "room mt idt b (rest idt ns0 (bits_of b))" "a \<in> set (rest idt ns0 (bits_of b))" "mt a = Some r" "idt r = idt a"
  shows "without mt (rest idt ns0 (bits_of b)) a = rest idt ns0 (insert (idt a) (bits_of b))"
proof -
  have "x \<noteq> a \<and> mt a \<noteq> Some x \<longleftrightarrow> idt x \<noteq> idt a" if "x \<in> set (rest idt ns0 (bits_of b))" for x
    using roomD(3) [OF assms(1,2) that] assms(3,4) by auto
  then have "without mt (rest idt ns0 (bits_of b)) a = filter (\<lambda>x. idt x \<noteq> idt a) (rest idt ns0 (bits_of b))"
    unfolding without_def by (intro filter_cong) simp_all
  then show ?thesis by (simp add: rest_def) meson
qed

text \<open>The search below a new call has failed: the cache is hopeless one level up, too.\<close>

lemma hopeless_up:
  assumes "hopeless mt idt stp ns0 k c" "hopeless mt idt stp ns0 (Suc k) c2"
    and "\<And>B t. (B, t) \<in> cached c2 \<Longrightarrow> card B \<le> Suc k \<Longrightarrow> (B, t) \<in> insert (B', s') (cached c)"
    and "\<not> completable mt stp (rest idt ns0 B') s'"
  shows "hopeless mt idt stp ns0 k c2"
  unfolding hopeless_def
proof (intro ballI, clarify)
  fix B t assume in_c2: "(B, t) \<in> cached c2" and k: "k < card B" and compl: "completable mt stp (rest idt ns0 B) t"
  show False
  proof (cases "card B \<le> Suc k")
    case True
    then show ?thesis using assms(1,4) assms(3) [OF in_c2 True] k compl by (auto simp: hopeless_def)
  next
    case False
    then show ?thesis using assms(2) in_c2 compl by (auto simp: hopeless_def)
  qed
qed

lemma without_length:
  assumes "balanced mt ns" "a \<in> set ns" "mt a = Some r"
  shows "length ns = length (without mt ns a) + 2"
proof -
  obtain us vs ws where "ns = us @ a # vs @ r # ws" using before_split [OF balancedD(2) [OF assms]] by blast
  then show ?thesis using without_split [of mt us a vs r ws] assms by simp
qed

definition exhausted ::
  "(nat \<Rightarrow> nat option) \<Rightarrow> (nat \<Rightarrow> nat) \<Rightarrow> ('s \<Rightarrow> nat \<Rightarrow> 's option) \<Rightarrow> nat list \<Rightarrow> bitset \<Rightarrow> nat list \<Rightarrow> 's \<Rightarrow>
     's cache \<Rightarrow> nat list \<Rightarrow> 's cache \<Rightarrow> bool" where
  "exhausted mt idt stp ns0 b ns s c xs c' \<longleftrightarrow>
     cache_wf (length b) c' \<and> hopeless mt idt stp ns0 (card (bits_of b)) c' \<and>
     (\<forall>B t. (B, t) \<in> cached c' \<longrightarrow> card B \<le> card (bits_of b) \<longrightarrow> (B, t) \<in> cached c) \<and>
     (\<forall>a \<in> set (takeWhile (\<lambda>x. mt x \<noteq> None) xs). \<forall>s'. stp s a = Some s' \<longrightarrow> \<not> completable mt stp (without mt ns a) s')"

lemma exhausted_Cons:
  assumes "exhausted mt idt stp ns0 b ns s c xs c'"
    and "\<And>s'. stp s a = Some s' \<Longrightarrow> \<not> completable mt stp (without mt ns a) s'"
    and "\<And>B t. (B, t) \<in> cached c \<Longrightarrow> card B \<le> card (bits_of b) \<Longrightarrow> (B, t) \<in> cached c0"
  shows "exhausted mt idt stp ns0 b ns s c0 (a # xs) c'"
  using assms by (auto simp: exhausted_def)

lemma exhausted_all:
  "exhausted mt idt stp ns0 b ns s c ns c' \<Longrightarrow> ns \<noteq> [] \<Longrightarrow> \<not> completable mt stp ns s"
  by (auto simp: exhausted_def completable_step)

lemma exhausted_below:
  assumes "hopeless mt idt stp ns0 (card (bits_of b)) c" "card (bits_of b') = Suc (card (bits_of b))" "length b' = length b"
    and "ns' = rest idt ns0 (bits_of b')" "ns' \<noteq> []" "exhausted mt idt stp ns0 b' ns' s' (cache_add c b' s') ns' c2"
  shows "\<not> completable mt stp ns' s'" "hopeless mt idt stp ns0 (card (bits_of b)) c2" "cache_wf (length b) c2"
    and "(B, t) \<in> cached c2 \<Longrightarrow> card B \<le> card (bits_of b) \<Longrightarrow> (B, t) \<in> cached c"
proof -
  show dead: "\<not> completable mt stp ns' s'" by (rule exhausted_all [OF assms(6,5)])
  have old: "(B, t) \<in> insert (bits_of b', s') (cached c)" if "(B, t) \<in> cached c2" "card B \<le> Suc (card (bits_of b))" for B t
    using assms(6) that unfolding exhausted_def cached_add assms(2) by blast
  show "hopeless mt idt stp ns0 (card (bits_of b)) c2"
    by (rule hopeless_up [OF assms(1) _ old]) (use assms(2,4,6) dead in \<open>simp_all add: exhausted_def\<close>)
  show "cache_wf (length b) c2" using assms(3,6) by (simp add: exhausted_def)
  show "(B, t) \<in> cached c" if "(B, t) \<in> cached c2" "card B \<le> card (bits_of b)" using old [OF that(1)] that(2) assms(2) by auto
qed

lemma dfs_complete:
  assumes "ns = rest idt ns0 (bits_of b)" "balanced mt ns" "room mt idt b ns"
    and "\<And>a r. a \<in> set ns0 \<Longrightarrow> mt a = Some r \<Longrightarrow> idt r = idt a" and "\<And>s t. eq s t \<Longrightarrow> s = t"
    and "cache_wf (length b) c" "hopeless mt idt stp ns0 (card (bits_of b)) c" "length ns \<le> 2 * n"
    and "set xs \<subseteq> set ns" "dfs eq mt idt stp n ns s b c xs = (False, c')"
  shows "exhausted mt idt stp ns0 b ns s c xs c'"
  using assms
proof (induction eq mt idt stp n ns s b c xs arbitrary: c' rule: dfs.induct)
  case (3 eq mt idt stp n ns s b c a xs)
  show ?case
  proof (cases "mt a")
    case None
    then show ?thesis using "3.prems"(6,7,10) by (simp add: exhausted_def)
  next
    case r: (Some r)
    define b' where "b' = with_bit b (idt a)"
    define ns' where "ns' = without mt ns a"
    have a: "a \<in> set ns" "set xs \<subseteq> set ns" "idt r = idt a" using "3.prems"(1,4,9) r by (auto simp: rest_def)
    have bits: "bits_of b' = insert (idt a) (bits_of b)" "length b' = length b"
      unfolding b'_def by (rule with_bit_set [OF roomD(1) [OF "3.prems"(3) a(1)]])+
    have card: "card (bits_of b') = Suc (card (bits_of b))" using roomD(2) [OF "3.prems"(3) a(1)] by (simp add: bits)
    have ns': "ns' = rest idt ns0 (bits_of b')"
      using without_rest [of mt idt b ns0 a r] "3.prems"(1,3) a r by (simp add: ns'_def bits)
    note rest = "3.prems"(1-5)
    have call: "mt a \<noteq> None" using r by simp
    consider (refused) "stp s a = None" | (seen) s' where "stp s a = Some s'" "cache_has eq c b' s'"
      | (new) s' where "stp s a = Some s'" "\<not> cache_has eq c b' s'" by (cases "stp s a") auto
    then show ?thesis
    proof cases
      case refused
      have go: "dfs eq mt idt stp (Suc n) ns s b c xs = (False, c')" using "3.prems"(10) r refused by simp
      have "exhausted mt idt stp ns0 b ns s c xs c'" by (rule "3.IH"(1)) (fact call refused "3.prems" a(2) go)+
      then show ?thesis by (rule exhausted_Cons) (use refused in auto)
    next
      case seen
      obtain t where t: "(bits_of b', t) \<in> cached c" "eq s' t"
        using seen(2) "3.prems"(6) cache_has_iff [of b' c eq s'] bits(2) by auto
      have "\<not> completable mt stp ns' s'"
        using hopelessD [OF "3.prems"(7) t(1)] "3.prems"(5) [OF t(2)] card by (simp add: ns')
      moreover have go: "dfs eq mt idt stp (Suc n) ns s b c xs = (False, c')" using "3.prems"(10) r seen by (simp add: b'_def)
      have "exhausted mt idt stp ns0 b ns s c xs c'"
        by (rule "3.IH"(2) [OF call seen(1) b'_def refl ns'_def seen(2)]) (fact "3.prems" a(2) go)+
      ultimately show ?thesis by (intro exhausted_Cons) (use seen in \<open>auto simp: ns'_def\<close>)
    next
      case new
      obtain found c2 where c2: "dfs eq mt idt stp n ns' s' b' (cache_add c b' s') ns' = (found, c2)" by fastforce
      have nf: "ns' \<noteq> []" "\<not> found" "dfs eq mt idt stp (Suc n) ns s b c2 xs = (False, c')"
        using "3.prems"(10) dfs_new [OF _ new(1) b'_def ns'_def new(2) c2] r by (simp_all split: if_splits)
      have c2': "dfs eq mt idt stp n ns' s' b' (cache_add c b' s') ns' = (False, c2)" using c2 nf(2) by simp
      have hl: "hopeless mt idt stp ns0 (card (bits_of b')) (cache_add c b' s')"
        unfolding card by (rule hopeless_add [OF "3.prems"(7) card])
      have len: "length ns' \<le> 2 * n" using without_length [OF rest(2) a(1) r] "3.prems"(8) by (simp add: ns'_def)
      have wf: "cache_wf (length b') (cache_add c b' s')" using "3.prems"(6) by (intro cache_wf_add) (simp add: bits)
      have bal: "balanced mt ns'" unfolding ns'_def by (rule balanced_without [OF rest(2) a(1) r])
      have room: "room mt idt b' ns'" unfolding b'_def ns'_def by (rule room_without [OF rest(3) a(1) call])
      have ex: "exhausted mt idt stp ns0 b' ns' s' (cache_add c b' s') ns' c2"
        by (rule "3.IH"(3) [OF call new(1) b'_def refl ns'_def new(2) nf(1)])
          (fact ns' bal room "3.prems" wf hl len subset_refl c2')+
      note below = exhausted_below [OF "3.prems"(7) card bits(2) ns' nf(1) ex]
      have "exhausted mt idt stp ns0 b ns s c2 xs c'"
        by (rule "3.IH"(4) [OF call new(1) b'_def refl ns'_def new(2) nf(1) c2' [symmetric] refl])
          (fact "3.prems" a(2) nf(3) below)+
      then show ?thesis by (rule exhausted_Cons) (use below(1,4) new(1) in \<open>simp_all add: ns'_def\<close>)
    qed
  qed
qed (auto simp: exhausted_def)

subsection \<open>Orders of calls\<close>

lemma in_takeWhile_calls:
  assumes "distinct ns" "a \<in> set ns"
  shows "a \<in> set (takeWhile P ns) \<longleftrightarrow> P a \<and> (\<forall>x. before ns x a \<longrightarrow> P x)"
  using assms by (induction ns) (auto dest: before_set)

lemma candidate_iff:
  assumes "balanced mt ns"
  shows "a \<in> set (takeWhile (\<lambda>x. mt x \<noteq> None) ns) \<longleftrightarrow>
     a \<in> set ns \<and> mt a \<noteq> None \<and> (\<forall>y \<in> {y \<in> set ns. mt y \<noteq> None}. \<not> before ns (the (mt y)) a)"
proof (cases "a \<in> set ns")
  case True
  have "(\<forall>x. before ns x a \<longrightarrow> mt x \<noteq> None) \<longleftrightarrow> (\<forall>y \<in> {y \<in> set ns. mt y \<noteq> None}. \<not> before ns (the (mt y)) a)"
  proof (intro iffI ballI allI impI)
    fix y assume "\<forall>x. before ns x a \<longrightarrow> mt x \<noteq> None" "y \<in> {y \<in> set ns. mt y \<noteq> None}"
    then show "\<not> before ns (the (mt y)) a" using balancedD(3) [OF assms, of y "the (mt y)"] by auto
  next
    fix x assume all: "\<forall>y \<in> {y \<in> set ns. mt y \<noteq> None}. \<not> before ns (the (mt y)) a" and x: "before ns x a"
    show "mt x \<noteq> None"
    proof
      assume "mt x = None"
      then obtain y where "y \<in> set ns" "mt y = Some x" using balancedD(4) [OF assms] before_set [OF x] by blast
      then show False using all x by force
    qed
  qed
  then show ?thesis using in_takeWhile_calls [OF balancedD(1) [OF assms] True, of "\<lambda>x. mt x \<noteq> None"] True by simp
qed (auto dest: set_takeWhileD)

lemma before_asym: "distinct ns \<Longrightarrow> before ns x y \<Longrightarrow> \<not> before ns y x"
  by (induction ns) (auto dest: before_set)

lemma in_real_time_cong:
  assumes "\<And>x y. x \<in> set order \<Longrightarrow> y \<in> set order \<Longrightarrow> prec x y \<longleftrightarrow> prec' x y"
  shows "in_real_time prec order \<longleftrightarrow> in_real_time prec' order"
  using assms by (auto simp: in_real_time_def intro: sorted_wrt_mono_rel [rotated])

lemma in_real_time_Cons:
  "in_real_time prec (a # order) \<longleftrightarrow> (\<forall>y \<in> set order. \<not> prec y a) \<and> in_real_time prec order"
  by (simp add: in_real_time_def)

lemma legal_iff:
  assumes "balanced mt ns"
  shows "legal mt stp ns s order \<longleftrightarrow> distinct order \<and> set order = {a \<in> set ns. mt a \<noteq> None} \<and>
     in_real_time (\<lambda>x y. before ns (the (mt x)) y) order \<and> accepts stp s order"
  using assms
proof (induction order arbitrary: ns s)
  case Nil
  have "{a \<in> set ns. mt a \<noteq> None} = {} \<longleftrightarrow> ns = []" using balancedD(4) [OF Nil] by (cases ns) force+
  then show ?case by (auto simp: in_real_time_def)
next
  case (Cons a order)
  let ?calls = "\<lambda>ns. {a \<in> set ns. mt a \<noteq> None}"
  let ?prec = "\<lambda>ns x y. before ns (the (mt x)) y"
  show ?case
  proof (cases "a \<in> ?calls ns")
    case True
    then obtain r where r: "mt a = Some r" "a \<in> set ns" by auto
    let ?ns = "without mt ns a"
    note b = balancedD [OF Cons.prems]
    have bal: "balanced mt ?ns" by (rule balanced_without [OF Cons.prems r(2,1)])
    have calls: "?calls ns = insert a (?calls ?ns)" "a \<notin> ?calls ?ns"
      using r b(3) [OF r(2,1)] by (auto simp: in_without)
    have self: "\<not> before ns (the (mt a)) a" using before_asym [OF b(1) b(2) [OF r(2,1)]] r(1) by simp
    have prec: "?prec ?ns x y \<longleftrightarrow> ?prec ns x y" if x: "x \<in> ?calls ?ns" and y: "y \<in> ?calls ?ns" for x y
    proof -
      obtain q where q: "mt x = Some q" using x by auto
      have "before ?ns x q" by (rule balancedD(2) [OF bal _ q]) (use x in simp)
      then have "q \<noteq> a \<and> mt a \<noteq> Some q" using before_set in_without by blast
      moreover have "y \<noteq> a \<and> mt a \<noteq> Some y" using y by (simp add: in_without)
      ultimately show ?thesis unfolding q without_def option.sel by (rule before_filter)
    qed
    define C where "C = ?calls ?ns"
    have C: "?calls ns = insert a C" "a \<notin> C" unfolding C_def by (rule calls)+
    have cand: "a \<in> set (takeWhile (\<lambda>x. mt x \<noteq> None) ns) \<longleftrightarrow> (\<forall>y \<in> C. \<not> ?prec ns y a)"
      using candidate_iff [OF Cons.prems, of a] r self unfolding C(1) by simp
    have rt: "in_real_time (?prec ?ns) order \<longleftrightarrow> in_real_time (?prec ns) order" if "set order = C"
      by (rule in_real_time_cong) (use prec that in \<open>simp only: C_def\<close>)
    have order: "distinct (a # order) \<and> set (a # order) = insert a C \<longleftrightarrow> distinct order \<and> set order = C"
      using C(2) unfolding distinct.simps list.set by (metis insert_ident)
    show ?thesis
    proof (cases "stp s a")
      case None
      then show ?thesis by simp
    next
      case (Some s')
      have "legal mt stp ns s (a # order) \<longleftrightarrow> (\<forall>y \<in> C. \<not> ?prec ns y a) \<and> legal mt stp ?ns s' order"
        using cand Some by simp
      also have "\<dots> \<longleftrightarrow> (distinct order \<and> set order = C) \<and> (\<forall>y \<in> set order. \<not> ?prec ns y a) \<and>
          in_real_time (?prec ns) order \<and> accepts stp s' order"
        unfolding Cons.IH [OF bal] C_def [symmetric] using rt by blast
      also have "\<dots> \<longleftrightarrow> (distinct (a # order) \<and> set (a # order) = insert a C) \<and>
          in_real_time (?prec ns) (a # order) \<and> accepts stp s (a # order)"
        unfolding order in_real_time_Cons using Some by simp
      finally show ?thesis unfolding C(1) by blast
    qed
  next
    case False
    then have "\<not> legal mt stp ns s (a # order)" using candidate_iff [OF Cons.prems, of a] by simp
    moreover have "set (a # order) \<noteq> ?calls ns" using False by (metis list.set_intros(1))
    ultimately show ?thesis by blast
  qed
qed

lemma completable_iff:
  assumes "balanced mt ns"
  shows "completable mt stp ns s \<longleftrightarrow>
     linearizable stp s (\<lambda>x y. before ns (the (mt x)) y) {a \<in> set ns. mt a \<noteq> None}"
  unfolding completable_def linearizable_def legal_iff [OF assms] by blast

text \<open>The whole search, from a list without tried calls and an empty cache.\<close>

lemma check_loop_correct:
  assumes sr: "searchable model eq mt idt val stp head h b ns" and eq: "\<And>s t. eq s t \<Longrightarrow> s = t"
    and b: "bits_of b = {}" and idt: "\<And>a r. a \<in> set ns \<Longrightarrow> mt a = Some r \<Longrightarrow> idt r = idt a"
  shows "check_loop model head None (conf h b (\<lambda>_. []) [] s (case ns of [] \<Rightarrow> None | x # _ \<Rightarrow> Some x)) =
     Some (Inr (completable mt stp ns s))"
proof (cases "ns = []")
  case True
  then show ?thesis using dll_head_next [OF searchableD(5) [OF sr]]
    by (subst check_loop_done) (simp_all add: check_step_def)
next
  case False
  note sr' = searchableD [OF sr]
  obtain found c where dfs: "dfs eq mt idt stp (length ns) ns s b (\<lambda>_. []) ns = (found, c)" by fastforce
  have loop: "check_loop model head None (conf h b (\<lambda>_. []) [] s (Some (hd ns))) =
      (if found then Some (Inr True) else check_loop model head None (conf h b c [] s (Some (first_return mt ns))))"
    using check_loop_dfs [OF sr, of "[]" ns "length ns" "\<lambda>_. []" "[]" s] False dfs by simp
  have entry: "(case ns of [] \<Rightarrow> None | x # _ \<Rightarrow> Some x) = Some (hd ns)" using False by (cases ns) auto
  have fail: "check_loop model head None (conf h b c [] s (Some (first_return mt ns))) = Some (Inr False)"
  proof (rule check_loop_done)
    have "n_next (h head) \<noteq> None" using dll_head_next [OF sr'(5)] entry by simp
    then show "check_step model head False (conf h b c [] s (Some (first_return mt ns))) = Inr (Inl False)"
      using first_return_None [OF sr'(3) False] by (simp add: check_step_def check_return_def sr'(6))
  qed
  have "found \<longleftrightarrow> completable mt stp ns s"
  proof
    assume found
    then show "completable mt stp ns s"
      using dfs_sound [of ns "[]" ns mt eq idt stp "length ns" s b "\<lambda>_. []"] dfs by simp
  next
    assume compl: "completable mt stp ns s"
    show found
    proof (rule ccontr)
      assume nf: "\<not> found"
      have "exhausted mt idt stp ns b ns s (\<lambda>_. []) ns c"
        by (rule dfs_complete [where n = "length ns" and eq = eq])
          (use sr' idt eq b dfs nf in \<open>simp_all add: rest_def hopeless_def\<close>)
      then have "\<not> completable mt stp ns s" by (rule exhausted_all) (rule False)
      then show False using compl by blast
    qed
  qed
  then show ?thesis using loop fail unfolding entry by simp
qed

end
