(* ===== verification/Lin_Entries.thy ===== *)
theory Lin_Entries
  imports Lin_Check
begin

section \<open>The verdict on one sequence of entries\<close>

text \<open>
  Histories as sequences of entries: \<open>well_matched\<close> says that every operation has one call and one later
  return, \<open>linearizable_entries\<close> that its operations have an order that the model accepts and in which an
  operation that returned before another one was called comes first. The theory puts the construction of the list,
  the loop and the search together: on a well-matched sequence \<open>checkSingle\<close> always returns, without panic, and
  returns whether the sequence is linearizable.
\<close>

definition well_matched :: "'v entry list \<Rightarrow> nat \<Rightarrow> bool" where
  "well_matched es n \<longleftrightarrow>
     (\<forall>r < length es. en_id (es ! r) < n) \<and>
     (\<forall>i < n. \<exists>p q. p < q \<and> q < length es \<and>
        en_kind (es ! p) = callEntry \<and> en_id (es ! p) = i \<and> en_kind (es ! q) = returnEntry \<and> en_id (es ! q) = i \<and>
        (\<forall>r < length es. en_id (es ! r) = i \<longrightarrow> r = p \<or> r = q))"

definition entry_pos :: "'v entry list \<Rightarrow> entryKind \<Rightarrow> nat \<Rightarrow> nat" where
  "entry_pos es k i = the (List.find (\<lambda>p. en_kind (es ! p) = k \<and> en_id (es ! p) = i) [0..<length es])"

definition entry_step :: "('v, 's) Model \<Rightarrow> 'v entry list \<Rightarrow> 's \<Rightarrow> nat \<Rightarrow> 's option" where
  "entry_step model es s i =
     model_step model s (en_value (es ! entry_pos es callEntry i)) (en_value (es ! entry_pos es returnEntry i))"

definition entry_precedes :: "'v entry list \<Rightarrow> nat \<Rightarrow> nat \<Rightarrow> bool" where
  "entry_precedes es i j \<longleftrightarrow> entry_pos es returnEntry i < entry_pos es callEntry j"

definition linearizable_entries :: "('v, 's) Model \<Rightarrow> 'v entry list \<Rightarrow> nat \<Rightarrow> bool" where
  "linearizable_entries model es n \<longleftrightarrow> linearizable (entry_step model es) (Init model) (entry_precedes es) {..<n}"

definition never_panics :: "('v, 's) Model \<Rightarrow> 'v entry list \<Rightarrow> nat \<Rightarrow> bool" where
  "never_panics model es n \<longleftrightarrow> (\<forall>s. \<forall>i < n. \<exists>r.
     Step model s (en_value (es ! entry_pos es callEntry i)) (en_value (es ! entry_pos es returnEntry i)) = Inr r)"

lemma find_unique:
  "x \<in> set xs \<Longrightarrow> P x \<Longrightarrow> (\<And>y. y \<in> set xs \<Longrightarrow> P y \<Longrightarrow> y = x) \<Longrightarrow> List.find P xs = Some x"
proof (induction xs)
  case (Cons z xs)
  show ?case
  proof (cases "P z")
    case True
    then show ?thesis using Cons.prems(3) [of z] by simp
  next
    case False
    then have x: "x \<in> set xs" using Cons.prems(1,2) by auto
    have "List.find P xs = Some x" by (rule Cons.IH [OF x Cons.prems(2) Cons.prems(3)]) simp_all
    then show ?thesis using False by simp
  qed
qed simp

lemma well_matched_pos:
  assumes "well_matched es n" "i < n"
  shows "entry_pos es callEntry i < entry_pos es returnEntry i" "entry_pos es returnEntry i < length es"
    and "en_kind (es ! entry_pos es k i) = k" "en_id (es ! entry_pos es k i) = i"
    and "p < length es \<Longrightarrow> en_id (es ! p) = i \<Longrightarrow> p = entry_pos es (en_kind (es ! p)) i"
proof -
  obtain p q where pq: "p < q" "q < length es" "en_kind (es ! p) = callEntry" "en_id (es ! p) = i"
    "en_kind (es ! q) = returnEntry" "en_id (es ! q) = i"
    "\<And>r. r < length es \<Longrightarrow> en_id (es ! r) = i \<Longrightarrow> r = p \<or> r = q"
    using assms unfolding well_matched_def by blast
  have pos: "entry_pos es (en_kind (es ! x)) i = x" if x: "x \<in> {p, q}" for x
  proof -
    have "y = x" if "y < length es" "en_kind (es ! y) = en_kind (es ! x)" "en_id (es ! y) = i" for y
      using pq(7) [OF that(1,3)] that(2) pq(3,5) x by auto
    then have "List.find (\<lambda>p. en_kind (es ! p) = en_kind (es ! x) \<and> en_id (es ! p) = i) [0..<length es] = Some x"
      by (intro find_unique) (use x pq(1,2,4,6) in auto)
    then show ?thesis by (simp add: entry_pos_def)
  qed
  have c: "entry_pos es callEntry i = p" and r: "entry_pos es returnEntry i = q" using pos [of p] pos [of q] pq(3,5) by simp_all
  show "entry_pos es callEntry i < entry_pos es returnEntry i" "entry_pos es returnEntry i < length es"
    using pq(1,2) c r by simp_all
  show "en_kind (es ! entry_pos es k i) = k" "en_id (es ! entry_pos es k i) = i"
    by (cases k; use pq(3-6) in \<open>simp add: c r\<close>)+
  show "p = entry_pos es (en_kind (es ! p)) i" if "p < length es" "en_id (es ! p) = i" for p
    using pq(7) [OF that] pq(3,5) c r by auto
qed

lemma well_matched_length:
  assumes "well_matched es n"
  shows "length es = 2 * n"
proof -
  have ids: "{r. r < length es \<and> en_id (es ! r) = i} = {entry_pos es callEntry i, entry_pos es returnEntry i}"
    if i: "i < n" for i
  proof (intro set_eqI iffI)
    note pos = well_matched_pos [OF assms i]
    fix r assume "r \<in> {r. r < length es \<and> en_id (es ! r) = i}"
    then have "r = entry_pos es (en_kind (es ! r)) i" using pos(5) by blast
    then show "r \<in> {entry_pos es callEntry i, entry_pos es returnEntry i}" by (cases "en_kind (es ! r)") auto
  next
    note pos = well_matched_pos [OF assms i]
    fix r assume "r \<in> {entry_pos es callEntry i, entry_pos es returnEntry i}"
    then show "r \<in> {r. r < length es \<and> en_id (es ! r) = i}" using pos(1,2,4) by auto
  qed
  have "{..<length es} = (\<Union>i \<in> {..<n}. {r. r < length es \<and> en_id (es ! r) = i})"
    using assms by (auto simp: well_matched_def)
  moreover have "card (\<Union>i \<in> {..<n}. {r. r < length es \<and> en_id (es ! r) = i}) =
      (\<Sum>i \<in> {..<n}. card {r. r < length es \<and> en_id (es ! r) = i})"
    by (rule card_UN_disjoint) auto
  moreover have "\<dots> = (\<Sum>i \<in> {..<n}. 2)"
  proof (rule sum.cong [OF refl])
    fix i assume "i \<in> {..<n}"
    then show "card {r. r < length es \<and> en_id (es ! r) = i} = 2"
      using ids [of i] well_matched_pos(1) [OF assms, of i] by (simp add: card_insert_if)
  qed
  ultimately have "card {..<length es} = n * 2" by simp
  then show ?thesis by simp
qed

subsection \<open>The list of a well-matched sequence\<close>

abbreviation match_of :: "'v entry list \<Rightarrow> nat \<Rightarrow> nat option" where
  "match_of es a \<equiv> n_match (headed_store es a)"

lemma match_of_entry:
  assumes "well_matched es n" "p < length es"
  shows "match_of es p = (if en_kind (es ! p) = returnEntry then None else Some (entry_pos es returnEntry (en_id (es ! p))))"
proof (cases "en_kind (es ! p) = returnEntry")
  case False
  then have call: "en_kind (es ! p) = callEntry" by (cases "en_kind (es ! p)") auto
  let ?i = "en_id (es ! p)"
  have i: "?i < n" using assms by (auto simp: well_matched_def)
  note pos = well_matched_pos [OF assms(1) i]
  have p: "p = entry_pos es callEntry ?i" using pos(5) [OF assms(2) refl] call by simp
  have "return_from es (Suc p) ?i = Some (entry_pos es returnEntry ?i)"
    unfolding return_from_def
  proof (rule find_unique)
    show "entry_pos es returnEntry ?i \<in> set [Suc p..<length es]" using pos(1,2) p by simp
    show "en_kind (es ! entry_pos es returnEntry ?i) = returnEntry \<and> en_id (es ! entry_pos es returnEntry ?i) = ?i"
      using pos(3,4) by simp
    fix y assume "y \<in> set [Suc p..<length es]" "en_kind (es ! y) = returnEntry \<and> en_id (es ! y) = ?i"
    then show "y = entry_pos es returnEntry ?i" using pos(5) [of y] by simp
  qed
  then show ?thesis using False assms(2) by (simp add: headed_store_simps)
qed (use assms(2) in \<open>simp add: headed_store_simps\<close>)

lemma before_upt: "before [0..<m] x y \<longleftrightarrow> x < y \<and> y < m"
  by (induction m) (auto simp: before_append)

lemma call_at:
  assumes "well_matched es n" "p < length es" "match_of es p = Some r"
  shows "en_id (es ! p) < n" "p = entry_pos es callEntry (en_id (es ! p))" "r = entry_pos es returnEntry (en_id (es ! p))"
    and "p < r" "r < length es" "en_id (es ! r) = en_id (es ! p)" "match_of es r = None"
proof -
  have k: "en_kind (es ! p) = callEntry" and r: "r = entry_pos es returnEntry (en_id (es ! p))"
    using match_of_entry [OF assms(1,2)] assms(3) by (auto split: if_splits intro: entryKind.exhaust)
  show i: "en_id (es ! p) < n" using assms(1,2) by (auto simp: well_matched_def)
  note pos = well_matched_pos [OF assms(1) i]
  show p: "p = entry_pos es callEntry (en_id (es ! p))" using pos(5) [OF assms(2) refl] k by simp
  show "r = entry_pos es returnEntry (en_id (es ! p))" by (rule r)
  show "p < r" "r < length es" "en_id (es ! r) = en_id (es ! p)" using pos(1,2,4) p r by simp_all
  show "match_of es r = None" using match_of_entry [OF assms(1), of r] pos(2,3) r by simp
qed

lemma entries_balanced:
  assumes "well_matched es n"
  shows "balanced (match_of es) [0..<length es]"
  unfolding balanced_def
proof (intro conjI ballI allI impI)
  fix p assume "p \<in> set [0..<length es]"
  then have p: "p < length es" by simp
  {
    fix r assume r: "match_of es p = Some r"
    note at = call_at [OF assms p r]
    show "before [0..<length es] p r" using at(4,5) by (simp add: before_upt)
    show "match_of es r = None" by (rule at(7))
    fix p' assume "p' \<in> set [0..<length es]" and r': "match_of es p' = Some r"
    then have "p' < length es" by simp
    from call_at [OF assms this r'] show "p = p'" using at(2,6) by metis
  }
  assume "match_of es p = None"
  then have k: "en_kind (es ! p) = returnEntry" using match_of_entry [OF assms p] by (simp split: if_splits)
  have i: "en_id (es ! p) < n" using assms p by (auto simp: well_matched_def)
  note pos = well_matched_pos [OF assms i]
  let ?c = "entry_pos es callEntry (en_id (es ! p))"
  have "match_of es ?c = Some p"
    using match_of_entry [OF assms, of ?c] pos(1-4) pos(5) [OF p refl] k by simp
  moreover have "?c \<in> set [0..<length es]" using pos(1,2) by simp
  ultimately show "\<exists>a \<in> set [0..<length es]. match_of es a = Some p" by blast
qed simp

definition position_step :: "('v, 's) Model \<Rightarrow> 'v entry list \<Rightarrow> 's \<Rightarrow> nat \<Rightarrow> 's option" where
  "position_step model es s p = entry_step model es s (en_id (es ! p))"

lemma entries_searchable:
  assumes wm: "well_matched es n" and np: "never_panics model es n" and eq: "Equal model = Some eq"
  shows "searchable model eq (match_of es) (\<lambda>a. n_id (headed_store es a)) (\<lambda>a. n_value (headed_store es a))
     (position_step model es) (length es) (headed_store es) (newBitset (length es div 2)) [0..<length es]"
  unfolding searchable_def
proof (intro conjI)
  show "fixed_fields (match_of es) (\<lambda>a. n_id (headed_store es a)) (\<lambda>a. n_value (headed_store es a)) (headed_store es)"
    by (simp add: fixed_fields_def)
  show "steps_as model (match_of es) (\<lambda>a. n_value (headed_store es a)) (position_step model es) [0..<length es]"
    unfolding steps_as_def
  proof (intro allI ballI impI)
    fix s p r assume "p \<in> set [0..<length es]" and r: "match_of es p = Some r"
    then have p: "p < length es" by simp
    note at = call_at [OF wm p r]
    obtain ok s' where "Step model s (en_value (es ! p)) (en_value (es ! r)) = Inr (ok, s')"
      using np at(1-3) unfolding never_panics_def by (metis surj_pair)
    then show "\<exists>ok s'. call_Step model s (n_value (headed_store es p)) (n_value (headed_store es r)) = Inr (ok, s') \<and>
        position_step model es s p = (if ok then Some s' else None)"
      using p at(2,3,5) by (auto simp: call_Step_def headed_store_simps position_step_def entry_step_def model_step_def)
  qed
  show "room (match_of es) (\<lambda>a. n_id (headed_store es a)) (newBitset (length es div 2)) [0..<length es]"
    unfolding room_def
  proof (intro conjI ballI impI)
    have n: "length es div 2 = n" using well_matched_length [OF wm] by simp
    fix p assume "p \<in> set [0..<length es]"
    then have p: "p < length es" by simp
    have i: "en_id (es ! p) < n" using wm p by (auto simp: well_matched_def)
    then show "n_id (headed_store es p) < 64 * length (newBitset (length es div 2))"
      using length_newBitset [of n] p n by (simp add: headed_store_simps)
    show "n_id (headed_store es p) \<notin> bits_of (newBitset (length es div 2))" by simp
    fix x assume x: "x \<in> set [0..<length es]" and call: "match_of es p \<noteq> None"
      and same: "n_id (headed_store es x) = n_id (headed_store es p)"
    obtain r where r: "match_of es p = Some r" using call by auto
    have "x = entry_pos es (en_kind (es ! x)) (en_id (es ! p))"
      using well_matched_pos(5) [OF wm i, of x] x same p by (simp add: headed_store_simps)
    then show "x = p \<or> match_of es p = Some x"
      using call_at(2,3) [OF wm p r] r by (cases "en_kind (es ! x)") auto
  qed
qed (use eq entries_balanced [OF wm] headed_store_dll in auto)

lemma node_length_linked:
  "i \<le> length es \<Longrightarrow> node_length (linked_store es 0) (linked_root es i) l = Some (l + (length es - i))"
proof (induction "length es - i" arbitrary: i l)
  case 0
  then show ?case by (simp add: node_length.simps linked_root_def)
next
  case (Suc k)
  then have i: "i < length es" by simp
  then have "n_next (linked_store es 0 i) = linked_root es (Suc i)" by (simp add: linked_store_def linked_root_def)
  then show ?case using Suc i by (subst node_length.simps) (simp add: linked_root_def)
qed

text \<open>The search names an operation by the position of its call; renaming the operations by their
  identifiers gives the statement about the sequence of entries.\<close>

lemma positions_linearizable:
  assumes wm: "well_matched es n"
  shows "linearizable (position_step model es) s (\<lambda>x y. before [0..<length es] (the (match_of es x)) y)
      {p \<in> set [0..<length es]. match_of es p \<noteq> None} \<longleftrightarrow>
    linearizable (entry_step model es) s (entry_precedes es) {..<n}"
proof -
  let ?X = "{p \<in> set [0..<length es]. match_of es p \<noteq> None}"
  let ?f = "\<lambda>p. en_id (es ! p)"
  have at: "?f p < n \<and> p = entry_pos es callEntry (?f p) \<and> the (match_of es p) = entry_pos es returnEntry (?f p)" if p: "p \<in> ?X" for p
  proof -
    obtain r where "p < length es" "match_of es p = Some r" using p by auto
    then show ?thesis using call_at [OF wm, of p r] by simp
  qed
  have image: "?f ` ?X = {..<n}"
  proof (intro set_eqI iffI)
    fix i assume "i \<in> {..<n}"
    then have i: "i < n" by simp
    note pos = well_matched_pos [OF wm i]
    let ?c = "entry_pos es callEntry i"
    have "?c < length es" using pos(1,2) by simp
    then have "?c \<in> ?X" using match_of_entry [OF wm, of ?c] pos(3) by simp
    then show "i \<in> ?f ` ?X" using pos(4) by (intro image_eqI [of _ _ ?c]) simp_all
  qed (use at in auto)
  have "linearizable (position_step model es) s (\<lambda>x y. before [0..<length es] (the (match_of es x)) y) ?X \<longleftrightarrow>
      linearizable (entry_step model es) s (entry_precedes es) (?f ` ?X)"
  proof (rule linearizable_image)
    show "inj_on ?f ?X" using at by (metis (no_types, lifting) inj_onI)
    show "position_step model es s x = entry_step model es s (?f x)" for s x by (simp add: position_step_def)
    fix x y assume x: "x \<in> ?X" and y: "y \<in> ?X"
    have "y < length es" using y by simp
    then show "before [0..<length es] (the (match_of es x)) y \<longleftrightarrow> entry_precedes es (?f x) (?f y)"
      using at [OF x] at [OF y] by (simp add: before_upt entry_precedes_def)
  qed
  then show ?thesis by (simp only: image)
qed

lemma checkSingle_linked:
  assumes wm: "well_matched es n" and np: "never_panics model es n"
    and eq: "Equal model = Some eq" "\<And>s t. eq s t \<Longrightarrow> s = t"
  shows "(case makeLinkedEntries es of (h, l) \<Rightarrow> checkSingle model h l (length es) None) =
     Some (Inr (linearizable_entries model es n))"
proof -
  let ?idt = "\<lambda>a. n_id (headed_store es a)"
  have entry: "linked_root es 0 = (case [0..<length es] of [] \<Rightarrow> None | x # _ \<Rightarrow> Some x)"
    by (simp add: linked_root_def upt_conv_Cons)
  have loop: "check_loop model (length es) None (conf (headed_store es) (newBitset (length es div 2)) (\<lambda>_. []) [] (Init model) (linked_root es 0)) =
      Some (Inr (completable (match_of es) (position_step model es) [0..<length es] (Init model)))"
    unfolding entry
  proof (rule check_loop_correct [OF entries_searchable [OF wm np eq(1)] eq(2)])
    fix p r assume "p \<in> set [0..<length es]" and r: "match_of es p = Some r"
    then have "p < length es" by simp
    then show "?idt r = ?idt p" using call_at [OF wm _ r] by (simp add: headed_store_simps)
  qed simp_all
  have "(case makeLinkedEntries es of (h, l) \<Rightarrow> checkSingle model h l (length es) None) =
      check_loop model (length es) None (conf (headed_store es) (newBitset (length es div 2)) (\<lambda>_. []) [] (Init model) (linked_root es 0))"
    using node_length_linked [of 0 es 0] by (simp add: makeLinkedEntries_linked checkSingle_def headed_store_def Let_def)
  then show ?thesis
    unfolding loop completable_iff [OF entries_balanced [OF wm]] positions_linearizable [OF wm] linearizable_entries_def .
qed

text \<open>C26: on every sequence of entries in which each operation has one call and one later return, with a model
  whose steps do not panic and whose equality is sound, \<open>checkSingle\<close> on the list that \<open>makeLinkedEntries\<close> builds
  returns, without panic, and its answer is whether some order of the operations that respects real time is
  accepted by the model.\<close>

theorem checkSingle_decides:
  assumes "well_matched es n" "never_panics model es n" "Equal model = Some eq" "\<And>s t. eq s t \<Longrightarrow> s = t"
  shows "(case makeLinkedEntries es of (h, l) \<Rightarrow> checkSingle model h l (length es) None) =
    Some (Inr (linearizable_entries model es n))"
  by (rule checkSingle_linked [OF assms])

text \<open>Two overlapping operations on a register: a write of one and a read that returns one.\<close>

definition sample_model :: "(nat option, nat) Model" where
  "sample_model = \<lparr>Partition = None, PartitionEvent = None, Init = 0,
     Step = (\<lambda>s i out. Inr (case i of None \<Rightarrow> (out = Some s, s) | Some v \<Rightarrow> (True, v))), Equal = Some ShallowEqual\<rparr>"

definition sample_entries :: "nat option entry list" where
  "sample_entries =
    [\<lparr>en_kind = callEntry, en_value = None, en_id = 1, en_time = 1\<rparr>, \<lparr>en_kind = callEntry, en_value = Some 1, en_id = 0, en_time = 2\<rparr>,
     \<lparr>en_kind = returnEntry, en_value = None, en_id = 0, en_time = 3\<rparr>, \<lparr>en_kind = returnEntry, en_value = Some 1, en_id = 1, en_time = 4\<rparr>]"

lemma all_less_2: "(\<forall>i < (2::nat). P i) \<longleftrightarrow> P 0 \<and> P 1"
  by (auto simp: numeral_2_eq_2 less_Suc_eq)

lemma all_less_4: "(\<forall>i < (4::nat). P i) \<longleftrightarrow> P 0 \<and> P 1 \<and> P 2 \<and> P 3"
  by (auto simp: numeral_eq_Suc less_Suc_eq)

lemma sample_matched: "well_matched sample_entries 2"
proof -
  have len: "length sample_entries = 4" by (simp add: sample_entries_def)
  show ?thesis
    unfolding well_matched_def len all_less_2 all_less_4
    by (intro conjI exI [of _ 0] exI [of _ 1] exI [of _ 2] exI [of _ 3]) (simp_all add: sample_entries_def)
qed

lemma sample_runs: "never_panics sample_model sample_entries 2"
  by (simp add: never_panics_def sample_model_def)

lemma sample_linearizable: "linearizable_entries sample_model sample_entries 2"
  unfolding linearizable_entries_def linearizable_def
proof (intro exI conjI)
  show "distinct [0, 1::nat]" "set [0, 1] = {..<2::nat}" by auto
  show "in_real_time (entry_precedes sample_entries) [0, 1]" "accepts (entry_step sample_model sample_entries) (Init sample_model) [0, 1]"
    by (simp_all add: in_real_time_def entry_precedes_def entry_pos_def entry_step_def model_step_def sample_entries_def sample_model_def)
qed

theorem checkSingle_decides_witness:
  "(case makeLinkedEntries sample_entries of (h, l) \<Rightarrow> checkSingle sample_model h l (length sample_entries) None) = Some (Inr True)"
proof -
  have "Equal sample_model = Some ShallowEqual" by (simp add: sample_model_def)
  from checkSingle_decides [OF sample_matched sample_runs this] sample_linearizable show ?thesis by (simp add: ShallowEqual_def)
qed

end
