(* ===== verification/Lin_Operations.thy ===== *)
theory Lin_Operations
  imports Lin_Entries
begin

section \<open>Checking histories of operations and of events\<close>

text \<open>
  \<open>CheckOperations\<close> and \<open>CheckEvents\<close> of \<^verbatim>\<open>src/linearizability/linearizability.go\<close>: one goroutine per partition of
  the history, whose verdicts arrive in any order. An arrival is \<open>Some k\<close> for the verdict on partition \<open>k\<close> and
  \<open>None\<close> for the timer; \<open>None\<close> as a result means that the function is still waiting. The goroutines are killed
  only once the verdict is fixed, so that the verdicts received are those of undisturbed searches.
\<close>

subsection \<open>The operations\<close>

definition check_goroutine :: "('v, 's) Model \<Rightarrow> 'v entry list \<Rightarrow> bool result option" where
  "check_goroutine model es = (case makeLinkedEntries es of (h, l) \<Rightarrow> checkSingle model h l (length es) None)"

fun collect :: "bool result option list \<Rightarrow> bool \<Rightarrow> nat \<Rightarrow> bool \<Rightarrow> nat option list \<Rightarrow> bool result option" where
  "collect results timed seen ok [] = None"
| "collect results timed seen ok (None # arrivals) =
     (if timed then Some (Inr ok) else collect results timed seen ok arrivals)"
| "collect results timed seen ok (Some k # arrivals) =
     (if length results \<le> k then None
      else case results ! k of
        None \<Rightarrow> None
      | Some (Inl e) \<Rightarrow> Some (Inl e)
      | Some (Inr result) \<Rightarrow>
          let ok = (ok \<and> result) in
          if \<not> ok then Some (Inr ok)
          else if seen + 1 \<ge> length results then Some (Inr ok)
          else collect results timed (seen + 1) ok arrivals)"

definition call_Partition :: "('h \<Rightarrow> 'h list result) option \<Rightarrow> 'h \<Rightarrow> 'h list result" where
  "call_Partition f history = (case f of None \<Rightarrow> Inl nil_dereference | Some p \<Rightarrow> p history)"

definition CheckOperationsTimeout ::
  "('v entry list \<Rightarrow> 'v entry list) \<Rightarrow> ('v, 's) Model \<Rightarrow> 'v Operation list \<Rightarrow> int \<Rightarrow> nat option list \<Rightarrow> bool result option" where
  "CheckOperationsTimeout sorter model history timeout arrivals =
     (let model = fillDefault model in
      case call_Partition (Partition model) history of
        Inl e \<Rightarrow> Some (Inl e)
      | Inr partitions \<Rightarrow>
          collect (map (\<lambda>subhistory. check_goroutine model (makeEntries sorter subhistory)) partitions)
            (timeout > 0) 0 True arrivals)"

definition CheckOperations ::
  "('v entry list \<Rightarrow> 'v entry list) \<Rightarrow> ('v, 's) Model \<Rightarrow> 'v Operation list \<Rightarrow> nat option list \<Rightarrow> bool result option" where
  "CheckOperations sorter model history arrivals = CheckOperationsTimeout sorter model history 0 arrivals"

definition CheckEventsTimeout ::
  "('v, 's) Model \<Rightarrow> 'v Event list \<Rightarrow> int \<Rightarrow> nat option list \<Rightarrow> bool result option" where
  "CheckEventsTimeout model history timeout arrivals =
     (let model = fillDefault model in
      case call_Partition (PartitionEvent model) history of
        Inl e \<Rightarrow> Some (Inl e)
      | Inr partitions \<Rightarrow>
          collect (map (\<lambda>subhistory. check_goroutine model (convertEntries (renumber subhistory))) partitions)
            (timeout > 0) 0 True arrivals)"

definition CheckEvents :: "('v, 's) Model \<Rightarrow> 'v Event list \<Rightarrow> nat option list \<Rightarrow> bool result option" where
  "CheckEvents model history arrivals = CheckEventsTimeout model history 0 arrivals"

subsection \<open>Collecting verdicts\<close>

text \<open>Without a timer the verdict is the conjunction of all, in whatever order they arrive.\<close>

lemma collect_all:
  assumes "\<And>k. k < length results \<Longrightarrow> results ! k = Some (Inr (verdict k))"
    and "seen + length ks = length results" "ks \<noteq> []" "\<And>k. k \<in> set ks \<Longrightarrow> k < length results"
  shows "collect results timed seen True (map Some ks) = Some (Inr (\<forall>k \<in> set ks. verdict k))"
  using assms
proof (induction ks arbitrary: seen)
  case (Cons k ks)
  then have k: "results ! k = Some (Inr (verdict k))" "k < length results" by simp_all
  show ?case
  proof (cases "verdict k \<and> ks \<noteq> []")
    case True
    then have "collect results timed (seen + 1) True (map Some ks) = Some (Inr (\<forall>k \<in> set ks. verdict k))"
      using Cons.prems by (intro Cons.IH) auto
    moreover have "\<not> seen + 1 \<ge> length results" using Cons.prems(2) True by (cases ks) auto
    ultimately show ?thesis using True k by simp
  next
    case False
    then show ?thesis using k Cons.prems(2) by (auto simp: Let_def)
  qed
qed simp

text \<open>A timer can only cut the collection short: a negative verdict is always one that was received.\<close>

lemma collect_False:
  "collect results timed seen True arrivals = Some (Inr False) \<Longrightarrow> \<exists>k < length results. results ! k = Some (Inr False)"
proof (induction arrivals arbitrary: seen)
  case (Cons a arrivals)
  show ?case
  proof (cases a)
    case None
    then show ?thesis using Cons by (auto split: if_splits)
  next
    case (Some k)
    then show ?thesis using Cons by (cases "results ! k") (auto simp: Let_def not_le split: if_splits sum.splits)
  qed
qed simp

lemma fillDefault_simps [simp]:
  "Init (fillDefault model) = Init model" "Step (fillDefault model) = Step model"
  "Equal (fillDefault model) = Some (case Equal model of None \<Rightarrow> ShallowEqual | Some eq \<Rightarrow> eq)"
  "Partition (fillDefault model) = Some (case Partition model of None \<Rightarrow> NoPartition | Some p \<Rightarrow> p)"
  "PartitionEvent (fillDefault model) = Some (case PartitionEvent model of None \<Rightarrow> NoPartitionEvent | Some p \<Rightarrow> p)"
  by (auto simp: fillDefault_def Let_def split: option.splits)

subsection \<open>Operations as entries\<close>

abbreviation call_of :: "'v Operation list \<Rightarrow> nat \<Rightarrow> 'v entry" where
  "call_of history i \<equiv> \<lparr>en_kind = callEntry, en_value = Input (history ! i), en_id = i, en_time = Call (history ! i)\<rparr>"

abbreviation return_of :: "'v Operation list \<Rightarrow> nat \<Rightarrow> 'v entry" where
  "return_of history i \<equiv> \<lparr>en_kind = returnEntry, en_value = Output (history ! i), en_id = i, en_time = Return (history ! i)\<rparr>"

text \<open>What \<open>sort.Sort\<close> with \<open>byTime\<close> promises.\<close>

definition sorts_by_time :: "('v entry list \<Rightarrow> 'v entry list) \<Rightarrow> bool" where
  "sorts_by_time sorter \<longleftrightarrow> (\<forall>es. mset (sorter es) = mset es \<and> sorted (map en_time (sorter es)))"

text \<open>A history with real time stamps: an operation takes time, and no operation is called at the very
  moment another returns.\<close>

definition timed_history :: "'v Operation list \<Rightarrow> bool" where
  "timed_history history \<longleftrightarrow> (\<forall>x \<in> set history. Call x < Return x \<and> (\<forall>y \<in> set history. Return x \<noteq> Call y))"

lemma operation_entries_eq:
  "operation_entries k history = concat (map (\<lambda>i. [(call_of history i)\<lparr>en_id := k + i\<rparr>, (return_of history i)\<lparr>en_id := k + i\<rparr>]) [0..<length history])"
proof (induction history arbitrary: k)
  case (Cons x history)
  have "[0..<length (x # history)] = 0 # map Suc [0..<length history]" by (simp add: upt_conv_Cons map_Suc_upt del: upt_Suc)
  then show ?case by (simp add: Cons comp_def del: upt_Suc)
qed simp

lemma set_operation_entries: "set (operation_entries 0 history) = call_of history ` {..<length history} \<union> return_of history ` {..<length history}"
  by (auto simp: operation_entries_eq)

lemma distinct_concat_pairs:
  "distinct xs \<Longrightarrow> (\<And>x. x \<in> set xs \<Longrightarrow> f x \<noteq> g x) \<Longrightarrow> (\<And>x y. x \<in> set xs \<Longrightarrow> y \<in> set xs \<Longrightarrow> x \<noteq> y \<Longrightarrow> {f x, g x} \<inter> {f y, g y} = {}) \<Longrightarrow>
   distinct (concat (map (\<lambda>x. [f x, g x]) xs))"
  by (induction xs) auto

lemma distinct_operation_entries: "distinct (operation_entries 0 history)"
  unfolding operation_entries_eq by (rule distinct_concat_pairs) auto

lemma makeEntries_facts:
  assumes "sorts_by_time sorter"
  shows "distinct (makeEntries sorter history)" "sorted (map en_time (makeEntries sorter history))"
    and "set (makeEntries sorter history) = call_of history ` {..<length history} \<union> return_of history ` {..<length history}"
proof -
  have "mset (makeEntries sorter history) = mset (operation_entries 0 history)"
    using assms by (simp add: sorts_by_time_def makeEntries_def)
  then show "distinct (makeEntries sorter history)"
    and "set (makeEntries sorter history) = call_of history ` {..<length history} \<union> return_of history ` {..<length history}"
    using distinct_operation_entries set_operation_entries by (metis distinct_count_atmost_1 mset_eq_imp_distinct_iff, metis set_mset_mset)
  show "sorted (map en_time (makeEntries sorter history))" using assms by (simp add: sorts_by_time_def makeEntries_def)
qed

lemma makeEntries_earlier:
  assumes "sorts_by_time sorter" "p < length (makeEntries sorter history)" "q < length (makeEntries sorter history)"
    and "en_time (makeEntries sorter history ! p) < en_time (makeEntries sorter history ! q)"
  shows "p < q"
proof (rule ccontr)
  assume "\<not> p < q"
  then have "en_time (makeEntries sorter history ! q) \<le> en_time (makeEntries sorter history ! p)"
    using sorted_nth_mono [OF makeEntries_facts(2) [OF assms(1)], of q p history] assms(2,3) by simp
  then show False using assms(4) by simp
qed

lemma makeEntries_well_matched:
  assumes s: "sorts_by_time sorter" and t: "timed_history history"
  shows "well_matched (makeEntries sorter history) (length history)"
  unfolding well_matched_def
proof (intro conjI allI impI)
  let ?es = "makeEntries sorter history"
  note facts = makeEntries_facts [OF s, of history]
  fix r assume "r < length ?es"
  then have "?es ! r \<in> set ?es" by simp
  then show "en_id (?es ! r) < length history" unfolding facts(3) by auto
next
  let ?es = "makeEntries sorter history"
  note facts = makeEntries_facts [OF s, of history]
  fix i assume i: "i < length history"
  then have "call_of history i \<in> set ?es" "return_of history i \<in> set ?es" unfolding facts(3) by auto
  then obtain p q where p: "p < length ?es" "?es ! p = call_of history i" and q: "q < length ?es" "?es ! q = return_of history i"
    by (metis in_set_conv_nth)
  have "p < q"
    by (rule makeEntries_earlier [OF s p(1) q(1)]) (use p(2) q(2) t i in \<open>simp add: timed_history_def\<close>)
  moreover have "r = p \<or> r = q" if r: "r < length ?es" "en_id (?es ! r) = i" for r
  proof -
    have "?es ! r \<in> set ?es" using r(1) by simp
    then have "?es ! r = ?es ! p \<or> ?es ! r = ?es ! q" unfolding facts(3) p(2) q(2) using r(2) by auto
    then show ?thesis using nth_eq_iff_index_eq [OF facts(1)] r(1) p(1) q(1) by simp
  qed
  ultimately show "\<exists>p q. p < q \<and> q < length ?es \<and>
      en_kind (?es ! p) = callEntry \<and> en_id (?es ! p) = i \<and> en_kind (?es ! q) = returnEntry \<and> en_id (?es ! q) = i \<and>
      (\<forall>r < length ?es. en_id (?es ! r) = i \<longrightarrow> r = p \<or> r = q)"
    using p(2) q by (intro exI [of _ p] exI [of _ q]) simp
qed

lemma makeEntries_at:
  assumes s: "sorts_by_time sorter" and t: "timed_history history" and i: "i < length history"
  shows "makeEntries sorter history ! entry_pos (makeEntries sorter history) callEntry i = call_of history i"
    and "makeEntries sorter history ! entry_pos (makeEntries sorter history) returnEntry i = return_of history i"
proof -
  let ?es = "makeEntries sorter history"
  note pos = well_matched_pos [OF makeEntries_well_matched [OF s t] i]
  have "?es ! entry_pos ?es k i \<in> set ?es" for k using pos(1,2) by (cases k) simp_all
  then have "?es ! entry_pos ?es k i \<in> call_of history ` {..<length history} \<union> return_of history ` {..<length history}" for k
    unfolding makeEntries_facts(3) [OF s, of history] .
  from this [of callEntry] this [of returnEntry]
  show "?es ! entry_pos ?es callEntry i = call_of history i" "?es ! entry_pos ?es returnEntry i = return_of history i"
    using pos(3) [of callEntry] pos(4) [of callEntry] pos(3) [of returnEntry] pos(4) [of returnEntry] by auto
qed

lemma makeEntries_linearizable:
  assumes s: "sorts_by_time sorter" and t: "timed_history history"
  shows "linearizable_entries model (makeEntries sorter history) (length history) \<longleftrightarrow> linearizable_ops model history"
proof -
  let ?es = "makeEntries sorter history"
  have "linearizable (entry_step model ?es) (Init model) (entry_precedes ?es) {..<length history} \<longleftrightarrow>
      linearizable (op_step model history) (Init model) (op_precedes history) (id ` {..<length history})"
  proof (rule linearizable_image)
    fix s x assume "x \<in> {..<length history}"
    then show "entry_step model ?es s x = op_step model history s (id x)"
      using makeEntries_at [OF assms, of x] by (simp add: entry_step_def op_step_def)
  next
    fix x y assume "x \<in> {..<length history}" "y \<in> {..<length history}"
    then have x: "x < length history" and y: "y < length history" by simp_all
    let ?r = "entry_pos ?es returnEntry x" and ?c = "entry_pos ?es callEntry y"
    have times: "en_time (?es ! ?r) = Return (history ! x)" "en_time (?es ! ?c) = Call (history ! y)"
      using makeEntries_at [OF assms x] makeEntries_at [OF assms y] by simp_all
    have len: "?r < length ?es" "?c < length ?es"
      using well_matched_pos(1,2) [OF makeEntries_well_matched [OF assms] x] well_matched_pos(1,2) [OF makeEntries_well_matched [OF assms] y]
      by simp_all
    have "?r < ?c" if "Return (history ! x) < Call (history ! y)"
      using makeEntries_earlier [OF s len] that times by simp
    moreover have "?c < ?r" if "Call (history ! y) < Return (history ! x)"
      using makeEntries_earlier [OF s len(2,1)] that times by simp
    moreover have "Return (history ! x) \<noteq> Call (history ! y)" using t x y by (simp add: timed_history_def)
    ultimately show "entry_precedes ?es x y \<longleftrightarrow> op_precedes history (id x) (id y)"
      unfolding entry_precedes_def op_precedes_def by (cases rule: linorder_cases [of "Return (history ! x)" "Call (history ! y)"]) auto
  qed simp
  then show ?thesis by (simp add: linearizable_entries_def linearizable_ops_def)
qed

text \<open>A model that can be run on a history: its step never panics and its equality is sound.\<close>

definition runs_on :: "('v, 's) Model \<Rightarrow> 'v Operation list \<Rightarrow> bool" where
  "runs_on model history \<longleftrightarrow> (\<forall>s. \<forall>x \<in> set history. \<exists>r. Step model s (Input x) (Output x) = Inr r) \<and>
     (\<forall>eq s t. Equal model = Some eq \<longrightarrow> eq s t \<longrightarrow> s = t)"

lemma check_goroutine_operations:
  assumes s: "sorts_by_time sorter" and t: "timed_history history" and r: "runs_on model history"
  shows "check_goroutine (fillDefault model) (makeEntries sorter history) = Some (Inr (linearizable_ops model history))"
proof -
  let ?es = "makeEntries sorter history" and ?eq = "case Equal model of None \<Rightarrow> ShallowEqual | Some eq \<Rightarrow> eq"
  have "never_panics (fillDefault model) ?es (length history)"
    using r makeEntries_at [OF s t] by (simp add: never_panics_def runs_on_def)
  moreover have "\<And>s t. ?eq s t \<Longrightarrow> s = t" using r by (auto simp: runs_on_def ShallowEqual_def split: option.splits)
  ultimately have "check_goroutine (fillDefault model) ?es = Some (Inr (linearizable_entries (fillDefault model) ?es (length history)))"
    unfolding check_goroutine_def by (intro checkSingle_linked [where eq = ?eq] makeEntries_well_matched [OF s t]) simp_all
  also have "linearizable_entries (fillDefault model) ?es (length history) = linearizable_ops (fillDefault model) history"
    by (rule makeEntries_linearizable [OF s t])
  also have "\<dots> = linearizable_ops model history"
    by (simp add: linearizable_ops_def op_step_def [abs_def] model_step_def [abs_def])
  finally show ?thesis .
qed

text \<open>The verdict is right whatever the order in which the goroutines answer.\<close>

lemma CheckOperations_partitioned:
  assumes s: "sorts_by_time sorter" and p: "call_Partition (Partition (fillDefault model)) history = Inr ps" and ps: "ps \<noteq> []"
    and t: "\<And>sub. sub \<in> set ps \<Longrightarrow> timed_history sub" and r: "\<And>sub. sub \<in> set ps \<Longrightarrow> runs_on model sub"
    and ks: "mset ks = mset [0..<length ps]"
  shows "CheckOperationsTimeout sorter model history timeout (map Some ks) = Some (Inr (\<forall>sub \<in> set ps. linearizable_ops model sub))"
proof -
  let ?results = "map (\<lambda>sub. check_goroutine (fillDefault model) (makeEntries sorter sub)) ps"
  have set: "set ks = {..<length ps}" and len: "length ks = length ps"
    using mset_eq_setD [OF ks] mset_eq_length [OF ks] by (auto simp: atLeast0LessThan)
  have "collect ?results (timeout > 0) 0 True (map Some ks) = Some (Inr (\<forall>k \<in> set ks. linearizable_ops model (ps ! k)))"
    by (rule collect_all) (use s t r set len ps in \<open>auto simp: check_goroutine_operations\<close>)
  also have "(\<forall>k \<in> set ks. linearizable_ops model (ps ! k)) \<longleftrightarrow> (\<forall>sub \<in> set ps. linearizable_ops model sub)"
    unfolding set by (auto simp: all_set_conv_all_nth)
  finally show ?thesis using p by (simp add: CheckOperationsTimeout_def Let_def)
qed

text \<open>A negative verdict is right even when the timer cuts the check short or verdicts are missing.\<close>

lemma CheckOperations_negative:
  assumes s: "sorts_by_time sorter" and p: "call_Partition (Partition (fillDefault model)) history = Inr ps"
    and t: "\<And>sub. sub \<in> set ps \<Longrightarrow> timed_history sub" and r: "\<And>sub. sub \<in> set ps \<Longrightarrow> runs_on model sub"
    and no: "CheckOperationsTimeout sorter model history timeout arrivals = Some (Inr False)"
  shows "\<exists>sub \<in> set ps. \<not> linearizable_ops model sub"
proof -
  let ?results = "map (\<lambda>sub. check_goroutine (fillDefault model) (makeEntries sorter sub)) ps"
  have "collect ?results (timeout > 0) 0 True arrivals = Some (Inr False)"
    using no p by (simp add: CheckOperationsTimeout_def Let_def)
  from collect_False [OF this]
  obtain k where "k < length ps" "check_goroutine (fillDefault model) (makeEntries sorter (ps ! k)) = Some (Inr False)" by auto
  then show ?thesis using check_goroutine_operations [OF s t r, of "ps ! k"] by auto
qed

subsection \<open>Events\<close>

text \<open>The meaning of a history of events, on its own identifiers.\<close>

definition matched_events :: "'v Event list \<Rightarrow> bool" where
  "matched_events events \<longleftrightarrow> (\<forall>i \<in> ev_Id ` set events. \<exists>p q. p < q \<and> q < length events \<and>
     ev_Kind (events ! p) = CallEvent \<and> ev_Id (events ! p) = i \<and> ev_Kind (events ! q) = ReturnEvent \<and> ev_Id (events ! q) = i \<and>
     (\<forall>r < length events. ev_Id (events ! r) = i \<longrightarrow> r = p \<or> r = q))"

definition event_pos :: "'v Event list \<Rightarrow> EventKind \<Rightarrow> nat \<Rightarrow> nat" where
  "event_pos events k i = the (List.find (\<lambda>p. ev_Kind (events ! p) = k \<and> ev_Id (events ! p) = i) [0..<length events])"

definition event_step :: "('v, 's) Model \<Rightarrow> 'v Event list \<Rightarrow> 's \<Rightarrow> nat \<Rightarrow> 's option" where
  "event_step model events s i =
     model_step model s (ev_Value (events ! event_pos events CallEvent i)) (ev_Value (events ! event_pos events ReturnEvent i))"

definition event_precedes :: "'v Event list \<Rightarrow> nat \<Rightarrow> nat \<Rightarrow> bool" where
  "event_precedes events i j \<longleftrightarrow> event_pos events ReturnEvent i < event_pos events CallEvent j"

definition linearizable_events :: "('v, 's) Model \<Rightarrow> 'v Event list \<Rightarrow> bool" where
  "linearizable_events model events \<longleftrightarrow>
     linearizable (event_step model events) (Init model) (event_precedes events) (ev_Id ` set events)"

definition runs_on_events :: "('v, 's) Model \<Rightarrow> 'v Event list \<Rightarrow> bool" where
  "runs_on_events model events \<longleftrightarrow>
     (\<forall>s. \<forall>i \<in> ev_Id ` set events. \<exists>r. Step model s (ev_Value (events ! event_pos events CallEvent i))
        (ev_Value (events ! event_pos events ReturnEvent i)) = Inr r) \<and>
     (\<forall>eq s t. Equal model = Some eq \<longrightarrow> eq s t \<longrightarrow> s = t)"

text \<open>Renumbering is an injective renaming of the identifiers onto an initial segment.\<close>

fun renumber_map :: "(nat \<rightharpoonup> nat) \<Rightarrow> nat \<Rightarrow> 'v Event list \<Rightarrow> (nat \<rightharpoonup> nat)" where
  "renumber_map m ident [] = m"
| "renumber_map m ident (v # events) =
     (case m (ev_Id v) of
        Some r \<Rightarrow> renumber_map m ident events
      | None \<Rightarrow> renumber_map (m(ev_Id v \<mapsto> ident)) (ident + 1) events)"

definition renumbering :: "'v Event list \<Rightarrow> nat \<Rightarrow> nat" where
  "renumbering events i = the (renumber_map Map.empty 0 events i)"

lemma renumber_map_keeps: "m i = Some r \<Longrightarrow> renumber_map m ident events i = Some r"
proof (induction events arbitrary: m ident)
  case (Cons v events)
  show ?case
  proof (cases "m (ev_Id v)")
    case None
    then have "(m(ev_Id v \<mapsto> ident)) i = Some r" using Cons.prems by auto
    from Cons.IH [of "m(ev_Id v \<mapsto> ident)", OF this] show ?thesis by (simp only: renumber_map.simps None option.case)
  qed (use Cons in simp)
qed simp

lemma renumber_map_dom: "dom (renumber_map m ident events) = dom m \<union> ev_Id ` set events"
  by (induction events arbitrary: m ident) (auto split: option.splits)

lemma renumber_map_inj:
  "inj_on m (dom m) \<Longrightarrow> ran m = {..<ident} \<Longrightarrow>
   inj_on (renumber_map m ident events) (dom (renumber_map m ident events)) \<and> (\<exists>n. ran (renumber_map m ident events) = {..<n})"
proof (induction events arbitrary: m ident)
  case (Cons v events)
  show ?case
  proof (cases "m (ev_Id v)")
    case None
    let ?m = "m(ev_Id v \<mapsto> ident)"
    have fresh: "m j \<noteq> Some ident" for j using Cons.prems(2) by (metis lessThan_iff less_irrefl ranI)
    have "inj_on ?m (dom ?m)"
    proof (rule inj_onI)
      fix i j assume "i \<in> dom ?m" "j \<in> dom ?m" "?m i = ?m j"
      then show "i = j" using fresh [of i] fresh [of j] inj_onD [OF Cons.prems(1), of i j] by (auto split: if_splits)
    qed
    moreover have "ran ?m = {..<ident + 1}" unfolding ran_map_upd [of m "ev_Id v", OF None] Cons.prems(2) by auto
    ultimately show ?thesis by (simp only: renumber_map.simps None option.case) (rule Cons.IH)
  qed (use Cons in simp)
qed auto

lemma renumber_loop_renames:
  "renumber_loop m ident events = map (\<lambda>e. e\<lparr>ev_Id := the (renumber_map m ident events (ev_Id e))\<rparr>) events"
proof (induction events arbitrary: m ident)
  case (Cons v events)
  show ?case
  proof (cases "m (ev_Id v)")
    case None
    have "renumber_map (m(ev_Id v \<mapsto> ident)) (ident + 1) events (ev_Id v) = Some ident" by (rule renumber_map_keeps) simp
    then show ?thesis by (simp only: renumber_map.simps renumber_loop.simps None option.case list.map Cons option.sel)
  next
    case (Some r)
    then show ?thesis using renumber_map_keeps [of m, OF Some, of ident events] by (simp add: Cons)
  qed
qed simp

abbreviation entry_kind :: "EventKind \<Rightarrow> entryKind" where
  "entry_kind k \<equiv> if k = ReturnEvent then returnEntry else callEntry"

lemma entry_kind_eq [simp]: "entry_kind k = entry_kind k' \<longleftrightarrow> k = k'"
  by (cases k; cases k') simp_all

locale renumbered =
  fixes events :: "'v Event list" and f :: "nat \<Rightarrow> nat" and n :: nat
  assumes inj: "inj_on f (ev_Id ` set events)"
    and onto: "f ` (ev_Id ` set events) = {..<n}"
    and renamed: "renumber events = map (\<lambda>e. e\<lparr>ev_Id := f (ev_Id e)\<rparr>) events"
begin

lemma length_entries [simp]: "length (convertEntries (renumber events)) = length events"
  by (simp add: convertEntries_def renamed)

lemma entry_at:
  "p < length events \<Longrightarrow> convertEntries (renumber events) ! p =
     \<lparr>en_kind = entry_kind (ev_Kind (events ! p)), en_value = ev_Value (events ! p), en_id = f (ev_Id (events ! p)), en_time = -1\<rparr>"
  by (simp add: convertEntries_def renamed)

lemma id_at: "p < length events \<Longrightarrow> i \<in> ev_Id ` set events \<Longrightarrow> f (ev_Id (events ! p)) = f i \<longleftrightarrow> ev_Id (events ! p) = i"
  using inj by (auto simp: inj_on_def)

lemma pos_eq:
  assumes "i \<in> ev_Id ` set events"
  shows "entry_pos (convertEntries (renumber events)) (entry_kind k) (f i) = event_pos events k i"
proof -
  have "List.find (\<lambda>p. en_kind (convertEntries (renumber events) ! p) = entry_kind k \<and> en_id (convertEntries (renumber events) ! p) = f i) [0..<length events] =
     List.find (\<lambda>p. ev_Kind (events ! p) = k \<and> ev_Id (events ! p) = i) [0..<length events]"
    by (rule find_cong) (auto simp: entry_at id_at [OF _ assms])
  then show ?thesis by (simp only: entry_pos_def event_pos_def length_entries)
qed

lemma matched:
  assumes "matched_events events"
  shows "well_matched (convertEntries (renumber events)) n"
  unfolding well_matched_def length_entries
proof (intro conjI allI impI)
  fix r assume r: "r < length events"
  then have "f (ev_Id (events ! r)) \<in> f ` (ev_Id ` set events)" by simp
  then show "en_id (convertEntries (renumber events) ! r) < n" unfolding onto using r by (simp add: entry_at)
next
  fix x assume "x < n"
  then obtain i where i: "i \<in> ev_Id ` set events" "x = f i" using onto by (metis imageE lessThan_iff)
  obtain p q where pq: "p < q" "q < length events" "ev_Kind (events ! p) = CallEvent" "ev_Id (events ! p) = i"
    "ev_Kind (events ! q) = ReturnEvent" "ev_Id (events ! q) = i" "\<forall>r < length events. ev_Id (events ! r) = i \<longrightarrow> r = p \<or> r = q"
    using assms i(1) unfolding matched_events_def by blast
  show "\<exists>p q. p < q \<and> q < length events \<and> en_kind (convertEntries (renumber events) ! p) = callEntry \<and>
      en_id (convertEntries (renumber events) ! p) = x \<and> en_kind (convertEntries (renumber events) ! q) = returnEntry \<and>
      en_id (convertEntries (renumber events) ! q) = x \<and>
      (\<forall>r < length events. en_id (convertEntries (renumber events) ! r) = x \<longrightarrow> r = p \<or> r = q)"
    using pq i(2) by (intro exI [of _ p] exI [of _ q]) (simp add: entry_at id_at [OF _ i(1)])
qed

lemma pos_at:
  assumes "matched_events events" "i \<in> ev_Id ` set events"
  shows "event_pos events k i < length events"
    and "en_value (convertEntries (renumber events) ! event_pos events k i) = ev_Value (events ! event_pos events k i)"
proof -
  have "f i < n" using assms(2) onto by blast
  note pos = well_matched_pos(1,2) [OF matched [OF assms(1)] this, unfolded length_entries]
  show len: "event_pos events k i < length events"
    using pos pos_eq [OF assms(2), of CallEvent] pos_eq [OF assms(2), of ReturnEvent] by (cases k) simp_all
  show "en_value (convertEntries (renumber events) ! event_pos events k i) = ev_Value (events ! event_pos events k i)"
    using len by (simp add: entry_at)
qed

lemma step_eq:
  assumes "matched_events events" "i \<in> ev_Id ` set events"
  shows "entry_step model (convertEntries (renumber events)) s (f i) = event_step model events s i"
  using pos_eq [OF assms(2), of CallEvent] pos_eq [OF assms(2), of ReturnEvent] pos_at(2) [OF assms]
  by (simp add: entry_step_def event_step_def)

lemma linearizable_eq:
  assumes "matched_events events"
  shows "linearizable_entries model (convertEntries (renumber events)) n \<longleftrightarrow> linearizable_events model events"
  unfolding linearizable_entries_def linearizable_events_def onto [symmetric]
proof (rule linearizable_image [symmetric, OF inj])
  show "event_step model events s i = entry_step model (convertEntries (renumber events)) s (f i)"
    if "i \<in> ev_Id ` set events" for s i by (rule step_eq [OF assms that, symmetric])
  show "event_precedes events i j \<longleftrightarrow> entry_precedes (convertEntries (renumber events)) (f i) (f j)"
    if "i \<in> ev_Id ` set events" "j \<in> ev_Id ` set events" for i j
    using pos_eq [OF that(1), of ReturnEvent] pos_eq [OF that(2), of CallEvent] by (simp add: entry_precedes_def event_precedes_def)
qed

lemma steps_run:
  assumes "matched_events events" "runs_on_events model events"
  shows "never_panics (fillDefault model) (convertEntries (renumber events)) n"
  unfolding never_panics_def
proof (intro allI impI)
  fix s x assume "x < n"
  then obtain i where i: "i \<in> ev_Id ` set events" "x = f i" using onto by (metis imageE lessThan_iff)
  show "\<exists>r. Step (fillDefault model) s (en_value (convertEntries (renumber events) ! entry_pos (convertEntries (renumber events)) callEntry x))
      (en_value (convertEntries (renumber events) ! entry_pos (convertEntries (renumber events)) returnEntry x)) = Inr r"
    using bspec [OF spec [OF conjunct1 [OF assms(2) [unfolded runs_on_events_def]], of s] i(1)]
      i(2) pos_eq [OF i(1), of CallEvent] pos_eq [OF i(1), of ReturnEvent] pos_at(2) [OF assms(1) i(1)] by simp
qed

end

lemma renumbering_image:
  "inj_on (renumbering events) (ev_Id ` set events)"
  "renumbering events ` (ev_Id ` set events) = {..<card (ev_Id ` set events)}"
proof -
  let ?m = "renumber_map Map.empty 0 events"
  have dom: "dom ?m = ev_Id ` set events" by (simp add: renumber_map_dom)
  obtain n where m: "inj_on ?m (dom ?m)" "ran ?m = {..<n}" using renumber_map_inj [of Map.empty 0 events] by auto
  have eq: "?m i = Some (renumbering events i)" if i: "i \<in> ev_Id ` set events" for i
    using i unfolding dom [symmetric] renumbering_def by auto
  show inj: "inj_on (renumbering events) (ev_Id ` set events)"
  proof (rule inj_onI)
    fix i j assume ij: "i \<in> ev_Id ` set events" "j \<in> ev_Id ` set events" "renumbering events i = renumbering events j"
    then have "?m i = ?m j" using eq by simp
    then show "i = j" using inj_onD [OF m(1)] ij(1,2) dom by blast
  qed
  have "renumbering events ` (ev_Id ` set events) = ran ?m"
  proof (intro set_eqI iffI)
    fix y assume "y \<in> ran ?m"
    then obtain i where i: "?m i = Some y" by (auto simp: ran_def)
    then have "i \<in> ev_Id ` set events" using dom by blast
    then show "y \<in> renumbering events ` (ev_Id ` set events)" using i eq [of i] by (intro image_eqI [of _ _ i]) simp_all
  qed (use eq in \<open>auto intro: ranI\<close>)
  then show "renumbering events ` (ev_Id ` set events) = {..<card (ev_Id ` set events)}"
    using m(2) card_image [OF inj] by simp
qed

interpretation ren: renumbered events "renumbering events" "card (ev_Id ` set events)" for events :: "'v Event list"
  by unfold_locales
    (simp_all only: renumbering_image, simp add: renumber_def renumbering_def renumber_loop_renames [of Map.empty])

lemma check_goroutine_events:
  assumes m: "matched_events events" and r: "runs_on_events model events"
  shows "check_goroutine (fillDefault model) (convertEntries (renumber events)) = Some (Inr (linearizable_events model events))"
proof -
  let ?n = "card (ev_Id ` set events)"
  let ?es = "convertEntries (renumber events)" and ?eq = "case Equal model of None \<Rightarrow> ShallowEqual | Some eq \<Rightarrow> eq"
  have "\<And>s t. ?eq s t \<Longrightarrow> s = t" using r by (auto simp: runs_on_events_def ShallowEqual_def split: option.splits)
  then have "check_goroutine (fillDefault model) ?es = Some (Inr (linearizable_entries (fillDefault model) ?es ?n))"
    unfolding check_goroutine_def
    by (intro checkSingle_linked [where eq = ?eq] ren.matched [OF m] ren.steps_run [OF m r]) simp_all
  also have "linearizable_entries (fillDefault model) ?es ?n = linearizable_events (fillDefault model) events"
    by (rule ren.linearizable_eq [OF m])
  also have "\<dots> = linearizable_events model events"
    by (simp add: linearizable_events_def event_step_def [abs_def] model_step_def [abs_def])
  finally show ?thesis .
qed

lemma CheckEvents_partitioned:
  assumes p: "call_Partition (PartitionEvent (fillDefault model)) history = Inr ps" and ps: "ps \<noteq> []"
    and m: "\<And>sub. sub \<in> set ps \<Longrightarrow> matched_events sub" and r: "\<And>sub. sub \<in> set ps \<Longrightarrow> runs_on_events model sub"
    and ks: "mset ks = mset [0..<length ps]"
  shows "CheckEventsTimeout model history timeout (map Some ks) = Some (Inr (\<forall>sub \<in> set ps. linearizable_events model sub))"
proof -
  let ?results = "map (\<lambda>sub. check_goroutine (fillDefault model) (convertEntries (renumber sub))) ps"
  have set: "set ks = {..<length ps}" and len: "length ks = length ps"
    using mset_eq_setD [OF ks] mset_eq_length [OF ks] by (auto simp: atLeast0LessThan)
  have "collect ?results (timeout > 0) 0 True (map Some ks) = Some (Inr (\<forall>k \<in> set ks. linearizable_events model (ps ! k)))"
    by (rule collect_all) (use m r set len ps in \<open>auto simp: check_goroutine_events\<close>)
  also have "(\<forall>k \<in> set ks. linearizable_events model (ps ! k)) \<longleftrightarrow> (\<forall>sub \<in> set ps. linearizable_events model sub)"
    unfolding set by (auto simp: all_set_conv_all_nth)
  finally show ?thesis using p by (simp add: CheckEventsTimeout_def Let_def)
qed

lemma sorts_by_time_sort_key: "sorts_by_time (sort_key en_time)"
  by (simp add: sorts_by_time_def)

text \<open>C27: a negative answer of \<open>CheckOperationsTimeout\<close> is right whatever the time limit, the order in which
  the verdicts arrive and the moment the timer fires: the history is refused only if one of its partitions has no
  linearization.\<close>

theorem CheckOperations_refuses_rightly:
  assumes "sorts_by_time sorter" "call_Partition (Partition (fillDefault model)) history = Inr ps"
    and "\<And>sub. sub \<in> set ps \<Longrightarrow> timed_history sub \<and> runs_on model sub"
    and "CheckOperationsTimeout sorter model history timeout arrivals = Some (Inr False)"
  shows "\<exists>sub \<in> set ps. \<not> linearizable_ops model sub"
  using CheckOperations_negative [OF assms(1,2) _ _ assms(4)] assms(3) by blast

text \<open>A read that returns a value nobody wrote; the timer has not fired when its verdict arrives.\<close>

definition sample_stale :: "nat option Operation list" where
  "sample_stale = [\<lparr>Input = None, Call = 1, Output = Some 1, Return = 2\<rparr>]"

lemma sample_stale_refused:
  "timed_history sample_stale" "runs_on sample_model sample_stale" "\<not> linearizable_ops sample_model sample_stale"
proof -
  show "timed_history sample_stale" by (simp add: timed_history_def sample_stale_def)
  show "runs_on sample_model sample_stale" by (simp add: runs_on_def sample_model_def ShallowEqual_def)
  have "\<not> accepts (op_step sample_model sample_stale) (Init sample_model) order" if o: "set order = {..<1}" for order
  proof (cases order)
    case (Cons x xs)
    then have "x \<in> {..<1}" unfolding o [symmetric] by simp
    then have "x = 0" by simp
    then show ?thesis using Cons by (simp add: op_step_def model_step_def sample_model_def sample_stale_def)
  qed (use o in auto)
  then show "\<not> linearizable_ops sample_model sample_stale"
    unfolding linearizable_ops_def linearizable_def by (auto simp: sample_stale_def)
qed

theorem CheckOperations_refuses_rightly_witness:
  "CheckOperationsTimeout (sort_key en_time) sample_model sample_stale 5 [Some 0, None] = Some (Inr False) \<and>
   (\<exists>sub \<in> set [sample_stale]. \<not> linearizable_ops sample_model sub)"
proof -
  have p: "call_Partition (Partition (fillDefault sample_model)) sample_stale = Inr [sample_stale]"
    by (simp add: call_Partition_def sample_model_def NoPartition_def)
  have no: "CheckOperationsTimeout (sort_key en_time) sample_model sample_stale 5 [Some 0, None] = Some (Inr False)"
    using p check_goroutine_operations [OF sorts_by_time_sort_key sample_stale_refused(1,2)] sample_stale_refused(3)
    by (simp add: CheckOperationsTimeout_def Let_def)
  show ?thesis
    using no CheckOperations_refuses_rightly [OF sorts_by_time_sort_key p _ no] sample_stale_refused(1,2) by simp
qed

text \<open>\<open>CheckEvents\<close> answers, in whatever order the verdicts arrive, whether every partition of a history of
  matched events is linearizable; the identifiers of the events are arbitrary, as \<open>renumber\<close> maps them one to
  one onto an initial segment.\<close>

theorem CheckEvents_decides:
  assumes "call_Partition (PartitionEvent (fillDefault model)) history = Inr ps" "ps \<noteq> []"
    and "\<And>sub. sub \<in> set ps \<Longrightarrow> matched_events sub \<and> runs_on_events model sub" "mset ks = mset [0..<length ps]"
  shows "CheckEvents model history (map Some ks) = Some (Inr (\<forall>sub \<in> set ps. linearizable_events model sub))"
  unfolding CheckEvents_def by (rule CheckEvents_partitioned [OF assms(1,2) _ _ assms(4)]) (use assms(3) in auto)

definition sample_events :: "nat option Event list" where
  "sample_events =
    [\<lparr>ev_Kind = CallEvent, ev_Value = None, ev_Id = 7\<rparr>, \<lparr>ev_Kind = CallEvent, ev_Value = Some 1, ev_Id = 3\<rparr>,
     \<lparr>ev_Kind = ReturnEvent, ev_Value = None, ev_Id = 3\<rparr>, \<lparr>ev_Kind = ReturnEvent, ev_Value = Some 1, ev_Id = 7\<rparr>]"

lemma sample_events_matched: "matched_events sample_events"
proof -
  have len: "length sample_events = 4" and ids: "ev_Id ` set sample_events = {3, 7}" by (auto simp: sample_events_def)
  have "\<exists>p q. p < q \<and> q < 4 \<and> ev_Kind (sample_events ! p) = CallEvent \<and> ev_Id (sample_events ! p) = i \<and>
      ev_Kind (sample_events ! q) = ReturnEvent \<and> ev_Id (sample_events ! q) = i \<and>
      (\<forall>r < 4. ev_Id (sample_events ! r) = i \<longrightarrow> r = p \<or> r = q)" if i: "i \<in> {3, 7}" for i
    unfolding all_less_4 using i
    by (intro exI [of _ "if i = 3 then 1 else 0"] exI [of _ "if i = 3 then 2 else 3"]) (auto simp: sample_events_def)
  then show ?thesis unfolding matched_events_def len ids by (rule ballI)
qed

lemma sample_events_linearizable: "linearizable_events sample_model sample_events"
  unfolding linearizable_events_def linearizable_def
proof (intro exI conjI)
  show "distinct [3, 7::nat]" "set [3, 7] = ev_Id ` set sample_events" by (auto simp: sample_events_def)
  show "in_real_time (event_precedes sample_events) [3, 7]" "accepts (event_step sample_model sample_events) (Init sample_model) [3, 7]"
    by (simp_all add: in_real_time_def event_precedes_def event_pos_def event_step_def model_step_def sample_events_def sample_model_def)
qed

theorem CheckEvents_decides_witness: "CheckEvents sample_model sample_events [Some 0] = Some (Inr True)"
proof -
  have p: "call_Partition (PartitionEvent (fillDefault sample_model)) sample_events = Inr [sample_events]"
    by (simp add: call_Partition_def sample_model_def NoPartitionEvent_def)
  have "runs_on_events sample_model sample_events" by (simp add: runs_on_events_def sample_model_def ShallowEqual_def)
  then show ?thesis
    using CheckEvents_decides [OF p, of "[0]"] sample_events_matched sample_events_linearizable by simp
qed

end
