(* ===== verification/Lin_KV.thy ===== *)
theory Lin_KV
  imports Lin_Operations
begin

section \<open>Checking a key/value service key by key\<close>

text \<open>
  \<open>KvModel\<close> of \<^verbatim>\<open>src/linearizability/models.go\<close> splits a history by key and checks every key against a single
  register. The theory shows that this is enough: by locality of linearizability the verdict of \<open>CheckOperations\<close>
  is whether the whole history is linearizable for the map from keys to values that the key/value service
  is meant to be.
\<close>

subsection \<open>Locality\<close>

text \<open>An object made of one component for each key; an operation works on the component of its key.\<close>

definition product_step :: "('x \<Rightarrow> 'k) \<Rightarrow> ('s \<Rightarrow> 'x \<Rightarrow> 's option) \<Rightarrow> ('k \<Rightarrow> 's) \<Rightarrow> 'x \<Rightarrow> ('k \<Rightarrow> 's) option" where
  "product_step key stp s x = map_option (\<lambda>v. s(key x := v)) (stp (s (key x)) x)"

lemma accepts_product:
  "accepts (product_step key stp) s order \<longleftrightarrow> (\<forall>k. accepts stp (s k) (filter (\<lambda>x. key x = k) order))"
proof (induction order arbitrary: s)
  case (Cons x order)
  show ?case
  proof (cases "stp (s (key x)) x")
    case None
    then show ?thesis by (auto simp: product_step_def intro!: exI [of _ "key x"])
  next
    case (Some v)
    then have "accepts (product_step key stp) s (x # order) \<longleftrightarrow> accepts (product_step key stp) (s(key x := v)) order"
      by (simp add: product_step_def [of key stp s x])
    also have "\<dots> \<longleftrightarrow> (\<forall>k. accepts stp ((s(key x := v)) k) (filter (\<lambda>x. key x = k) order))" by (rule Cons)
    also have "\<dots> \<longleftrightarrow> (\<forall>k. accepts stp (s k) (filter (\<lambda>x. key x = k) (x # order)))"
      by (rule all_cong1) (use Some in auto)
    finally show ?thesis .
  qed
qed simp

text \<open>An order that respects real time has points, one inside the interval of each operation, that increase along it.\<close>

lemma points:
  fixes c r :: "'x \<Rightarrow> int"
  shows "distinct xs \<Longrightarrow> in_real_time (\<lambda>x y. r x < c y) xs \<Longrightarrow> (\<And>x. x \<in> set xs \<Longrightarrow> b \<le> r x \<and> c x \<le> r x) \<Longrightarrow>
    \<exists>p. sorted (map p xs) \<and> (\<forall>x \<in> set xs. b \<le> p x \<and> c x \<le> p x \<and> p x \<le> r x)"
proof (induction xs arbitrary: b)
  case (Cons x xs)
  let ?b = "max b (c x)"
  have "\<exists>p. sorted (map p xs) \<and> (\<forall>y \<in> set xs. ?b \<le> p y \<and> c y \<le> p y \<and> p y \<le> r y)"
  proof (rule Cons.IH)
    fix y assume y: "y \<in> set xs"
    then have "c x \<le> r y" using Cons.prems(2) by (auto simp: in_real_time_def)
    then show "?b \<le> r y \<and> c y \<le> r y" using Cons.prems(3) [of y] y by simp
  qed (use Cons.prems in \<open>auto simp: in_real_time_def\<close>)
  then obtain p where p: "sorted (map p xs)" "\<And>y. y \<in> set xs \<Longrightarrow> ?b \<le> p y \<and> c y \<le> p y \<and> p y \<le> r y" by blast
  have "map (p(x := ?b)) xs = map p xs" using Cons.prems(1) by auto
  then have "sorted (map (p(x := ?b)) (x # xs))" using p by (simp del: map_eq_conv)
  moreover have "\<forall>y \<in> set (x # xs). b \<le> (p(x := ?b)) y \<and> c y \<le> (p(x := ?b)) y \<and> (p(x := ?b)) y \<le> r y"
    using p(2) Cons.prems(3) [of x] by auto
  ultimately show ?case by blast
qed simp

lemma filter_concat_keys:
  assumes "distinct ks" "\<And>k x. k \<in> set ks \<Longrightarrow> x \<in> set (ord k) \<Longrightarrow> key x = k"
  shows "filter (\<lambda>x. key x = k) (concat (map ord ks)) = (if k \<in> set ks then ord k else [])"
  using assms
proof (induction ks)
  case (Cons j ks)
  have "filter (\<lambda>x. key x = k) (ord j) = (if k = j then ord j else [])"
  proof (cases "k = j")
    case True
    then show ?thesis using Cons.prems(2) [of j] by (simp add: filter_id_conv)
  next
    case False
    then show ?thesis using Cons.prems(2) [of j] by (auto simp: filter_empty_conv)
  qed
  moreover have "filter (\<lambda>x. key x = k) (concat (map ord ks)) = (if k \<in> set ks then ord k else [])"
    by (rule Cons.IH) (use Cons.prems in simp_all)
  ultimately show ?case using Cons.prems(1) by (cases "k = j") simp_all
qed simp

text \<open>Orders of the components with such points merge into one order of all operations.\<close>

lemma merge_by_points:
  fixes c r p :: "'x \<Rightarrow> int"
  assumes ks: "distinct ks" and ord: "\<And>k. k \<in> set ks \<Longrightarrow> distinct (ord k) \<and> set (ord k) = {x \<in> X. key x = k}"
    and keys: "set ks = key ` X" and p: "\<And>x. x \<in> X \<Longrightarrow> c x \<le> p x \<and> p x \<le> r x"
    and sorted: "\<And>k. k \<in> set ks \<Longrightarrow> sorted (map p (ord k))"
  obtains order where "distinct order" "set order = X" "in_real_time (\<lambda>x y. r x < c y) order"
    "\<And>k. filter (\<lambda>x. key x = k) order = (if k \<in> set ks then ord k else [])"
proof
  let ?order = "sort_key p (concat (map ord ks))"
  have in_key: "key x = k" if "k \<in> set ks" "x \<in> set (ord k)" for k x using that ord by blast
  show set: "set ?order = X" using ord keys by auto
  show "filter (\<lambda>x. key x = k) ?order = (if k \<in> set ks then ord k else [])" for k
    using filter_concat_keys [of ks ord key k, OF ks in_key] sorted [of k] by (simp add: filter_sort sort_key_id_if_sorted)
  have "distinct (concat (map ord ks))"
    using ks ord
  proof (induction ks)
    case (Cons k ks)
    then have "distinct (concat (map ord ks))" by simp
    moreover have "set (ord k) \<inter> set (concat (map ord ks)) = {}" using Cons.prems by auto
    ultimately show ?case using Cons.prems(2) [of k] by simp
  qed simp
  then show "distinct ?order" by simp
  have "sorted_wrt (\<lambda>x y. p x \<le> p y) ?order" using sorted_sort_key [of p "concat (map ord ks)"] by (simp only: sorted_map)
  then show "in_real_time (\<lambda>x y. r x < c y) ?order"
    unfolding in_real_time_def
  proof (rule sorted_wrt_mono_rel [rotated])
    show "\<not> r y < c x" if "x \<in> set ?order" "y \<in> set ?order" "p x \<le> p y" for x y
      using that(3) p [of x] p [of y] that(1,2) unfolding set by linarith
  qed
qed

lemma locality:
  fixes c r :: "'x \<Rightarrow> int"
  assumes fin: "finite X" and dur: "\<And>x. x \<in> X \<Longrightarrow> c x \<le> r x"
  shows "linearizable (product_step key stp) s (\<lambda>x y. r x < c y) X \<longleftrightarrow>
    (\<forall>k \<in> key ` X. linearizable stp (s k) (\<lambda>x y. r x < c y) {x \<in> X. key x = k})"
proof
  assume "linearizable (product_step key stp) s (\<lambda>x y. r x < c y) X"
  then obtain order where o: "distinct order" "set order = X" "in_real_time (\<lambda>x y. r x < c y) order"
    "accepts (product_step key stp) s order" by (auto simp: linearizable_def)
  show "\<forall>k \<in> key ` X. linearizable stp (s k) (\<lambda>x y. r x < c y) {x \<in> X. key x = k}"
  proof
    fix k
    show "linearizable stp (s k) (\<lambda>x y. r x < c y) {x \<in> X. key x = k}"
      unfolding linearizable_def using o
      by (intro exI [of _ "filter (\<lambda>x. key x = k) order"]) (auto simp: in_real_time_def accepts_product intro: sorted_wrt_filter)
  qed
next
  assume "\<forall>k \<in> key ` X. linearizable stp (s k) (\<lambda>x y. r x < c y) {x \<in> X. key x = k}"
  from bchoice [OF this [unfolded linearizable_def]]
  obtain ord where ord: "\<And>k. k \<in> key ` X \<Longrightarrow> distinct (ord k) \<and> set (ord k) = {x \<in> X. key x = k} \<and>
    in_real_time (\<lambda>x y. r x < c y) (ord k) \<and> accepts stp (s k) (ord k)" by blast
  have "\<forall>k \<in> key ` X. \<exists>p. sorted (map p (ord k)) \<and> (\<forall>x \<in> set (ord k). Min (r ` X) \<le> p x \<and> c x \<le> p x \<and> p x \<le> r x)"
  proof
    fix k assume "k \<in> key ` X"
    note k = ord [OF this]
    show "\<exists>p. sorted (map p (ord k)) \<and> (\<forall>x \<in> set (ord k). Min (r ` X) \<le> p x \<and> c x \<le> p x \<and> p x \<le> r x)"
      by (rule points) (use k fin dur in auto)
  qed
  from bchoice [OF this]
  obtain pt where pt: "\<And>k. k \<in> key ` X \<Longrightarrow> sorted (map (pt k) (ord k)) \<and> (\<forall>x \<in> set (ord k). c x \<le> pt k x \<and> pt k x \<le> r x)" by blast
  obtain ks where ks: "set ks = key ` X" "distinct ks" using fin by (metis finite_distinct_list finite_imageI)
  have same: "map (\<lambda>x. pt (key x) x) (ord k) = map (pt k) (ord k)" if "k \<in> key ` X" for k using ord [OF that] by simp
  obtain order where o: "distinct order" "set order = X" "in_real_time (\<lambda>x y. r x < c y) order"
    "\<And>k. filter (\<lambda>x. key x = k) order = (if k \<in> set ks then ord k else [])"
  proof (rule merge_by_points [of ks ord X key c "\<lambda>x. pt (key x) x" r])
    show "c x \<le> pt (key x) x \<and> pt (key x) x \<le> r x" if "x \<in> X" for x using that pt [of "key x"] ord [of "key x"] by auto
    show "sorted (map (\<lambda>x. pt (key x) x) (ord k))" if "k \<in> set ks" for k using that pt [of k] ks(1) by (simp only: same)
  qed (use ks ord in auto)
  have "accepts (product_step key stp) s order" unfolding accepts_product o(4) using ord ks(1) by simp
  then show "linearizable (product_step key stp) s (\<lambda>x y. r x < c y) X" unfolding linearizable_def using o(1-3) by blast
qed

subsection \<open>The partition by key\<close>

definition kv_op :: "kv_value Operation \<Rightarrow> KvInput \<Rightarrow> string \<Rightarrow> bool" where
  "kv_op x i out \<longleftrightarrow> Input x = KV_In i \<and> Output x = KV_Out out"

definition kv_history :: "kv_value Operation list \<Rightarrow> bool" where
  "kv_history history \<longleftrightarrow> (\<forall>x \<in> set history. \<exists>i out. kv_op x i out)"

definition op_key :: "kv_value Operation \<Rightarrow> string" where
  "op_key x = (case Input x of KV_In i \<Rightarrow> kv_Key i | KV_Out _ \<Rightarrow> [])"

lemma kv_historyD: "kv_history history \<Longrightarrow> x \<in> set history \<Longrightarrow> \<exists>i out. Input x = KV_In i \<and> Output x = KV_Out out"
  by (auto simp: kv_history_def kv_op_def)

lemma kv_append_keys: "fst ` set (kv_append m k v) = insert k (fst ` set m)"
  by (induction m k v rule: kv_append.induct) auto

lemma kv_append_distinct: "distinct (map fst m) \<Longrightarrow> distinct (map fst (kv_append m k v))"
proof (induction m k v rule: kv_append.induct)
  case (2 k' vs m k v)
  then show ?case using kv_append_keys [of m k v] by auto
qed simp

lemma map_of_kv_append:
  "map_of (kv_append m k v) = (map_of m)(k \<mapsto> (case map_of m k of None \<Rightarrow> [v] | Some vs \<Rightarrow> vs @ [v]))"
  by (induction m k v rule: kv_append.induct) (auto simp: fun_eq_iff)

lemma kv_groups_split:
  assumes "\<And>x. x \<in> set history \<Longrightarrow> \<exists>i. Input x = KV_In i" "distinct (map fst m)"
  shows "\<exists>m'. kv_groups m history = Inr m' \<and> distinct (map fst m') \<and>
    (\<forall>k. map_of m' k = (if k \<in> op_key ` set history then Some ((case map_of m k of None \<Rightarrow> [] | Some vs \<Rightarrow> vs) @ filter (\<lambda>x. op_key x = k) history)
       else map_of m k))"
  using assms
proof (induction history arbitrary: m)
  case (Cons v history)
  obtain i where i: "Input v = KV_In i" using Cons.prems(1) [of v] by auto
  let ?m = "kv_append m (kv_Key i) v"
  have "\<exists>m'. kv_groups ?m history = Inr m' \<and> distinct (map fst m') \<and>
    (\<forall>k. map_of m' k = (if k \<in> op_key ` set history then Some ((case map_of ?m k of None \<Rightarrow> [] | Some vs \<Rightarrow> vs) @ filter (\<lambda>x. op_key x = k) history)
       else map_of ?m k))"
    by (rule Cons.IH) (use Cons.prems kv_append_distinct in auto)
  then obtain m' where m': "kv_groups ?m history = Inr m'" "distinct (map fst m')"
    "\<And>k. map_of m' k = (if k \<in> op_key ` set history then Some ((case map_of ?m k of None \<Rightarrow> [] | Some vs \<Rightarrow> vs) @ filter (\<lambda>x. op_key x = k) history)
       else map_of ?m k)" by blast
  have key: "op_key v = kv_Key i" by (simp add: op_key_def i)
  have unused: "filter (\<lambda>x. op_key x = k) history = []" if "k \<notin> op_key ` set history" for k using that by (auto simp: filter_empty_conv)
  have "kv_groups m (v # history) = Inr m'" using m'(1) i by (simp add: assert_input_def)
  moreover have "map_of m' k = (if k \<in> op_key ` set (v # history) then Some ((case map_of m k of None \<Rightarrow> [] | Some vs \<Rightarrow> vs) @ filter (\<lambda>x. op_key x = k) (v # history))
       else map_of m k)" for k
    unfolding m'(3) map_of_kv_append by (cases "k = kv_Key i") (auto simp: key unused split: option.splits)
  ultimately show ?case using m'(2) by blast
qed simp

text \<open>The partitions are the subhistories of the keys that occur, each once.\<close>

lemma kv_Partition_by_key:
  assumes kv: "kv_history history" and iter: "\<And>xs. mset (iter xs) = mset xs"
  obtains ps where "kv_Partition iter history = Inr ps"
    "set ps = (\<lambda>k. filter (\<lambda>x. op_key x = k) history) ` op_key ` set history" "length ps = card (op_key ` set history)"
proof -
  have "\<And>x. x \<in> set history \<Longrightarrow> \<exists>i. Input x = KV_In i" using kv_historyD [OF kv] by blast
  then have "\<exists>m'. kv_groups [] history = Inr m' \<and> distinct (map fst m') \<and> (\<forall>k. map_of m' k =
      (if k \<in> op_key ` set history then Some ((case map_of [] k of None \<Rightarrow> [] | Some vs \<Rightarrow> vs) @ filter (\<lambda>x. op_key x = k) history)
       else map_of [] k))" by (intro kv_groups_split) simp_all
  then obtain m where m: "kv_groups [] history = Inr m" "distinct (map fst m)"
    "\<And>k. map_of m k = (if k \<in> op_key ` set history then Some (filter (\<lambda>x. op_key x = k) history) else None)"
    by (simp only: map_of.simps option.case append_Nil) blast
  have "snd ` set m = ran (map_of m)" by (rule ran_distinct [OF m(2), symmetric])
  also have "\<dots> = (\<lambda>k. filter (\<lambda>x. op_key x = k) history) ` op_key ` set history" by (auto simp: ran_def m(3) split: if_splits)
  finally have snd: "snd ` set m = (\<lambda>k. filter (\<lambda>x. op_key x = k) history) ` op_key ` set history" .
  have set: "set (iter (map snd m)) = snd ` set m" using mset_eq_setD [OF iter [of "map snd m"]] by simp
  show thesis
  proof (rule that)
    show "kv_Partition iter history = Inr (iter (map snd m))" by (simp add: kv_Partition_def m(1))
    show eq: "set (iter (map snd m)) = (\<lambda>k. filter (\<lambda>x. op_key x = k) history) ` op_key ` set history" using set snd by simp
    have "fst ` set m = op_key ` set history" using m(3) by (auto simp: dom_map_of_conv_image_fst [symmetric] dom_def)
    then show "length (iter (map snd m)) = card (op_key ` set history)"
      using mset_eq_length [OF iter [of "map snd m"]] distinct_card [OF m(2)] by simp
  qed
qed

subsection \<open>The service as one map\<close>

text \<open>The sequential key/value service: reads return the current value, which is empty at first.\<close>

definition kv_service :: "(string \<Rightarrow> string) \<Rightarrow> KvInput \<Rightarrow> string \<Rightarrow> (string \<Rightarrow> string) option" where
  "kv_service s i out =
     (if kv_Op i = 0 then if out = s (kv_Key i) then Some s else None
      else if kv_Op i = 1 then Some (s(kv_Key i := kv_Value i))
      else Some (s(kv_Key i := s (kv_Key i) @ kv_Value i)))"

definition service_step :: "kv_value Operation list \<Rightarrow> (string \<Rightarrow> string) \<Rightarrow> nat \<Rightarrow> (string \<Rightarrow> string) option" where
  "service_step history s n =
     (case (Input (history ! n), Output (history ! n)) of (KV_In i, KV_Out out) \<Rightarrow> kv_service s i out | _ \<Rightarrow> None)"

definition linearizable_service :: "kv_value Operation list \<Rightarrow> bool" where
  "linearizable_service history \<longleftrightarrow> linearizable (service_step history) (\<lambda>_. []) (op_precedes history) {..<length history}"

lemma service_product:
  assumes "kv_history history" "n < length history"
  shows "service_step history s n = product_step (\<lambda>i. op_key (history ! i)) (op_step (KvModel iter) history) s n"
proof -
  obtain i out where "Input (history ! n) = KV_In i" "Output (history ! n) = KV_Out out"
    using kv_historyD [OF assms(1), of "history ! n"] assms(2) by auto
  then show ?thesis
    by (auto simp: service_step_def product_step_def op_step_def model_step_def KvModel_def kv_Step_def kv_service_def
        assert_input_def assert_output_def op_key_def)
qed

text \<open>A subhistory, with the positions it has in the whole.\<close>

lemma subhistory_linearizable:
  "linearizable_ops model (filter P history) \<longleftrightarrow>
     linearizable (op_step model history) (Init model) (op_precedes history) {i \<in> {..<length history}. P (history ! i)}"
proof -
  define idx where "idx = filter (\<lambda>i. P (history ! i)) [0..<length history]"
  have sub: "filter P history = map ((!) history) idx"
  proof -
    have "filter P (map ((!) history) [0..<length history]) = map ((!) history) idx" by (simp add: idx_def filter_map comp_def)
    then show ?thesis by (simp add: map_nth)
  qed
  have dist: "distinct idx" by (simp add: idx_def)
  have img: "(!) idx ` {..<length idx} = {i \<in> {..<length history}. P (history ! i)}"
    using nth_image [of "length idx" idx] by (auto simp: idx_def atLeast0LessThan)
  have "linearizable (op_step model (filter P history)) (Init model) (op_precedes (filter P history)) {..<length idx} \<longleftrightarrow>
      linearizable (op_step model history) (Init model) (op_precedes history) ((!) idx ` {..<length idx})"
    by (rule linearizable_image) (use dist in \<open>auto simp: sub op_step_def op_precedes_def inj_on_def nth_eq_iff_index_eq\<close>)
  then show ?thesis by (simp only: linearizable_ops_def img sub length_map)
qed

lemma service_by_key:
  assumes kv: "kv_history history" and t: "timed_history history"
  shows "linearizable_service history \<longleftrightarrow>
    (\<forall>k \<in> op_key ` set history. linearizable_ops (KvModel iter) (filter (\<lambda>x. op_key x = k) history))"
proof -
  let ?key = "\<lambda>i. op_key (history ! i)" and ?X = "{..<length history}" and ?stp = "op_step (KvModel iter) history"
  have prec: "op_precedes history = (\<lambda>i j. Return (history ! i) < Call (history ! j))" by (simp add: op_precedes_def fun_eq_iff)
  have "linearizable_service history \<longleftrightarrow> linearizable (product_step ?key ?stp) (\<lambda>_. []) (op_precedes history) (id ` ?X)"
    unfolding linearizable_service_def by (rule linearizable_image) (use service_product [OF kv] in auto)
  also have "\<dots> \<longleftrightarrow> (\<forall>k \<in> ?key ` ?X. linearizable ?stp [] (op_precedes history) {i \<in> ?X. ?key i = k})"
    unfolding prec image_id id_apply by (rule locality) (use t in \<open>auto simp: timed_history_def intro: less_imp_le\<close>)
  also have "?key ` ?X = op_key ` set history" by (auto simp: set_conv_nth)
  finally show ?thesis by (simp add: subhistory_linearizable KvModel_def)
qed

lemma kv_filter:
  "kv_history history \<Longrightarrow> kv_history (filter P history)" "timed_history history \<Longrightarrow> timed_history (filter P history)"
  by (auto simp: kv_history_def timed_history_def)

lemma kv_runs_on: "kv_history history \<Longrightarrow> runs_on (KvModel iter) history"
  unfolding runs_on_def
proof (intro conjI allI ballI impI)
  fix s x assume "kv_history history" "x \<in> set history"
  then obtain i out where "Input x = KV_In i" "Output x = KV_Out out" using kv_historyD by blast
  then show "\<exists>r. Step (KvModel iter) s (Input x) (Output x) = Inr r"
    by (simp add: KvModel_def kv_Step_def assert_input_def assert_output_def del: split_paired_Ex)
qed (simp add: KvModel_def ShallowEqual_def)

lemma CheckOperations_service:
  assumes s: "sorts_by_time sorter" and iter: "\<And>xs. mset (iter xs) = mset xs" and kv: "kv_history history"
    and t: "timed_history history" and h: "history \<noteq> []" and ks: "mset ks = mset [0..<card (op_key ` set history)]"
  shows "CheckOperationsTimeout sorter (KvModel iter) history timeout (map Some ks) = Some (Inr (linearizable_service history))"
proof -
  obtain ps where ps: "kv_Partition iter history = Inr ps"
    "set ps = (\<lambda>k. filter (\<lambda>x. op_key x = k) history) ` op_key ` set history" "length ps = card (op_key ` set history)"
    by (rule kv_Partition_by_key [where iter = iter, OF kv iter])
  have "CheckOperationsTimeout sorter (KvModel iter) history timeout (map Some ks) =
      Some (Inr (\<forall>sub \<in> set ps. linearizable_ops (KvModel iter) sub))"
  proof (rule CheckOperations_partitioned [OF s])
    show "call_Partition (Partition (fillDefault (KvModel iter))) history = Inr ps"
      using ps(1) by (simp add: call_Partition_def KvModel_def)
    show "ps \<noteq> []" using ps(2) h by auto
    show "timed_history sub" "runs_on (KvModel iter) sub" if "sub \<in> set ps" for sub
      using that kv_filter kv t kv_runs_on unfolding ps(2) by blast+
    show "mset ks = mset [0..<length ps]" using ks ps(3) by simp
  qed
  then show ?thesis unfolding ps(2) service_by_key [OF kv t, of iter] by simp
qed



text \<open>C25: for every history of the key/value service with at least one operation, \<open>CheckOperations\<close> with
  \<open>KvModel\<close> answers whether the whole history is linearizable for one map from keys to values, whatever order
  the sort, the range over the map of partitions and the arrival of the verdicts have.\<close>

theorem CheckOperations_decides_service:
  assumes "sorts_by_time sorter" "\<And>xs. mset (iter xs) = mset xs" "kv_history history" "timed_history history"
    and "history \<noteq> []" "mset ks = mset [0..<card (op_key ` set history)]"
  shows "CheckOperations sorter (KvModel iter) history (map Some ks) = Some (Inr (linearizable_service history))"
  unfolding CheckOperations_def by (rule CheckOperations_service [OF assms])

text \<open>A put and a get of one key that overlap, beside an append to another key.\<close>

definition sample_kv :: "kv_value Operation list" where
  "sample_kv =
    [\<lparr>Input = KV_In \<lparr>kv_Op = 0, kv_Key = ''x'', kv_Value = []\<rparr>, Call = 1, Output = KV_Out ''a'', Return = 6\<rparr>,
     \<lparr>Input = KV_In \<lparr>kv_Op = 1, kv_Key = ''x'', kv_Value = ''a''\<rparr>, Call = 2, Output = KV_Out [], Return = 4\<rparr>,
     \<lparr>Input = KV_In \<lparr>kv_Op = 2, kv_Key = ''y'', kv_Value = ''b''\<rparr>, Call = 3, Output = KV_Out [], Return = 5\<rparr>]"

lemma sample_kv_facts:
  "kv_history sample_kv" "timed_history sample_kv" "sample_kv \<noteq> []" "op_key ` set sample_kv = {''x'', ''y''}"
  by (simp_all add: sample_kv_def kv_history_def kv_op_def timed_history_def op_key_def)

lemma sample_kv_linearizable: "linearizable_service sample_kv"
  unfolding linearizable_service_def linearizable_def
proof (intro exI conjI)
  show "distinct [1, 0, 2::nat]" "set [1, 0, 2] = {..<length sample_kv}" by (auto simp: sample_kv_def)
  show "in_real_time (op_precedes sample_kv) [1, 0, 2]" "accepts (service_step sample_kv) (\<lambda>_. []) [1, 0, 2]"
    by (simp_all add: in_real_time_def op_precedes_def service_step_def kv_service_def sample_kv_def)
qed

theorem CheckOperations_decides_service_witness:
  "CheckOperations (sort_key en_time) (KvModel rev) sample_kv [Some 1, Some 0] = Some (Inr True)"
proof -
  have "mset [1, 0] = mset [0..<card (op_key ` set sample_kv)]"
    unfolding sample_kv_facts(4) by (simp add: upt_rec)
  then have "CheckOperations (sort_key en_time) (KvModel rev) sample_kv (map Some [1, 0]) = Some (Inr (linearizable_service sample_kv))"
    by (intro CheckOperations_decides_service sorts_by_time_sort_key sample_kv_facts(1-3)) simp_all
  then show ?thesis using sample_kv_linearizable by simp
qed

text \<open>On the empty history \<open>KvModel\<close> makes no partition, so that no verdict ever arrives: without a time
  limit \<open>CheckOperations\<close> waits for ever.\<close>

theorem CheckOperations_empty_waits:
  assumes "\<And>xs. mset (iter xs) = mset xs"
  shows "CheckOperations sorter (KvModel iter) [] arrivals = None"
proof -
  have "iter [] = []" using assms [of "[]"] by simp
  moreover have "collect [] False 0 True arrivals = None"
  proof (induction arrivals)
    case (Cons a arrivals)
    then show ?case by (cases a) simp_all
  qed simp
  ultimately show ?thesis
    by (simp add: CheckOperations_def CheckOperationsTimeout_def call_Partition_def KvModel_def kv_Partition_def)
qed

theorem CheckOperations_empty_waits_witness: "CheckOperations (sort_key en_time) (KvModel rev) [] [Some 0] = None"
  by (rule CheckOperations_empty_waits) simp

end
