(* ===== verification/MR_Files.thy ===== *)
theory MR_Files
  imports Go_Prelude "HOL-Library.List_Lexorder" "HOL-Library.Char_ord"
begin

section \<open>MapReduce: names, files and numbers as text\<close>

text \<open>
  \<^verbatim>\<open>src/mapreduce/common.go\<close>, the messages of \<^verbatim>\<open>src/mapreduce/common_rpc.go\<close>, and what the package uses of
  \<open>strconv\<close>, \<open>os\<close> and \<open>encoding/json\<close>. A file the program writes is the sequence of the JSON values and
  lines written to it; the decoding of one JSON value gives back what was encoded. Input files are kept apart: no
  input has the name of a file of the job. The field \<open>writable\<close> says which names can be opened for writing.
\<close>

subsection \<open>strconv\<close>

definition digit :: "nat \<Rightarrow> char" where
  "digit d = char_of (48 + d)"

fun itoa_nat :: "nat \<Rightarrow> string" where
  "itoa_nat n = (if n < 10 then [digit n] else itoa_nat (n div 10) @ [digit (n mod 10)])"

declare itoa_nat.simps [simp del]

definition itoa :: "int \<Rightarrow> string" where
  "itoa i = (if i < 0 then ''-'' @ itoa_nat (nat (- i)) else itoa_nat (nat i))"

fun atoi_digits :: "nat \<Rightarrow> string \<Rightarrow> nat option" where
  "atoi_digits acc [] = Some acc"
| "atoi_digits acc (c # cs) =
     (if 48 \<le> (of_char c :: nat) \<and> (of_char c :: nat) \<le> 57 then atoi_digits (10 * acc + (of_char c - 48)) cs else None)"

text \<open>\<open>strconv.Atoi\<close>: an optional sign, at least one digit, and a value in the range of \<open>int\<close>.\<close>

definition atoi :: "string \<Rightarrow> int option" where
  "atoi s =
     (let neg = (s \<noteq> [] \<and> hd s = CHR ''-''); ds = (if s \<noteq> [] \<and> hd s \<in> {CHR ''-'', CHR ''+''} then tl s else s) in
      if ds = [] then None
      else case atoi_digits 0 ds of
        None \<Rightarrow> None
      | Some n \<Rightarrow> let i = (if neg then - int n else int n) in if - (2 ^ 63) \<le> i \<and> i < 2 ^ 63 then Some i else None)"

lemma digit_code: "d < 10 \<Longrightarrow> (of_char (digit d) :: nat) = 48 + d"
  by (simp add: digit_def of_char_of)

lemma digit_not_dash: "d < 10 \<Longrightarrow> digit d \<noteq> CHR ''-'' \<and> digit d \<noteq> CHR ''+'' \<and> digit d \<noteq> CHR ''r''"
proof -
  assume "d < 10"
  then have "(of_char (digit d) :: nat) \<noteq> of_char CHR ''-''" "(of_char (digit d) :: nat) \<noteq> of_char CHR ''+''"
    "(of_char (digit d) :: nat) \<noteq> of_char CHR ''r''" by (simp_all add: digit_code)
  then show ?thesis by (intro conjI notI) simp_all
qed

lemma itoa_nat_chars: "c \<in> set (itoa_nat n) \<Longrightarrow> \<exists>d < 10. c = digit d"
proof (induction n rule: itoa_nat.induct)
  case (1 n)
  have "c \<in> set (if n < 10 then [digit n] else itoa_nat (n div 10) @ [digit (n mod 10)])"
    using "1.prems" by (simp only: itoa_nat.simps [of n])
  then show ?case
  proof (cases "n < 10 \<or> c = digit (n mod 10)")
    case True
    then show ?thesis using \<open>c \<in> set (if n < 10 then _ else _)\<close> by (cases "n < 10") (auto intro: exI [of _ "n mod 10"])
  qed (use "1.IH" in \<open>auto split: if_splits\<close>)
qed

lemma itoa_nat_nonempty: "itoa_nat n \<noteq> []"
  by (subst itoa_nat.simps) simp

lemma atoi_digits_append: "atoi_digits acc (xs @ ys) = Option.bind (atoi_digits acc xs) (\<lambda>a. atoi_digits a ys)"
  by (induction acc xs rule: atoi_digits.induct) auto

lemma atoi_digits_itoa: "atoi_digits 0 (itoa_nat n) = Some n"
proof (induction n rule: itoa_nat.induct)
  case (1 n)
  show ?case
  proof (cases "n < 10")
    case True
    then show ?thesis by (subst itoa_nat.simps) (simp add: digit_code)
  next
    case False
    then have "itoa_nat n = itoa_nat (n div 10) @ [digit (n mod 10)]" by (simp only: itoa_nat.simps [of n] if_False)
    moreover have "atoi_digits 0 (itoa_nat (n div 10)) = Some (n div 10)" using 1 False by blast
    ultimately show ?thesis by (simp add: atoi_digits_append digit_code)
  qed
qed

lemma itoa_nat_inj: "itoa_nat m = itoa_nat n \<Longrightarrow> m = n"
  by (metis atoi_digits_itoa option.inject)

lemma hd_itoa_nat: "\<exists>d < 10. hd (itoa_nat n) = digit d"
  using itoa_nat_chars [of "hd (itoa_nat n)" n] itoa_nat_nonempty [of n] by simp

lemma atoi_itoa: "- (2 ^ 63) \<le> i \<Longrightarrow> i < 2 ^ 63 \<Longrightarrow> atoi (itoa i) = Some i"
proof -
  assume r: "- (2 ^ 63) \<le> i" "i < 2 ^ 63"
  show ?thesis
  proof (cases "i < 0")
    case True
    then show ?thesis using r itoa_nat_nonempty by (simp add: itoa_def atoi_def atoi_digits_itoa)
  next
    case False
    obtain d where "d < 10" "hd (itoa_nat (nat i)) = digit d" using hd_itoa_nat by blast
    then show ?thesis using False r itoa_nat_nonempty digit_not_dash [of d] by (simp add: itoa_def atoi_def atoi_digits_itoa)
  qed
qed

subsection \<open>common.go and common\_rpc.go\<close>

datatype jobPhase = mapPhase | reducePhase

record KeyValue =
  Key :: string
  Value :: string

definition reduceName :: "string \<Rightarrow> int \<Rightarrow> int \<Rightarrow> string" where
  "reduceName jobName mapTask reduceTask = ''mrtmp.'' @ jobName @ ''-'' @ itoa mapTask @ ''-'' @ itoa reduceTask"

definition mergeName :: "string \<Rightarrow> int \<Rightarrow> string" where
  "mergeName jobName reduceTask = ''mrtmp.'' @ jobName @ ''-res-'' @ itoa reduceTask"

record DoTaskArgs =
  dt_JobName :: string
  dt_File :: string
  dt_Phase :: jobPhase
  dt_TaskNumber :: int
  dt_NumOtherPhase :: int

record ShutdownReply =
  sr_Ntasks :: int

record RegisterArgs =
  ra_Worker :: string

text \<open>Every file of a job has a name of its own.\<close>

lemma dash_unique: "CHR ''-'' \<notin> set xs \<Longrightarrow> CHR ''-'' \<notin> set xs' \<Longrightarrow> xs @ CHR ''-'' # ys = xs' @ CHR ''-'' # ys' \<Longrightarrow> xs = xs' \<and> ys = ys'"
proof (induction xs arbitrary: xs')
  case Nil
  then show ?case by (cases xs') auto
next
  case (Cons x xs)
  then show ?case by (cases xs') auto
qed

lemma itoa_nat_no_dash: "CHR ''-'' \<notin> set (itoa_nat n)"
  using itoa_nat_chars [of "CHR ''-''" n] digit_not_dash by metis

lemma reduceName_inj: "reduceName job (int m) (int r) = reduceName job (int m') (int r') \<longleftrightarrow> m = m' \<and> r = r'"
proof
  assume "reduceName job (int m) (int r) = reduceName job (int m') (int r')"
  then have "itoa_nat m @ CHR ''-'' # itoa_nat r = itoa_nat m' @ CHR ''-'' # itoa_nat r'" by (simp add: reduceName_def itoa_def)
  from dash_unique [OF itoa_nat_no_dash itoa_nat_no_dash this] show "m = m' \<and> r = r'" using itoa_nat_inj by blast
qed simp

lemma mergeName_inj: "mergeName job (int r) = mergeName job (int r') \<longleftrightarrow> r = r'"
  by (auto simp: mergeName_def itoa_def dest: itoa_nat_inj)

lemma reduceName_not_mergeName: "reduceName job (int m) r \<noteq> mergeName job r'"
proof
  assume "reduceName job (int m) r = mergeName job r'"
  then have "itoa_nat m @ CHR ''-'' # itoa r = ''res-'' @ itoa r'" by (simp add: reduceName_def mergeName_def itoa_def)
  then have "hd (itoa_nat m) = CHR ''r''" using itoa_nat_nonempty [of m] by (cases "itoa_nat m") simp_all
  then show False using hd_itoa_nat [of m] digit_not_dash by metis
qed

lemma final_name: "''mrtmp.'' @ job \<noteq> reduceName job m r" "''mrtmp.'' @ job \<noteq> mergeName job r"
  by (simp_all add: reduceName_def mergeName_def)

subsection \<open>Files\<close>

datatype chunk = Arr "KeyValue list" | Obj KeyValue | Line string

record disk =
  inputs :: "string \<rightharpoonup> string"
  files :: "string \<rightharpoonup> chunk list"
  writable :: "string \<Rightarrow> bool"

text \<open>\<open>os.OpenFile\<close> with \<open>O_APPEND|O_CREATE|O_WRONLY\<close>, a write through such a handle, and \<open>os.Create\<close>.\<close>

definition open_append :: "disk \<Rightarrow> string \<Rightarrow> disk option" where
  "open_append d f =
     (if \<not> writable d f then None
      else Some (if files d f = None then d\<lparr>files := (files d)(f \<mapsto> [])\<rparr> else d))"

definition write_chunk :: "disk \<Rightarrow> string \<Rightarrow> chunk \<Rightarrow> disk" where
  "write_chunk d f c = d\<lparr>files := (files d)(f \<mapsto> mget [] (files d) f @ [c])\<rparr>"

definition create_file :: "disk \<Rightarrow> string \<Rightarrow> disk option" where
  "create_file d f = (if writable d f then Some (d\<lparr>files := (files d)(f \<mapsto> [])\<rparr>) else None)"

text \<open>\<open>json.Unmarshal\<close> into a slice of pairs leaves it empty unless the file is one JSON array.\<close>

fun unmarshal_list :: "chunk list \<Rightarrow> KeyValue list" where
  "unmarshal_list [Arr kvs] = kvs"
| "unmarshal_list _ = []"

text \<open>A decoder yields objects until the first value that is none.\<close>

fun decode_objects :: "chunk list \<Rightarrow> KeyValue list" where
  "decode_objects (Obj kv # cs) = kv # decode_objects cs"
| "decode_objects _ = []"

lemma decode_objects_Obj [simp]: "decode_objects (map Obj kvs) = kvs"
  by (induction kvs) simp_all

end
