(* ===== verification/MR_Tasks.thy ===== *)
theory MR_Tasks
  imports MR_Files
begin

section \<open>MapReduce: map and reduce tasks\<close>

text \<open>
  \<open>doMap\<close> of \<^verbatim>\<open>src/mapreduce/common_map.go\<close> and \<open>doReduce\<close> of \<^verbatim>\<open>src/mapreduce/common_reduce.go\<close>. The
  user's functions are arguments; the reduce function may panic. A panic ends the process, so only the
  disk of a task that ends is kept.
\<close>

subsection \<open>common\_map.go\<close>

text \<open>32-bit FNV-1a without its sign bit.\<close>

definition fnv32a :: "string \<Rightarrow> 32 word" where
  "fnv32a s = fold (\<lambda>c h. Bit_Operations.xor h (of_nat (of_char c)) * 16777619) s 2166136261"

definition ihash :: "string \<Rightarrow> int" where
  "ihash s = uint (Bit_Operations.and (fnv32a s) 0x7fffffff)"

fun open_loop :: "disk \<Rightarrow> string \<Rightarrow> int \<Rightarrow> int list \<Rightarrow> disk result" where
  "open_loop d jobName mapTask [] = Inr d"
| "open_loop d jobName mapTask (i # is) =
     (case open_append d (reduceName jobName mapTask i) of
        None \<Rightarrow> Inl (Panicked ''open'')
      | Some d \<Rightarrow> open_loop d jobName mapTask is)"

fun bin_loop :: "int \<Rightarrow> KeyValue list list \<Rightarrow> KeyValue list \<Rightarrow> KeyValue list list result" where
  "bin_loop nReduce kvList [] = Inr kvList"
| "bin_loop nReduce kvList (v # keyValueRet) =
     (if nReduce = 0 then Inl (Panicked ''integer divide by zero'')
      else let fileind = ihash (Key v) mod nReduce in
        rbind (at kvList fileind) (\<lambda>bin.
        rbind (put_at kvList fileind (bin @ [v])) (\<lambda>kvList. bin_loop nReduce kvList keyValueRet)))"

fun write_loop :: "disk \<Rightarrow> string \<Rightarrow> int \<Rightarrow> nat \<Rightarrow> KeyValue list list \<Rightarrow> disk" where
  "write_loop d jobName mapTask ind [] = d"
| "write_loop d jobName mapTask ind (v # kvList) =
     write_loop (write_chunk d (reduceName jobName mapTask (int ind)) (Arr v)) jobName mapTask (Suc ind) kvList"

definition doMap :: "disk \<Rightarrow> string \<Rightarrow> int \<Rightarrow> string \<Rightarrow> int \<Rightarrow> (string \<Rightarrow> string \<Rightarrow> KeyValue list) \<Rightarrow> disk result" where
  "doMap d jobName mapTask inFile nReduce mapF =
     (case inputs d inFile of
        None \<Rightarrow> Inr d
      | Some content \<Rightarrow>
          let keyValueRet = mapF inFile content in
          if nReduce < 0 then Inl (Panicked ''makeslice: len out of range'')
          else rbind (open_loop d jobName mapTask (map int [0..<nat nReduce])) (\<lambda>d.
            rbind (bin_loop nReduce (replicate (nat nReduce) []) keyValueRet) (\<lambda>kvList.
              Inr (write_loop d jobName mapTask 0 kvList))))"

subsection \<open>common\_reduce.go\<close>

fun gather_loop :: "string list \<Rightarrow> (string \<rightharpoonup> string list) \<Rightarrow> KeyValue list \<Rightarrow> string list \<times> (string \<rightharpoonup> string list)" where
  "gather_loop keys allKeyValue [] = (keys, allKeyValue)"
| "gather_loop keys allKeyValue (keyvalue # kvList) =
     (case allKeyValue (Key keyvalue) of
        None \<Rightarrow> gather_loop (keys @ [Key keyvalue]) (allKeyValue(Key keyvalue \<mapsto> [Value keyvalue])) kvList
      | Some vs \<Rightarrow> gather_loop keys (allKeyValue(Key keyvalue \<mapsto> vs @ [Value keyvalue])) kvList)"

fun read_loop ::
  "disk \<Rightarrow> string \<Rightarrow> int \<Rightarrow> string list \<Rightarrow> (string \<rightharpoonup> string list) \<Rightarrow> int list \<Rightarrow> (string list \<times> (string \<rightharpoonup> string list)) result" where
  "read_loop d jobName reduceTask keys allKeyValue [] = Inr (keys, allKeyValue)"
| "read_loop d jobName reduceTask keys allKeyValue (nmap # nmaps) =
     (case files d (reduceName jobName nmap reduceTask) of
        None \<Rightarrow> Inl (Panicked ''open'')
      | Some content \<Rightarrow>
          (case gather_loop keys allKeyValue (unmarshal_list content) of
             (keys, allKeyValue) \<Rightarrow> read_loop d jobName reduceTask keys allKeyValue nmaps))"

fun reduce_loop ::
  "disk \<Rightarrow> string \<Rightarrow> (string \<Rightarrow> string list \<Rightarrow> string result) \<Rightarrow> (string \<rightharpoonup> string list) \<Rightarrow> string list \<Rightarrow> disk result" where
  "reduce_loop d outFile reduceF allKeyValue [] = Inr d"
| "reduce_loop d outFile reduceF allKeyValue (val # keys) =
     rbind (reduceF val (mget [] allKeyValue val)) (\<lambda>v.
       reduce_loop (write_chunk d outFile (Obj \<lparr>Key = val, Value = v\<rparr>)) outFile reduceF allKeyValue keys)"

definition doReduce ::
  "disk \<Rightarrow> string \<Rightarrow> int \<Rightarrow> string \<Rightarrow> int \<Rightarrow> (string \<Rightarrow> string list \<Rightarrow> string result) \<Rightarrow> disk result" where
  "doReduce d jobName reduceTask outFile nMap reduceF =
     rbind (read_loop d jobName reduceTask [] Map.empty (map int [0..<nat nMap])) (\<lambda>(keys, allKeyValue).
       let keys = sort keys in
       case open_append d outFile of
         None \<Rightarrow> Inl (Panicked ''open'')
       | Some d \<Rightarrow> reduce_loop d outFile reduceF allKeyValue keys)"

subsection \<open>Reference definitions\<close>

definition keys_of :: "KeyValue list \<Rightarrow> string list" where
  "keys_of kvs = sort (remdups (map Key kvs))"

definition values_of :: "KeyValue list \<Rightarrow> string \<Rightarrow> string list" where
  "values_of kvs k = map Value (filter (\<lambda>kv. Key kv = k) kvs)"

definition bin_of :: "nat \<Rightarrow> KeyValue list \<Rightarrow> nat \<Rightarrow> KeyValue list" where
  "bin_of n kvs r = filter (\<lambda>kv. ihash (Key kv) mod int n = int r) kvs"

subsection \<open>Hashing\<close>

lemma ihash_bounds: "0 \<le> ihash s" "ihash s < 2 ^ 31"
proof -
  show "0 \<le> ihash s" by (simp add: ihash_def)
  have "ihash s = take_bit 31 (uint (fnv32a s))"
    by (simp add: ihash_def uint_and take_bit_eq_mask mask_eq_exp_minus_1)
  also have "\<dots> < 2 ^ 31" by (rule take_bit_int_less_exp)
  finally show "ihash s < 2 ^ 31" .
qed

lemma ihash_bin: "0 < n \<Longrightarrow> \<exists>r < n. ihash s mod int n = int r"
  by (metis Euclidean_Rings.pos_mod_bound Euclidean_Rings.pos_mod_sign nonneg_int_cases of_nat_0_less_iff of_nat_less_iff)

subsection \<open>What a map task writes\<close>

lemma bin_loop_eq:
  assumes "length bins = n" "0 < n"
  shows "bin_loop (int n) bins kvs = Inr (map (\<lambda>r. bins ! r @ bin_of n kvs r) [0..<n])"
  using assms
proof (induction kvs arbitrary: bins)
  case Nil
  then show ?case using map_nth [of bins] by (simp add: bin_of_def)
next
  case (Cons v kvs)
  obtain r where r: "r < n" "ihash (Key v) mod int n = int r" using ihash_bin [OF Cons.prems(2)] by blast
  have "bin_loop (int n) (bins[r := bins ! r @ [v]]) kvs = Inr (map (\<lambda>i. bins[r := bins ! r @ [v]] ! i @ bin_of n kvs i) [0..<n])"
    by (rule Cons.IH) (use Cons.prems in simp_all)
  also have "map (\<lambda>i. bins[r := bins ! r @ [v]] ! i @ bin_of n kvs i) [0..<n] = map (\<lambda>i. bins ! i @ bin_of n (v # kvs) i) [0..<n]"
    using r Cons.prems(1) by (auto simp: bin_of_def nth_list_update)
  finally show ?case using r Cons.prems by (simp add: at_def put_at_def)
qed

lemma open_append_Some:
  "writable d f \<Longrightarrow> \<exists>d'. open_append d f = Some d' \<and> inputs d' = inputs d \<and> writable d' = writable d \<and>
     files d' = (files d)(f \<mapsto> mget [] (files d) f)"
  by (auto simp: open_append_def mget_def fun_eq_iff split: option.splits)

definition opened :: "disk \<Rightarrow> string set \<Rightarrow> string \<Rightarrow> chunk list option" where
  "opened d fs f = (if f \<in> fs then Some (mget [] (files d) f) else files d f)"

lemma open_loop_ok:
  "(\<And>i. i \<in> set is \<Longrightarrow> writable d (reduceName job m i)) \<Longrightarrow>
   \<exists>d'. open_loop d job m is = Inr d' \<and> inputs d' = inputs d \<and> writable d' = writable d \<and>
     files d' = opened d (reduceName job m ` set is)"
proof (induction "is" arbitrary: d)
  case (Cons i "is")
  obtain e where e: "open_append d (reduceName job m i) = Some e" "inputs e = inputs d" "writable e = writable d"
    "files e = (files d)(reduceName job m i \<mapsto> mget [] (files d) (reduceName job m i))"
    using open_append_Some [of d "reduceName job m i"] Cons.prems [of i] by auto
  obtain d' where "open_loop e job m is = Inr d'" "inputs d' = inputs e" "writable d' = writable e"
    "files d' = opened e (reduceName job m ` set is)" using Cons.IH [of e] Cons.prems e(3) by auto
  moreover have "opened e (reduceName job m ` set is) = opened d (reduceName job m ` set (i # is))"
    using e(4) by (auto simp: opened_def mget_def fun_eq_iff)
  ultimately show ?case using e by simp
qed (simp add: opened_def fun_eq_iff)

lemma write_loop_same:
  "inputs (write_loop d job m k bins) = inputs d" "writable (write_loop d job m k bins) = writable d"
  by (induction bins arbitrary: d k) (simp_all add: write_chunk_def)

lemma write_loop_other:
  "(\<And>r. r < length bins \<Longrightarrow> f \<noteq> reduceName job m (int (k + r))) \<Longrightarrow> files (write_loop d job m k bins) f = files d f"
proof (induction bins arbitrary: d k)
  case (Cons b bins)
  have "f \<noteq> reduceName job m (int (Suc k + r))" if "r < length bins" for r using Cons.prems [of "Suc r"] that by simp
  moreover have "f \<noteq> reduceName job m (int k)" using Cons.prems [of 0] by simp
  ultimately show ?case using Cons.IH [of "Suc k"] by (simp add: write_chunk_def)
qed simp

lemma write_loop_bin:
  "r < length bins \<Longrightarrow> files (write_loop d job (int m) k bins) (reduceName job (int m) (int (k + r))) =
     Some (mget [] (files d) (reduceName job (int m) (int (k + r))) @ [Arr (bins ! r)])"
proof (induction bins arbitrary: d k r)
  case (Cons b bins)
  let ?d = "write_chunk d (reduceName job (int m) (int k)) (Arr b)"
  show ?case
  proof (cases r)
    case 0
    have "files (write_loop ?d job (int m) (Suc k) bins) (reduceName job (int m) (int k)) = files ?d (reduceName job (int m) (int k))"
      by (rule write_loop_other) (simp add: reduceName_inj del: of_nat_add of_nat_Suc)
    then show ?thesis using 0 by (simp add: write_chunk_def)
  next
    case (Suc q)
    have "reduceName job (int m) (int (Suc k + q)) \<noteq> reduceName job (int m) (int k)" by (simp add: reduceName_inj del: of_nat_add of_nat_Suc)
    then have "mget [] (files ?d) (reduceName job (int m) (int (Suc k + q))) = mget [] (files d) (reduceName job (int m) (int (Suc k + q)))"
      by (simp add: write_chunk_def)
    then show ?thesis using Suc Cons.IH [of q ?d "Suc k"] Cons.prems by (simp del: of_nat_add of_nat_Suc)
  qed
qed simp

text \<open>The files after a map task: every bin is added to its file, nothing else changes.\<close>

lemma doMap_ok:
  assumes content: "inputs d inFile = Some content" and n: "0 < n"
    and w: "\<And>r. r < n \<Longrightarrow> writable d (reduceName job (int m) (int r))"
  obtains d' where "doMap d job (int m) inFile (int n) mapF = Inr d'" "inputs d' = inputs d" "writable d' = writable d"
    "\<And>r. r < n \<Longrightarrow> files d' (reduceName job (int m) (int r)) =
       Some (mget [] (files d) (reduceName job (int m) (int r)) @ [Arr (bin_of n (mapF inFile content) r)])"
    "\<And>f. f \<notin> (\<lambda>r. reduceName job (int m) (int r)) ` {..<n} \<Longrightarrow> files d' f = files d f"
proof -
  let ?bins = "map (bin_of n (mapF inFile content)) [0..<n]"
  obtain e where e: "open_loop d job (int m) (map int [0..<n]) = Inr e" "inputs e = inputs d" "writable e = writable d"
    "files e = opened d (reduceName job (int m) ` set (map int [0..<n]))"
  proof -
    have "writable d (reduceName job (int m) i)" if "i \<in> set (map int [0..<n])" for i using that w by auto
    from open_loop_ok [OF this] show thesis using that by blast
  qed
  have same: "mget [] (files e) f = mget [] (files d) f" for f by (simp add: e(4) opened_def mget_def)
  have bins: "bin_loop (int n) (replicate n []) (mapF inFile content) = Inr ?bins"
    using bin_loop_eq [of "replicate n []" n "mapF inFile content"] n by (simp cong: map_cong)
  show thesis
  proof (rule that)
    show "doMap d job (int m) inFile (int n) mapF = Inr (write_loop e job (int m) 0 ?bins)"
      using content e(1) bins by (simp add: doMap_def Let_def)
    show "files (write_loop e job (int m) 0 ?bins) (reduceName job (int m) (int r)) =
        Some (mget [] (files d) (reduceName job (int m) (int r)) @ [Arr (bin_of n (mapF inFile content) r)])" if "r < n" for r
      using write_loop_bin [of r ?bins e job m 0] that by (simp add: same)
    show "files (write_loop e job (int m) 0 ?bins) f = files d f" if f: "f \<notin> (\<lambda>r. reduceName job (int m) (int r)) ` {..<n}" for f
    proof -
      have "files (write_loop e job (int m) 0 ?bins) f = files e f" by (rule write_loop_other) (use f in auto)
      also have "\<dots> = files d f" using f by (auto simp: e(4) opened_def)
      finally show ?thesis .
    qed
  qed (simp_all add: write_loop_same e(2,3))
qed

subsection \<open>What a reduce task writes\<close>

lemma values_of_append: "values_of (xs @ ys) k = values_of xs k @ values_of ys k"
  by (simp add: values_of_def)

lemma gather_loop_eq:
  assumes "dom m = set keys" "distinct keys"
  shows "\<exists>keys' m'. gather_loop keys m kvs = (keys', m') \<and> dom m' = set keys' \<and> distinct keys' \<and> set keys' = set keys \<union> Key ` set kvs \<and>
    (\<forall>k. mget [] m' k = mget [] m k @ values_of kvs k)"
  using assms
proof (induction kvs arbitrary: keys m)
  case Nil
  then show ?case by (simp add: values_of_def)
next
  case (Cons kv kvs)
  define keys1 where "keys1 = (if m (Key kv) = None then keys @ [Key kv] else keys)"
  define m1 where "m1 = m(Key kv \<mapsto> mget [] m (Key kv) @ [Value kv])"
  have step: "gather_loop keys m (kv # kvs) = gather_loop keys1 m1 kvs"
    by (cases "m (Key kv)") (simp_all add: keys1_def m1_def mget_def)
  have known: "m (Key kv) = None \<longleftrightarrow> Key kv \<notin> set keys" using Cons.prems(1) by (metis domIff)
  have "dom m1 = insert (Key kv) (set keys)" by (simp add: m1_def Cons.prems(1))
  then have "dom m1 = set keys1" using known by (auto simp: keys1_def)
  moreover have "distinct keys1" using Cons.prems(2) known by (auto simp: keys1_def)
  ultimately obtain keys' m' where r: "gather_loop keys1 m1 kvs = (keys', m')" "dom m' = set keys'" "distinct keys'"
    "set keys' = set keys1 \<union> Key ` set kvs" "\<And>k. mget [] m' k = mget [] m1 k @ values_of kvs k" using Cons.IH by blast
  have "set keys' = set keys \<union> Key ` set (kv # kvs)" using r(4) known by (auto simp: keys1_def)
  moreover have "mget [] m' k = mget [] m k @ values_of (kv # kvs) k" for k by (simp add: r(5) m1_def values_of_def)
  ultimately show ?case unfolding step r(1) using r(2,3) by (intro exI [of _ keys'] exI [of _ m']) simp
qed

lemma read_loop_eq:
  assumes "dom m = set keys" "distinct keys" "\<And>i. i \<in> set ms \<Longrightarrow> files d (reduceName job i r) = Some (content i)"
  shows "\<exists>keys' m'. read_loop d job r keys m ms = Inr (keys', m') \<and> distinct keys' \<and>
    set keys' = set keys \<union> Key ` set (concat (map (unmarshal_list \<circ> content) ms)) \<and>
    (\<forall>k. mget [] m' k = mget [] m k @ values_of (concat (map (unmarshal_list \<circ> content) ms)) k)"
  using assms
proof (induction ms arbitrary: keys m)
  case Nil
  then show ?case by (simp add: values_of_def)
next
  case (Cons i ms)
  obtain keys1 m1 where g: "gather_loop keys m (unmarshal_list (content i)) = (keys1, m1)" "dom m1 = set keys1" "distinct keys1"
    "set keys1 = set keys \<union> Key ` set (unmarshal_list (content i))"
    "\<And>k. mget [] m1 k = mget [] m k @ values_of (unmarshal_list (content i)) k"
    using gather_loop_eq [OF Cons.prems(1,2)] by blast
  have "\<exists>keys' m'. read_loop d job r keys1 m1 ms = Inr (keys', m') \<and> distinct keys' \<and>
      set keys' = set keys1 \<union> Key ` set (concat (map (unmarshal_list \<circ> content) ms)) \<and>
      (\<forall>k. mget [] m' k = mget [] m1 k @ values_of (concat (map (unmarshal_list \<circ> content) ms)) k)"
    by (rule Cons.IH [OF g(2,3)]) (use Cons.prems(3) in simp)
  then obtain keys' m' where r: "read_loop d job r keys1 m1 ms = Inr (keys', m')" "distinct keys'"
    "set keys' = set keys1 \<union> Key ` set (concat (map (unmarshal_list \<circ> content) ms))"
    "\<And>k. mget [] m' k = mget [] m1 k @ values_of (concat (map (unmarshal_list \<circ> content) ms)) k" by blast
  have "read_loop d job r keys m (i # ms) = Inr (keys', m')" using Cons.prems(3) [of i] g(1) r(1) by simp
  moreover have "set keys' = set keys \<union> Key ` set (concat (map (unmarshal_list \<circ> content) (i # ms)))"
    by (simp add: r(3) g(4) image_Un Un_assoc)
  moreover have "mget [] m' k = mget [] m k @ values_of (concat (map (unmarshal_list \<circ> content) (i # ms))) k" for k
    by (simp add: r(4) g(5) values_of_append)
  ultimately show ?case using r(2) by blast
qed

lemma reduce_loop_eq:
  assumes "\<And>k. k \<in> set keys \<Longrightarrow> reduceF k (mget [] m k) = Inr (out k)"
  shows "reduce_loop d f reduceF m keys = Inr (if keys = [] then d else
    d\<lparr>files := (files d)(f \<mapsto> mget [] (files d) f @ map (\<lambda>k. Obj \<lparr>Key = k, Value = out k\<rparr>) keys)\<rparr>)"
  using assms
proof (induction keys arbitrary: d)
  case (Cons k keys)
  let ?d = "write_chunk d f (Obj \<lparr>Key = k, Value = out k\<rparr>)"
  have "reduce_loop ?d f reduceF m keys = Inr (if keys = [] then ?d else
      ?d\<lparr>files := (files ?d)(f \<mapsto> mget [] (files ?d) f @ map (\<lambda>k. Obj \<lparr>Key = k, Value = out k\<rparr>) keys)\<rparr>)"
    by (rule Cons.IH) (use Cons.prems in simp)
  then show ?case using Cons.prems [of k] by (simp add: write_chunk_def)
qed simp

lemma sort_keys_of: "distinct keys \<Longrightarrow> set keys = Key ` set kvs \<Longrightarrow> sort keys = keys_of kvs"
  by (rule sorted_distinct_set_unique) (auto simp: keys_of_def)

text \<open>One object for every key in sorted order, with the reduced value of all its values, is added to the output.\<close>

lemma doReduce_ok:
  assumes "\<And>i. i < nMap \<Longrightarrow> files d (reduceName job (int i) r) = Some (content i)" "writable d outFile"
    and pairs: "pairs = concat (map (unmarshal_list \<circ> content) [0..<nMap])"
    and red: "\<And>k. k \<in> set (keys_of pairs) \<Longrightarrow> reduceF k (values_of pairs k) = Inr (out k)"
  obtains d' where "doReduce d job r outFile (int nMap) reduceF = Inr d'" "inputs d' = inputs d" "writable d' = writable d"
    "files d' = (files d)(outFile \<mapsto> mget [] (files d) outFile @ map (\<lambda>k. Obj \<lparr>Key = k, Value = out k\<rparr>) (keys_of pairs))"
proof -
  have conc: "concat (map (unmarshal_list \<circ> (content \<circ> nat)) (map int [0..<nMap])) = pairs" by (simp add: pairs comp_def)
  have "\<exists>keys' m'. read_loop d job r [] Map.empty (map int [0..<nMap]) = Inr (keys', m') \<and> distinct keys' \<and>
    set keys' = set [] \<union> Key ` set (concat (map (unmarshal_list \<circ> (content \<circ> nat)) (map int [0..<nMap]))) \<and>
    (\<forall>k. mget [] m' k = mget [] Map.empty k @ values_of (concat (map (unmarshal_list \<circ> (content \<circ> nat)) (map int [0..<nMap]))) k)"
    by (rule read_loop_eq) (use assms(1) in auto)
  then obtain keys m where rd: "read_loop d job r [] Map.empty (map int [0..<nMap]) = Inr (keys, m)" "distinct keys"
    "set keys = Key ` set pairs" "\<And>k. mget [] m k = values_of pairs k" unfolding conc by auto
  have keys: "sort keys = keys_of pairs" by (rule sort_keys_of [OF rd(2,3)])
  obtain e where e: "open_append d outFile = Some e" "inputs e = inputs d" "writable e = writable d"
    "files e = (files d)(outFile \<mapsto> mget [] (files d) outFile)" using open_append_Some [OF assms(2)] by blast
  have "reduce_loop e outFile reduceF m (keys_of pairs) = Inr (if keys_of pairs = [] then e else
    e\<lparr>files := (files e)(outFile \<mapsto> mget [] (files e) outFile @ map (\<lambda>k. Obj \<lparr>Key = k, Value = out k\<rparr>) (keys_of pairs))\<rparr>)" (is "_ = Inr ?d'")
    by (rule reduce_loop_eq) (simp add: rd(4) red)
  then have "doReduce d job r outFile (int nMap) reduceF = Inr ?d'" by (simp add: doReduce_def rd(1) keys e(1) Let_def)
  then show thesis by (rule that) (use e in auto)
qed

end
