(* ===== verification/MR_Master.thy ===== *)
theory MR_Master
  imports MR_Tasks "HOL-Library.AList"
begin

section \<open>MapReduce: the master and a sequential job\<close>

text \<open>
  \<^verbatim>\<open>src/mapreduce/master.go\<close>, \<^verbatim>\<open>src/mapreduce/master_splitmerge.go\<close> and the calls of
  \<^verbatim>\<open>src/mapreduce/master_rpc.go\<close> that change the master. A range over the map of \<open>merge\<close> is followed by a
  sort of its keys, so the map is an association list. The listener is a flag, the channel \<open>doneChannel\<close> a
  flag that is set when the master is ready to send on it.
\<close>

subsection \<open>The master\<close>

record Master =
  mr_address :: string
  mr_workers :: "string list"
  mr_jobName :: string
  mr_files :: "string list"
  mr_nReduce :: int
  mr_shutdown :: bool
  mr_listening :: bool
  mr_stats :: "int list"
  mr_done :: bool

definition newMaster :: "string \<Rightarrow> Master" where
  "newMaster master = \<lparr>mr_address = master, mr_workers = [], mr_jobName = [], mr_files = [], mr_nReduce = 0,
     mr_shutdown = False, mr_listening = False, mr_stats = [], mr_done = False\<rparr>"

definition Register :: "Master \<Rightarrow> RegisterArgs \<Rightarrow> Master" where
  "Register mr args = mr\<lparr>mr_workers := mr_workers mr @ [ra_Worker args]\<rparr>"

text \<open>One round of \<open>forwardRegistrations\<close>: the next worker to tell the scheduler about, or none to wait for
  a registration.\<close>

definition forwardRegistrations_step :: "Master \<Rightarrow> nat \<Rightarrow> (string \<times> nat) option" where
  "forwardRegistrations_step mr i = (if length (mr_workers mr) > i then Some (mr_workers mr ! i, i + 1) else None)"

subsection \<open>master\_splitmerge.go\<close>

definition add_objects :: "(string \<times> string) list \<Rightarrow> KeyValue list \<Rightarrow> (string \<times> string) list" where
  "add_objects kvs objs = foldl (\<lambda>kvs kv. AList.update (Key kv) (Value kv) kvs) kvs objs"

fun merge_loop :: "disk \<Rightarrow> string \<Rightarrow> (string \<times> string) list \<Rightarrow> int list \<Rightarrow> (string \<times> string) list result" where
  "merge_loop d jobName kvs [] = Inr kvs"
| "merge_loop d jobName kvs (i # is) =
     (case files d (mergeName jobName i) of
        None \<Rightarrow> Inl (Fatal ''Merge: '')
      | Some content \<Rightarrow> merge_loop d jobName (add_objects kvs (decode_objects content)) is)"

fun print_loop :: "disk \<Rightarrow> string \<Rightarrow> (string \<rightharpoonup> string) \<Rightarrow> string list \<Rightarrow> disk" where
  "print_loop d f kvs [] = d"
| "print_loop d f kvs (k # keys) = print_loop (write_chunk d f (Line (k @ '': '' @ mget [] kvs k @ [CHR 0x0A]))) f kvs keys"

definition merge :: "Master \<Rightarrow> disk \<Rightarrow> disk result" where
  "merge mr d =
     rbind (merge_loop d (mr_jobName mr) [] (map int [0..<nat (mr_nReduce mr)])) (\<lambda>kvs.
       let keys = sort (map fst kvs) in
       case create_file d (''mrtmp.'' @ mr_jobName mr) of
         None \<Rightarrow> Inl (Fatal ''Merge: create '')
       | Some d \<Rightarrow> Inr (print_loop d (''mrtmp.'' @ mr_jobName mr) (map_of kvs) keys))"

definition removeFile :: "disk \<Rightarrow> string \<Rightarrow> disk result" where
  "removeFile d n = (if files d n = None then Inl (Fatal ''CleanupFiles '') else Inr (d\<lparr>files := (files d)(n := None)\<rparr>))"

fun remove_all :: "disk \<Rightarrow> string list \<Rightarrow> disk result" where
  "remove_all d [] = Inr d"
| "remove_all d (n # ns) = rbind (removeFile d n) (\<lambda>d. remove_all d ns)"

definition CleanupFiles :: "Master \<Rightarrow> disk \<Rightarrow> disk result" where
  "CleanupFiles mr d =
     rbind (remove_all d [reduceName (mr_jobName mr) (int i) (int j). i \<leftarrow> [0..<length (mr_files mr)], j \<leftarrow> [0..<nat (mr_nReduce mr)]]) (\<lambda>d.
     rbind (remove_all d (map (\<lambda>i. mergeName (mr_jobName mr) (int i)) [0..<nat (mr_nReduce mr)])) (\<lambda>d.
       removeFile d (''mrtmp.'' @ mr_jobName mr)))"

subsection \<open>master.go: jobs\<close>

definition run ::
  "Master \<Rightarrow> disk \<Rightarrow> string \<Rightarrow> string list \<Rightarrow> int \<Rightarrow> (Master \<Rightarrow> disk \<Rightarrow> jobPhase \<Rightarrow> disk result) \<Rightarrow> (Master \<Rightarrow> Master result) \<Rightarrow>
     (Master \<times> disk) result" where
  "run mr d jobName fs nreduce schedule finish =
     (let mr = mr\<lparr>mr_jobName := jobName, mr_files := fs, mr_nReduce := nreduce\<rparr> in
      rbind (schedule mr d mapPhase) (\<lambda>d.
      rbind (schedule mr d reducePhase) (\<lambda>d.
      rbind (finish mr) (\<lambda>mr.
      rbind (merge mr d) (\<lambda>d. Inr (mr\<lparr>mr_done := True\<rparr>, d))))))"

fun map_tasks :: "Master \<Rightarrow> (string \<Rightarrow> string \<Rightarrow> KeyValue list) \<Rightarrow> disk \<Rightarrow> nat \<Rightarrow> string list \<Rightarrow> disk result" where
  "map_tasks mr mapF d i [] = Inr d"
| "map_tasks mr mapF d i (f # fs) =
     rbind (doMap d (mr_jobName mr) (int i) f (mr_nReduce mr) mapF) (\<lambda>d. map_tasks mr mapF d (Suc i) fs)"

fun reduce_tasks :: "Master \<Rightarrow> (string \<Rightarrow> string list \<Rightarrow> string result) \<Rightarrow> disk \<Rightarrow> int list \<Rightarrow> disk result" where
  "reduce_tasks mr reduceF d [] = Inr d"
| "reduce_tasks mr reduceF d (i # is) =
     rbind (doReduce d (mr_jobName mr) i (mergeName (mr_jobName mr) i) (int (length (mr_files mr))) reduceF) (\<lambda>d.
       reduce_tasks mr reduceF d is)"

definition sequential_phase ::
  "(string \<Rightarrow> string \<Rightarrow> KeyValue list) \<Rightarrow> (string \<Rightarrow> string list \<Rightarrow> string result) \<Rightarrow> Master \<Rightarrow> disk \<Rightarrow> jobPhase \<Rightarrow> disk result" where
  "sequential_phase mapF reduceF mr d phase =
     (case phase of
        mapPhase \<Rightarrow> map_tasks mr mapF d 0 (mr_files mr)
      | reducePhase \<Rightarrow> reduce_tasks mr reduceF d (map int [0..<nat (mr_nReduce mr)]))"

definition Sequential ::
  "disk \<Rightarrow> string \<Rightarrow> string list \<Rightarrow> int \<Rightarrow> (string \<Rightarrow> string \<Rightarrow> KeyValue list) \<Rightarrow> (string \<Rightarrow> string list \<Rightarrow> string result) \<Rightarrow>
     (Master \<times> disk) result" where
  "Sequential d jobName fs nreduce mapF reduceF =
     run (newMaster ''master'') d jobName fs nreduce (sequential_phase mapF reduceF)
       (\<lambda>mr. Inr (mr\<lparr>mr_stats := [int (length fs) + nreduce]\<rparr>))"

text \<open>\<open>Wait\<close> returns once the job has sent its signal.\<close>

definition Wait :: "Master \<Rightarrow> bool" where
  "Wait mr = mr_done mr"

text \<open>Shutdown calls to the workers: each answers with its number of tasks, or not at all.\<close>

fun killWorkers_loop :: "int option list \<Rightarrow> string list \<Rightarrow> int list \<Rightarrow> int list" where
  "killWorkers_loop replies [] ntasks = ntasks"
| "killWorkers_loop [] (w # ws) ntasks = killWorkers_loop [] ws ntasks"
| "killWorkers_loop (None # replies) (w # ws) ntasks = killWorkers_loop replies ws ntasks"
| "killWorkers_loop (Some n # replies) (w # ws) ntasks = killWorkers_loop replies ws (ntasks @ [n])"

definition killWorkers :: "Master \<Rightarrow> int option list \<Rightarrow> int list" where
  "killWorkers mr replies = killWorkers_loop replies (mr_workers mr) []"

subsection \<open>master\_rpc.go\<close>

text \<open>A second shutdown closes a closed channel.\<close>

definition Master_Shutdown :: "Master \<Rightarrow> Master result" where
  "Master_Shutdown mr =
     (if mr_shutdown mr then Inl (Panicked ''close of closed channel'')
      else Inr (mr\<lparr>mr_shutdown := True, mr_listening := False\<rparr>))"

definition startRPCServer :: "Master \<Rightarrow> bool \<Rightarrow> Master result" where
  "startRPCServer mr can_listen =
     (if can_listen then Inr (mr\<lparr>mr_listening := True\<rparr>) else Inl (Fatal ''RegstrationServer''))"

text \<open>The accept loop that \<open>startRPCServer\<close> forks: each event gives the calls that handlers have served since the last
  one and whether \<open>Accept\<close> succeeds. The result counts the accepted connections.\<close>

datatype master_call = CallRegister RegisterArgs | CallShutdown

fun serve_calls :: "Master \<Rightarrow> master_call list \<Rightarrow> Master result" where
  "serve_calls mr [] = Inr mr"
| "serve_calls mr (CallRegister args # calls) = serve_calls (Register mr args) calls"
| "serve_calls mr (CallShutdown # calls) = rbind (Master_Shutdown mr) (\<lambda>mr. serve_calls mr calls)"

fun registration_loop :: "Master \<Rightarrow> nat \<Rightarrow> (master_call list \<times> bool) list \<Rightarrow> (Master \<times> nat) result" where
  "registration_loop mr accepted [] = Inr (mr, accepted)"
| "registration_loop mr accepted ((calls, ok) # events) =
     (if mr_shutdown mr then Inr (mr, accepted)
      else rbind (serve_calls mr calls) (\<lambda>mr.
        if ok then registration_loop mr (accepted + 1) events else Inr (mr, accepted)))"

definition stopRPCServer :: "Master \<Rightarrow> bool \<Rightarrow> Master result" where
  "stopRPCServer mr delivered = (if delivered then Master_Shutdown mr else Inr mr)"

text \<open>Registrations reach the list of workers in the order in which they were served, and never fail;
  after a shutdown the loop accepts no further connection.\<close>

lemma serve_calls_workers:
  "serve_calls mr calls = Inr mr' \<Longrightarrow> mr_workers mr' = mr_workers mr @ [ra_Worker a. CallRegister a \<leftarrow> calls]"
  by (induction mr calls rule: serve_calls.induct) (auto simp: Register_def Master_Shutdown_def split: if_splits)

lemma serve_calls_register:
  "serve_calls mr (map CallRegister as) = Inr (mr\<lparr>mr_workers := mr_workers mr @ map ra_Worker as\<rparr>)"
  by (induction as arbitrary: mr) (simp_all add: Register_def)

lemma registration_loop_ends_after_shutdown:
  "\<not> mr_shutdown mr \<Longrightarrow>
   registration_loop mr n ((map CallRegister as @ [CallShutdown], True) # events) =
     rbind (serve_calls mr (map CallRegister as @ [CallShutdown])) (\<lambda>mr. Inr (mr, n + 1))"
proof -
  have "serve_calls mr (map CallRegister as @ [CallShutdown]) = Inr mr' \<Longrightarrow> mr_shutdown mr'" for mr mr'
    by (induction as arbitrary: mr) (auto simp: Register_def Master_Shutdown_def split: if_splits)
  moreover assume "\<not> mr_shutdown mr"
  ultimately show ?thesis
    by (cases "serve_calls mr (map CallRegister as @ [CallShutdown])"; cases events) auto
qed

subsection \<open>The map phase\<close>

lemma bin_of_concat: "bin_of n (concat xss) r = concat (map (\<lambda>xs. bin_of n xs r) xss)"
  by (simp add: bin_of_def filter_concat)

lemma map_tasks_ok:
  assumes job: "mr_jobName mr = job" "mr_nReduce mr = int n" and n: "0 < n"
    and inputs: "\<And>f. f \<in> set fs \<Longrightarrow> inputs d f = Some (content f)"
    and w: "\<And>j r. writable d (reduceName job (int j) (int r))"
    and fresh: "\<And>j r. j < length fs \<Longrightarrow> r < n \<Longrightarrow> files d (reduceName job (int (i + j)) (int r)) = None"
  shows "\<exists>d'. map_tasks mr mapF d i fs = Inr d' \<and> inputs d' = inputs d \<and> writable d' = writable d \<and>
    (\<forall>j < length fs. \<forall>r < n. files d' (reduceName job (int (i + j)) (int r)) = Some [Arr (bin_of n (mapF (fs ! j) (content (fs ! j))) r)]) \<and>
    (\<forall>f. (\<forall>j < length fs. \<forall>r < n. f \<noteq> reduceName job (int (i + j)) (int r)) \<longrightarrow> files d' f = files d f)"
  using inputs w fresh
proof (induction fs arbitrary: d i)
  case (Cons f fs)
  have "inputs d f = Some (content f)" using Cons.prems(1) by simp
  from this n Cons.prems(2) obtain e where e: "doMap d job (int i) f (int n) mapF = Inr e" "inputs e = inputs d" "writable e = writable d"
    "\<And>r. r < n \<Longrightarrow> files e (reduceName job (int i) (int r)) =
       Some (mget [] (files d) (reduceName job (int i) (int r)) @ [Arr (bin_of n (mapF f (content f)) r)])"
    "\<And>g. g \<notin> (\<lambda>r. reduceName job (int i) (int r)) ` {..<n} \<Longrightarrow> files e g = files d g"
    by (rule doMap_ok [where m = i and mapF = mapF]) (rule that)
  have other: "files e (reduceName job (int (Suc i + j)) (int r)) = files d (reduceName job (int (Suc i + j)) (int r))" for j r
    by (rule e(5)) (auto simp: reduceName_inj simp del: of_nat_add of_nat_Suc)
  have "files e (reduceName job (int (Suc i + j)) (int r)) = None" if "j < length fs" "r < n" for j r
    unfolding other using Cons.prems(3) [of "Suc j" r] that by simp
  then obtain d' where d': "map_tasks mr mapF e (Suc i) fs = Inr d'" "inputs d' = inputs e" "writable d' = writable e"
    "\<And>j r. j < length fs \<Longrightarrow> r < n \<Longrightarrow> files d' (reduceName job (int (Suc i + j)) (int r)) = Some [Arr (bin_of n (mapF (fs ! j) (content (fs ! j))) r)]"
    "\<And>f. (\<And>j r. j < length fs \<Longrightarrow> r < n \<Longrightarrow> f \<noteq> reduceName job (int (Suc i + j)) (int r)) \<Longrightarrow> files d' f = files e f"
    using Cons.IH [of e "Suc i"] Cons.prems(1,2) e(2,3) by auto
  have first: "files d' (reduceName job (int i) (int r)) = Some [Arr (bin_of n (mapF f (content f)) r)]" if r: "r < n" for r
  proof -
    have "files d' (reduceName job (int i) (int r)) = files e (reduceName job (int i) (int r))"
      by (rule d'(5)) (simp add: reduceName_inj del: of_nat_add of_nat_Suc)
    then show ?thesis using e(4) [OF r] Cons.prems(3) [of 0 r] r by (simp add: mget_def)
  qed
  have "files d' (reduceName job (int (i + j)) (int r)) = Some [Arr (bin_of n (mapF ((f # fs) ! j) (content ((f # fs) ! j))) r)]"
    if "j < length (f # fs)" "r < n" for j r
  proof (cases j)
    case 0
    then show ?thesis using first that(2) by simp
  next
    case (Suc q)
    then show ?thesis using d'(4) [of q r] that by simp
  qed
  moreover have "files d' g = files d g" if g: "\<forall>j < length (f # fs). \<forall>r < n. g \<noteq> reduceName job (int (i + j)) (int r)" for g
  proof -
    have "g \<noteq> reduceName job (int (Suc i + j)) (int r)" if "j < length fs" "r < n" for j r
      using g [rule_format, of "Suc j" r] that by simp
    then have "files d' g = files e g" by (rule d'(5))
    also have "\<dots> = files d g" by (rule e(5)) (use g [rule_format, of 0] in auto)
    finally show ?thesis .
  qed
  ultimately show ?case using e(1-3) d'(1-3) by (simp add: job)
qed simp

subsection \<open>The reduce phase\<close>

lemma reduce_tasks_ok:
  assumes job: "mr_jobName mr = job" "mr_files mr = fs" and "distinct rs"
    and inter: "\<And>i r. i < length fs \<Longrightarrow> r \<in> set rs \<Longrightarrow> files d (reduceName job (int i) (int r)) = Some [Arr (bin i r)]"
    and w: "\<And>r. writable d (mergeName job (int r))"
    and fresh: "\<And>r. r \<in> set rs \<Longrightarrow> files d (mergeName job (int r)) = None"
    and red: "\<And>r k. r \<in> set rs \<Longrightarrow> k \<in> set (keys_of (pairs r)) \<Longrightarrow> reduceF k (values_of (pairs r) k) = Inr (out k)"
    and pairs: "\<And>r. pairs r = concat (map (\<lambda>i. bin i r) [0..<length fs])"
  shows "\<exists>d'. reduce_tasks mr reduceF d (map int rs) = Inr d' \<and> inputs d' = inputs d \<and> writable d' = writable d \<and>
    (\<forall>r \<in> set rs. files d' (mergeName job (int r)) = Some (map Obj (map (\<lambda>k. \<lparr>Key = k, Value = out k\<rparr>) (keys_of (pairs r))))) \<and>
    (\<forall>f. f \<notin> (\<lambda>r. mergeName job (int r)) ` set rs \<longrightarrow> files d' f = files d f)"
  using assms(3-7)
proof (induction rs arbitrary: d)
  case (Cons r rs)
  have "files d (reduceName job (int i) (int r)) = Some [Arr (bin i r)]" if "i < length fs" for i using Cons.prems(2) that by simp
  moreover have "pairs r = concat (map (unmarshal_list \<circ> (\<lambda>i. [Arr (bin i r)])) [0..<length fs])" by (simp add: pairs comp_def)
  moreover have "reduceF k (values_of (pairs r) k) = Inr (out k)" if "k \<in> set (keys_of (pairs r))" for k using Cons.prems(5) that by simp
  ultimately obtain e where e: "doReduce d job (int r) (mergeName job (int r)) (int (length fs)) reduceF = Inr e"
    "inputs e = inputs d" "writable e = writable d"
    "files e = (files d)(mergeName job (int r) \<mapsto> mget [] (files d) (mergeName job (int r)) @ map (\<lambda>k. Obj \<lparr>Key = k, Value = out k\<rparr>) (keys_of (pairs r)))"
    by (rule doReduce_ok [OF _ Cons.prems(3)])
  have other: "files e f = files d f" if "f \<noteq> mergeName job (int r)" for f using that by (simp add: e(4))
  have "\<exists>d'. reduce_tasks mr reduceF e (map int rs) = Inr d' \<and> inputs d' = inputs e \<and> writable d' = writable e \<and>
    (\<forall>r \<in> set rs. files d' (mergeName job (int r)) = Some (map Obj (map (\<lambda>k. \<lparr>Key = k, Value = out k\<rparr>) (keys_of (pairs r))))) \<and>
    (\<forall>f. f \<notin> (\<lambda>r. mergeName job (int r)) ` set rs \<longrightarrow> files d' f = files e f)"
  proof (rule Cons.IH)
    show "files e (reduceName job (int i) (int q)) = Some [Arr (bin i q)]" if "i < length fs" "q \<in> set rs" for i q
      using other [OF reduceName_not_mergeName] Cons.prems(2) that by simp
    show "files e (mergeName job (int q)) = None" if "q \<in> set rs" for q
      using other [of "mergeName job (int q)"] Cons.prems(1,4) that by (auto simp: mergeName_inj)
  qed (use Cons.prems e(3) in auto)
  then obtain d' where d': "reduce_tasks mr reduceF e (map int rs) = Inr d'" "inputs d' = inputs e" "writable d' = writable e"
    "\<And>r. r \<in> set rs \<Longrightarrow> files d' (mergeName job (int r)) = Some (map Obj (map (\<lambda>k. \<lparr>Key = k, Value = out k\<rparr>) (keys_of (pairs r))))"
    "\<And>f. f \<notin> (\<lambda>r. mergeName job (int r)) ` set rs \<Longrightarrow> files d' f = files e f" by blast
  have "files d' (mergeName job (int r)) = files e (mergeName job (int r))"
    by (rule d'(5)) (use Cons.prems(1) in \<open>auto simp: mergeName_inj\<close>)
  also have "\<dots> = Some (map Obj (map (\<lambda>k. \<lparr>Key = k, Value = out k\<rparr>) (keys_of (pairs r))))"
    using Cons.prems(4) [of r] by (simp add: e(4) mget_def)
  finally have own: "files d' (mergeName job (int r)) = Some (map Obj (map (\<lambda>k. \<lparr>Key = k, Value = out k\<rparr>) (keys_of (pairs r))))" .
  have "reduce_tasks mr reduceF d (map int (r # rs)) = Inr d'" using e(1) d'(1) by (simp add: job)
  moreover have "\<forall>q \<in> set (r # rs). files d' (mergeName job (int q)) = Some (map Obj (map (\<lambda>k. \<lparr>Key = k, Value = out k\<rparr>) (keys_of (pairs q))))"
    using own d'(4) by simp
  moreover have "\<forall>f. f \<notin> (\<lambda>r. mergeName job (int r)) ` set (r # rs) \<longrightarrow> files d' f = files d f" using d'(5) other by simp
  ultimately show ?case using d'(2,3) e(2,3) by simp
qed simp

subsection \<open>The merge\<close>

definition outputs_of :: "(string \<Rightarrow> string) \<Rightarrow> (string \<times> string) list \<Rightarrow> bool" where
  "outputs_of out kvs \<longleftrightarrow> distinct (map fst kvs) \<and> (\<forall>(k, v) \<in> set kvs. v = out k)"

lemma add_objects_ok:
  "outputs_of out kvs \<Longrightarrow> outputs_of out (add_objects kvs (map (\<lambda>k. \<lparr>Key = k, Value = out k\<rparr>) ks)) \<and>
   fst ` set (add_objects kvs (map (\<lambda>k. \<lparr>Key = k, Value = out k\<rparr>) ks)) = fst ` set kvs \<union> set ks"
proof (induction ks arbitrary: kvs)
  case (Cons k ks)
  have "set (AList.update k (out k) kvs) \<subseteq> insert (k, out k) (set kvs)"
    by (induction kvs) (auto split: if_splits)
  then have "outputs_of out (AList.update k (out k) kvs)"
    using Cons.prems by (auto simp: outputs_of_def intro: AList.distinct_update)
  from Cons.IH [OF this] show ?case by (simp add: add_objects_def dom_update)
qed (simp add: add_objects_def)

lemma merge_loop_ok:
  assumes "outputs_of out kvs"
    and "\<And>r. r \<in> set rs \<Longrightarrow> files d (mergeName job (int r)) = Some (map Obj (map (\<lambda>k. \<lparr>Key = k, Value = out k\<rparr>) (ks r)))"
  shows "\<exists>kvs'. merge_loop d job kvs (map int rs) = Inr kvs' \<and> outputs_of out kvs' \<and> fst ` set kvs' = fst ` set kvs \<union> (\<Union>r \<in> set rs. set (ks r))"
  using assms
proof (induction rs arbitrary: kvs)
  case (Cons r rs)
  let ?kvs = "add_objects kvs (map (\<lambda>k. \<lparr>Key = k, Value = out k\<rparr>) (ks r))"
  have "outputs_of out ?kvs" "fst ` set ?kvs = fst ` set kvs \<union> set (ks r)" using add_objects_ok [OF Cons.prems(1)] by blast+
  moreover obtain kvs' where "merge_loop d job ?kvs (map int rs) = Inr kvs'" "outputs_of out kvs'"
    "fst ` set kvs' = fst ` set ?kvs \<union> (\<Union>r \<in> set rs. set (ks r))"
    using Cons.IH [OF calculation(1)] Cons.prems(2) by auto
  ultimately show ?case using Cons.prems(2) [of r] by (auto simp del: map_map)
qed simp

lemma print_loop_ok:
  "files d f \<noteq> None \<Longrightarrow> files (print_loop d f kvs keys) = (files d)(f \<mapsto> mget [] (files d) f @ map (\<lambda>k. Line (k @ '': '' @ mget [] kvs k @ [CHR 0x0A])) keys)"
  by (induction keys arbitrary: d) (auto simp: write_chunk_def mget_def fun_eq_iff split: option.splits)

definition merged_lines :: "(string \<Rightarrow> string) \<Rightarrow> string list \<Rightarrow> chunk list" where
  "merged_lines out keys = map (\<lambda>k. Line (k @ '': '' @ out k @ [CHR 0x0A])) keys"

lemma merge_ok:
  assumes job: "mr_jobName mr = job" "mr_nReduce mr = int n" and w: "writable d (''mrtmp.'' @ job)"
    and parts: "\<And>r. r < n \<Longrightarrow> files d (mergeName job (int r)) = Some (map Obj (map (\<lambda>k. \<lparr>Key = k, Value = out k\<rparr>) (ks r)))"
    and keys: "(\<Union>r \<in> {..<n}. set (ks r)) = Key ` set pairs"
  obtains d' where "merge mr d = Inr d'" "files d' = (files d)(''mrtmp.'' @ job \<mapsto> merged_lines out (keys_of pairs))"
proof -
  have "\<exists>kvs'. merge_loop d job [] (map int [0..<n]) = Inr kvs' \<and> outputs_of out kvs' \<and> fst ` set kvs' = fst ` set ([] :: (string \<times> string) list) \<union> (\<Union>r \<in> set [0..<n]. set (ks r))"
    by (rule merge_loop_ok) (use parts in \<open>auto simp: outputs_of_def\<close>)
  then obtain kvs where kvs: "merge_loop d job [] (map int [0..<n]) = Inr kvs" "outputs_of out kvs" "fst ` set kvs = Key ` set pairs"
    using keys by (auto simp: atLeast0LessThan)
  have sorted: "sort (map fst kvs) = keys_of pairs" by (rule sort_keys_of) (use kvs in \<open>auto simp: outputs_of_def\<close>)
  have val: "mget [] (map_of kvs) k = out k" if "k \<in> set (keys_of pairs)" for k
  proof -
    have "k \<in> fst ` set kvs" using that kvs(3) by (auto simp: keys_of_def)
    then obtain v where "map_of kvs k = Some v" by (metis map_of_eq_None_iff not_None_eq)
    moreover from this have "v = out k" using kvs(2) by (auto simp: outputs_of_def dest: map_of_SomeD)
    ultimately show ?thesis by (simp add: mget_def)
  qed
  let ?f = "''mrtmp.'' @ job" and ?e = "d\<lparr>files := (files d)(''mrtmp.'' @ job \<mapsto> [])\<rparr>"
  have "merge mr d = Inr (print_loop ?e ?f (map_of kvs) (keys_of pairs))"
    using kvs(1) w by (simp add: merge_def job sorted create_file_def Let_def)
  moreover have "files (print_loop ?e ?f (map_of kvs) (keys_of pairs)) = (files d)(?f \<mapsto> merged_lines out (keys_of pairs))"
    using val by (simp add: print_loop_ok merged_lines_def cong: map_cong)
  ultimately show thesis by (rule that)
qed

subsection \<open>A sequential job\<close>

lemma values_of_bin: "k \<in> Key ` set (bin_of n pairs r) \<Longrightarrow> values_of (bin_of n pairs r) k = values_of pairs k"
  by (auto simp: values_of_def bin_of_def intro!: arg_cong [where f = "map Value"] filter_cong)

lemma bins_cover: "0 < n \<Longrightarrow> (\<Union>r \<in> {..<n}. set (keys_of (bin_of n pairs r))) = Key ` set pairs"
  using ihash_bin [of n] by (fastforce simp: keys_of_def bin_of_def)

text \<open>The pairs that the map function yields for all input files, in their order.\<close>

definition job_pairs :: "disk \<Rightarrow> (string \<Rightarrow> string \<Rightarrow> KeyValue list) \<Rightarrow> string list \<Rightarrow> KeyValue list" where
  "job_pairs d mapF fs = concat (map (\<lambda>f. mapF f (mget [] (inputs d) f)) fs)"

text \<open>A disk on which the job can run: no file of an earlier run is left, and its files can be written.\<close>

definition ready_for :: "disk \<Rightarrow> string \<Rightarrow> nat \<Rightarrow> nat \<Rightarrow> bool" where
  "ready_for d job m n \<longleftrightarrow>
     (\<forall>i < m. \<forall>r < n. files d (reduceName job (int i) (int r)) = None) \<and> (\<forall>r < n. files d (mergeName job (int r)) = None) \<and>
     (\<forall>i r. writable d (reduceName job (int i) (int r))) \<and> (\<forall>r. writable d (mergeName job (int r))) \<and> writable d (''mrtmp.'' @ job)"

text \<open>The names of a job's files.\<close>

definition job_names :: "string \<Rightarrow> nat \<Rightarrow> nat \<Rightarrow> string set" where
  "job_names job m n = {reduceName job (int i) (int r) | i r. i < m \<and> r < n} \<union> {mergeName job (int r) | r. r < n} \<union> {''mrtmp.'' @ job}"

lemma Sequential_output:
  assumes ready: "ready_for d job (length fs) n" and n: "0 < n"
    and inputs: "\<And>f. f \<in> set fs \<Longrightarrow> inputs d f \<noteq> None"
    and red: "\<And>k. k \<in> set (keys_of (job_pairs d mapF fs)) \<Longrightarrow> reduceF k (values_of (job_pairs d mapF fs) k) = Inr (out k)"
  shows "\<exists>mr d'. Sequential d job fs (int n) mapF reduceF = Inr (mr, d') \<and> Wait mr \<and>
    mr_jobName mr = job \<and> mr_files mr = fs \<and> mr_nReduce mr = int n \<and> mr_stats mr = [int (length fs + n)] \<and>
    files d' (''mrtmp.'' @ job) = Some (merged_lines out (keys_of (job_pairs d mapF fs))) \<and>
    (\<forall>f \<in> job_names job (length fs) n. files d' f \<noteq> None) \<and> (\<forall>f. f \<notin> job_names job (length fs) n \<longrightarrow> files d' f = files d f)"
proof -
  let ?pairs = "job_pairs d mapF fs" and ?content = "mget [] (inputs d)"
  let ?mr = "(newMaster ''master'')\<lparr>mr_jobName := job, mr_files := fs, mr_nReduce := int n\<rparr>"
  define bin where "bin i r = bin_of n (mapF (fs ! i) (?content (fs ! i))) r" for i r
  have known: "inputs d f = Some (?content f)" if "f \<in> set fs" for f using inputs [OF that] by (auto simp: mget_def)
  have "\<exists>e. map_tasks ?mr mapF d 0 fs = Inr e \<and> inputs e = inputs d \<and> writable e = writable d \<and>
    (\<forall>j < length fs. \<forall>r < n. files e (reduceName job (int (0 + j)) (int r)) = Some [Arr (bin_of n (mapF (fs ! j) (?content (fs ! j))) r)]) \<and>
    (\<forall>f. (\<forall>j < length fs. \<forall>r < n. f \<noteq> reduceName job (int (0 + j)) (int r)) \<longrightarrow> files e f = files d f)"
    by (rule map_tasks_ok) (use n known ready in \<open>simp_all add: ready_for_def\<close>)
  then obtain e where e: "map_tasks ?mr mapF d 0 fs = Inr e" "inputs e = inputs d" "writable e = writable d"
    "\<And>j r. j < length fs \<Longrightarrow> r < n \<Longrightarrow> files e (reduceName job (int j) (int r)) = Some [Arr (bin j r)]"
    "\<And>f. (\<And>j r. j < length fs \<Longrightarrow> r < n \<Longrightarrow> f \<noteq> reduceName job (int j) (int r)) \<Longrightarrow> files e f = files d f"
    unfolding bin_def add_0 by blast
  have bins: "concat (map (\<lambda>i. bin i r) [0..<length fs]) = bin_of n ?pairs r" for r
  proof -
    have "map (\<lambda>i. bin i r) [0..<length fs] = map (\<lambda>f. bin_of n (mapF f (?content f)) r) (map ((!) fs) [0..<length fs])"
      by (simp add: bin_def)
    then show ?thesis unfolding map_nth by (simp add: job_pairs_def bin_of_concat comp_def)
  qed
  have merged: "files e (mergeName job (int r)) = files d (mergeName job (int r))" for r
    by (rule e(5)) (metis reduceName_not_mergeName)
  have "\<exists>d'. reduce_tasks ?mr reduceF e (map int [0..<n]) = Inr d' \<and> inputs d' = inputs e \<and> writable d' = writable e \<and>
    (\<forall>r \<in> set [0..<n]. files d' (mergeName job (int r)) = Some (map Obj (map (\<lambda>k. \<lparr>Key = k, Value = out k\<rparr>) (keys_of (bin_of n ?pairs r))))) \<and>
    (\<forall>f. f \<notin> (\<lambda>r. mergeName job (int r)) ` set [0..<n] \<longrightarrow> files d' f = files e f)"
  proof (rule reduce_tasks_ok [where bin = bin and fs = fs])
    show "reduceF k (values_of (bin_of n ?pairs r) k) = Inr (out k)" if k: "k \<in> set (keys_of (bin_of n ?pairs r))" for r k
    proof -
      have "k \<in> set (keys_of ?pairs)" "k \<in> Key ` set (bin_of n ?pairs r)" using k by (auto simp: keys_of_def bin_of_def)
      then show ?thesis using red [of k] values_of_bin [of k n ?pairs r] by simp
    qed
  qed (use e(3,4) ready bins merged in \<open>auto simp: ready_for_def\<close>)
  then obtain g where g: "reduce_tasks ?mr reduceF e (map int [0..<n]) = Inr g" "writable g = writable e"
    "\<And>r. r < n \<Longrightarrow> files g (mergeName job (int r)) = Some (map Obj (map (\<lambda>k. \<lparr>Key = k, Value = out k\<rparr>) (keys_of (bin_of n ?pairs r))))"
    "\<And>f. f \<notin> (\<lambda>r. mergeName job (int r)) ` {..<n} \<Longrightarrow> files g f = files e f"
    by (auto simp: atLeast0LessThan)
  let ?mr' = "?mr\<lparr>mr_stats := [int (length fs) + int n]\<rparr>"
  obtain d' where d': "merge ?mr' g = Inr d'" "files d' = (files g)(''mrtmp.'' @ job \<mapsto> merged_lines out (keys_of ?pairs))"
    by (rule merge_ok [of ?mr' job n g out "\<lambda>r. keys_of (bin_of n ?pairs r)" ?pairs])
      (use g ready e(3) bins_cover [OF n] in \<open>auto simp: ready_for_def\<close>)
  have inter: "files g (reduceName job (int j) (int r)) = files e (reduceName job (int j) (int r))" for j r
    by (rule g(4)) (use reduceName_not_mergeName in blast)
  have "files d' f \<noteq> None" if "f \<in> job_names job (length fs) n" for f
    using that g(3) e(4) inter unfolding job_names_def by (auto simp: d'(2))
  moreover have "files d' f = files d f" if "f \<notin> job_names job (length fs) n" for f
  proof -
    have "files d' f = files g f" using that by (auto simp: d'(2) job_names_def)
    also have "\<dots> = files e f" by (rule g(4)) (use that in \<open>auto simp: job_names_def\<close>)
    also have "\<dots> = files d f" by (rule e(5)) (use that in \<open>auto simp: job_names_def\<close>)
    finally show ?thesis .
  qed
  ultimately show ?thesis
    using e(1) g(1) d' by (simp add: Sequential_def run_def sequential_phase_def Let_def Wait_def newMaster_def)
qed

subsection \<open>Cleaning up\<close>

lemma remove_all_ok:
  "distinct ns \<Longrightarrow> (\<And>f. f \<in> set ns \<Longrightarrow> files d f \<noteq> None) \<Longrightarrow>
   \<exists>d'. remove_all d ns = Inr d' \<and> files d' = (\<lambda>f. if f \<in> set ns then None else files d f)"
proof (induction ns arbitrary: d)
  case (Cons x ns)
  let ?e = "d\<lparr>files := (files d)(x := None)\<rparr>"
  have "\<exists>d'. remove_all ?e ns = Inr d' \<and> files d' = (\<lambda>f. if f \<in> set ns then None else files ?e f)"
    by (rule Cons.IH) (use Cons.prems in auto)
  moreover have "removeFile d x = Inr ?e" using Cons.prems(2) [of x] by (simp add: removeFile_def)
  ultimately show ?case by (auto simp: fun_eq_iff)
qed simp

lemma distinct_product_names:
  "distinct [reduceName job (int i) (int j). i \<leftarrow> [0..<m], j \<leftarrow> [0..<n]]"
proof -
  have "[reduceName job (int i) (int j). i \<leftarrow> [0..<m], j \<leftarrow> [0..<n]] =
      map (\<lambda>(i, j). reduceName job (int i) (int j)) (List.product [0..<m] [0..<n])"
    by (simp add: List.product_concat_map map_concat comp_def)
  moreover have "inj_on (\<lambda>(i, j). reduceName job (int i) (int j)) A" for A by (auto simp: inj_on_def reduceName_inj)
  ultimately show ?thesis by (simp add: distinct_map distinct_product)
qed

lemma CleanupFiles_ok:
  assumes job: "mr_jobName mr = job" "mr_files mr = fs" "mr_nReduce mr = int n"
    and all: "\<And>f. f \<in> job_names job (length fs) n \<Longrightarrow> files d f \<noteq> None"
  shows "\<exists>d'. CleanupFiles mr d = Inr d' \<and> files d' = (\<lambda>f. if f \<in> job_names job (length fs) n then None else files d f)"
proof -
  define R where "R = [reduceName job (int i) (int j). i \<leftarrow> [0..<length fs], j \<leftarrow> [0..<n]]"
  define M where "M = map (\<lambda>i. mergeName job (int i)) [0..<n]"
  define F where "F = ''mrtmp.'' @ job"
  have sets: "job_names job (length fs) n = set R \<union> set M \<union> {F}" by (auto simp: job_names_def R_def M_def F_def)
  have dist: "distinct R" "distinct M"
    unfolding R_def M_def by (rule distinct_product_names) (simp add: distinct_map inj_on_def mergeName_inj)
  have apart: "f \<notin> set R" if "f \<in> set M" for f
    using that reduceName_not_mergeName [symmetric] unfolding R_def M_def by auto
  have final: "F \<notin> set R" "F \<notin> set M"
    unfolding F_def R_def M_def using final_name [of job] by auto
  have "files d f \<noteq> None" if "f \<in> set R" for f by (rule all) (simp add: sets that)
  from remove_all_ok [OF dist(1) this]
  obtain e where e: "remove_all d R = Inr e" "files e = (\<lambda>f. if f \<in> set R then None else files d f)" by blast
  have "files e f \<noteq> None" if f: "f \<in> set M" for f
  proof -
    have "files d f \<noteq> None" by (rule all) (simp add: sets f)
    then show ?thesis using apart [OF f] by (simp add: e(2))
  qed
  from remove_all_ok [OF dist(2) this]
  obtain g where g: "remove_all e M = Inr g" "files g = (\<lambda>f. if f \<in> set M then None else files e f)" by blast
  have "files d F \<noteq> None" by (rule all) (simp add: sets)
  then have "files g F \<noteq> None" using final by (simp add: g(2) e(2))
  then have "removeFile g F = Inr (g\<lparr>files := (files g)(F := None)\<rparr>)" by (simp add: removeFile_def)
  then have "CleanupFiles mr d = Inr (g\<lparr>files := (files g)(F := None)\<rparr>)"
    using e(1) g(1) unfolding CleanupFiles_def R_def M_def F_def by (simp add: job)
  then show ?thesis unfolding sets by (auto simp: g(2) e(2) fun_eq_iff)
qed

subsection \<open>Properties of jobs\<close>

text \<open>C31: a sequential job with at least one reduce task, started on a disk without files of an earlier run, ends,
  and its output has one line for every key that the map function yields for some input, in the order of the
  keys: the key and the value that the reduce function gives for all values of the key, in the order in which
  the files and the map function yield them.\<close>

theorem Sequential_correct:
  assumes "ready_for d job (length fs) n" "0 < n" "\<And>f. f \<in> set fs \<Longrightarrow> inputs d f \<noteq> None"
    and "\<And>k. k \<in> set (keys_of (job_pairs d mapF fs)) \<Longrightarrow> reduceF k (values_of (job_pairs d mapF fs) k) = Inr (out k)"
  shows "\<exists>mr d'. Sequential d job fs (int n) mapF reduceF = Inr (mr, d') \<and> Wait mr \<and>
    files d' (''mrtmp.'' @ job) = Some (merged_lines out (keys_of (job_pairs d mapF fs)))"
proof -
  have "\<exists>mr d'. Sequential d job fs (int n) mapF reduceF = Inr (mr, d') \<and> Wait mr \<and>
    mr_jobName mr = job \<and> mr_files mr = fs \<and> mr_nReduce mr = int n \<and> mr_stats mr = [int (length fs + n)] \<and>
    files d' (''mrtmp.'' @ job) = Some (merged_lines out (keys_of (job_pairs d mapF fs))) \<and>
    (\<forall>f \<in> job_names job (length fs) n. files d' f \<noteq> None) \<and> (\<forall>f. f \<notin> job_names job (length fs) n \<longrightarrow> files d' f = files d f)"
    using assms by (rule Sequential_output)
  then show ?thesis by blast
qed

text \<open>Two input files and one reduce function that joins the values.\<close>

definition sample_disk :: disk where
  "sample_disk = \<lparr>inputs = [''f'' \<mapsto> ''b'', ''g'' \<mapsto> ''a''], files = Map.empty, writable = (\<lambda>_. True)\<rparr>"

definition sample_mapF :: "string \<Rightarrow> string \<Rightarrow> KeyValue list" where
  "sample_mapF f s = [\<lparr>Key = s, Value = f\<rparr>, \<lparr>Key = ''c'', Value = f\<rparr>]"

definition sample_reduceF :: "string \<Rightarrow> string list \<Rightarrow> string result" where
  "sample_reduceF k vs = Inr (concat vs)"

lemma sample_disk_ready: "ready_for sample_disk job m n" "f \<in> set [''f'', ''g''] \<Longrightarrow> inputs sample_disk f \<noteq> None"
  by (auto simp: ready_for_def sample_disk_def)

lemma sample_pairs:
  "job_pairs sample_disk sample_mapF [''f'', ''g''] =
    [\<lparr>Key = ''b'', Value = ''f''\<rparr>, \<lparr>Key = ''c'', Value = ''f''\<rparr>, \<lparr>Key = ''a'', Value = ''g''\<rparr>, \<lparr>Key = ''c'', Value = ''g''\<rparr>]"
  by (simp add: job_pairs_def sample_disk_def sample_mapF_def mget_def)

theorem Sequential_correct_witness:
  "\<exists>mr d'. Sequential sample_disk ''j'' [''f'', ''g''] (int 3) sample_mapF sample_reduceF = Inr (mr, d') \<and> Wait mr \<and>
    files d' (''mrtmp.'' @ ''j'') =
      Some [Line (''a'' @ '': '' @ ''g'' @ [CHR 0x0A]), Line (''b'' @ '': '' @ ''f'' @ [CHR 0x0A]), Line (''c'' @ '': '' @ ''fg'' @ [CHR 0x0A])]"
proof -
  let ?pairs = "job_pairs sample_disk sample_mapF [''f'', ''g'']"
  have "\<exists>mr d'. Sequential sample_disk ''j'' [''f'', ''g''] (int 3) sample_mapF sample_reduceF = Inr (mr, d') \<and> Wait mr \<and>
      files d' (''mrtmp.'' @ ''j'') = Some (merged_lines (\<lambda>k. concat (values_of ?pairs k)) (keys_of ?pairs))"
    by (rule Sequential_correct) (use sample_disk_ready in \<open>simp_all add: sample_reduceF_def\<close>)
  moreover have "keys_of ?pairs = [''a'', ''b'', ''c'']"
    unfolding sample_pairs keys_of_def by code_simp
  ultimately show ?thesis by (simp add: merged_lines_def values_of_def sample_pairs)
qed

text \<open>C34: \<open>CleanupFiles\<close> after such a job removes every file that the job made and leaves the other files as
  they were.\<close>

theorem Sequential_then_CleanupFiles:
  assumes "ready_for d job (length fs) n" "0 < n" "\<And>f. f \<in> set fs \<Longrightarrow> inputs d f \<noteq> None" "files d (''mrtmp.'' @ job) = None"
    and "\<And>k. k \<in> set (keys_of (job_pairs d mapF fs)) \<Longrightarrow> reduceF k (values_of (job_pairs d mapF fs) k) = Inr (out k)"
  shows "\<exists>d'. rbind (Sequential d job fs (int n) mapF reduceF) (\<lambda>(mr, d). CleanupFiles mr d) = Inr d' \<and> files d' = files d"
proof -
  have "\<exists>mr d'. Sequential d job fs (int n) mapF reduceF = Inr (mr, d') \<and> Wait mr \<and>
    mr_jobName mr = job \<and> mr_files mr = fs \<and> mr_nReduce mr = int n \<and> mr_stats mr = [int (length fs + n)] \<and>
    files d' (''mrtmp.'' @ job) = Some (merged_lines out (keys_of (job_pairs d mapF fs))) \<and>
    (\<forall>f \<in> job_names job (length fs) n. files d' f \<noteq> None) \<and> (\<forall>f. f \<notin> job_names job (length fs) n \<longrightarrow> files d' f = files d f)"
    using assms(1-3,5) by (rule Sequential_output)
  then obtain mr e where e: "Sequential d job fs (int n) mapF reduceF = Inr (mr, e)" "mr_jobName mr = job" "mr_files mr = fs"
    "mr_nReduce mr = int n" "\<And>f. f \<in> job_names job (length fs) n \<Longrightarrow> files e f \<noteq> None"
    "\<And>f. f \<notin> job_names job (length fs) n \<Longrightarrow> files e f = files d f" by blast
  obtain d' where d': "CleanupFiles mr e = Inr d'" "files d' = (\<lambda>f. if f \<in> job_names job (length fs) n then None else files e f)"
    using CleanupFiles_ok [OF e(2-5)] by blast
  have "files d f = None" if "f \<in> job_names job (length fs) n" for f
    using that assms(1,4) by (auto simp: job_names_def ready_for_def)
  then have "files d' = files d" using e(6) by (auto simp: d'(2))
  then show ?thesis using e(1) d'(1) by simp
qed

theorem Sequential_then_CleanupFiles_witness:
  "\<exists>d'. rbind (Sequential sample_disk ''j'' [''f'', ''g''] (int 3) sample_mapF sample_reduceF) (\<lambda>(mr, d). CleanupFiles mr d) = Inr d' \<and>
    files d' = files sample_disk"
proof (rule Sequential_then_CleanupFiles [where out = "\<lambda>k. concat (values_of (job_pairs sample_disk sample_mapF [''f'', ''g'']) k)"])
  show "files sample_disk (''mrtmp.'' @ ''j'') = None" by (simp add: sample_disk_def)
qed (use sample_disk_ready in \<open>simp_all add: sample_reduceF_def\<close>)

text \<open>A map task that runs twice, as it does when its first run ended but the call that started it failed,
  appends a second JSON array to every intermediate file, and the reduce tasks then read no pair of it.\<close>

theorem repeated_map_task_is_lost:
  assumes "inputs d f = Some content" "0 < n" "\<And>r. r < n \<Longrightarrow> writable d (reduceName job (int m) (int r))"
    and "\<And>r. r < n \<Longrightarrow> files d (reduceName job (int m) (int r)) = None" "q < n"
  shows "\<exists>d1 d2 c. doMap d job (int m) f (int n) mapF = Inr d1 \<and> doMap d1 job (int m) f (int n) mapF = Inr d2 \<and>
    files d2 (reduceName job (int m) (int q)) = Some c \<and> unmarshal_list c = []"
proof -
  obtain d1 where d1: "doMap d job (int m) f (int n) mapF = Inr d1" "inputs d1 = inputs d" "writable d1 = writable d"
    "\<And>r. r < n \<Longrightarrow> files d1 (reduceName job (int m) (int r)) = Some (mget [] (files d) (reduceName job (int m) (int r)) @ [Arr (bin_of n (mapF f content) r)])"
    using assms(1-3) by (rule doMap_ok [where mapF = mapF]) (assumption | rule that)+
  have "inputs d1 f = Some content" using assms(1) d1(2) by simp
  moreover have "writable d1 (reduceName job (int m) (int r))" if "r < n" for r using assms(3) [OF that] d1(3) by simp
  ultimately obtain d2 where d2: "doMap d1 job (int m) f (int n) mapF = Inr d2"
    "\<And>r. r < n \<Longrightarrow> files d2 (reduceName job (int m) (int r)) = Some (mget [] (files d1) (reduceName job (int m) (int r)) @ [Arr (bin_of n (mapF f content) r)])"
    by (rule doMap_ok [where mapF = mapF, OF _ assms(2)]) (assumption | rule that)+
  show ?thesis using d1(1) d2(1) d2(2) [OF assms(5)] d1(4) [OF assms(5)] assms(4) [OF assms(5)] by (simp add: mget_def)
qed

theorem repeated_map_task_is_lost_witness:
  "\<exists>d1 d2 c. doMap sample_disk ''j'' (int 0) ''f'' (int 1) sample_mapF = Inr d1 \<and> doMap d1 ''j'' (int 0) ''f'' (int 1) sample_mapF = Inr d2 \<and>
    files d2 (reduceName ''j'' (int 0) (int 0)) = Some c \<and> unmarshal_list c = []"
  by (rule repeated_map_task_is_lost [where content = "''b''"]) (simp_all add: sample_disk_def)

text \<open>C35: the hash of a key is a 31-bit number, and its remainder names one of the reduce tasks, so that the
  distribution of the pairs over the bins never leaves their range and loses no pair.\<close>

theorem ihash_in_range:
  "0 \<le> ihash s \<and> ihash s < 2 ^ 31 \<and> (\<exists>bins. bin_loop (int (Suc n)) (replicate (Suc n) []) kvs = Inr bins \<and>
     length bins = Suc n \<and> mset (concat bins) = mset kvs)"
proof -
  let ?bins = "map (\<lambda>r. replicate (Suc n) [] ! r @ bin_of (Suc n) kvs r) [0..<Suc n]"
  have "bin_loop (int (Suc n)) (replicate (Suc n) []) kvs = Inr ?bins" by (rule bin_loop_eq) simp_all
  moreover have "mset (concat (map (\<lambda>r. bin_of (Suc n) kvs r) [0..<Suc n])) = mset kvs"
  proof (induction kvs)
    case (Cons kv kvs)
    obtain r where r: "r < Suc n" "ihash (Key kv) mod int (Suc n) = int r" using ihash_bin [of "Suc n"] by blast
    have "bin_of (Suc n) (kv # kvs) i = (if i = r then [kv] else []) @ bin_of (Suc n) kvs i" for i using r(2) by (auto simp: bin_of_def)
    moreover have "mset (concat (map (\<lambda>i. (if i = r then [kv] else []) @ g i) xs)) =
        replicate_mset (count_list xs r) kv + mset (concat (map g xs))" for g xs
      by (induction xs) auto
    moreover have "count_list [0..<Suc n] r = 1" using r(1) by (simp add: count_list_eq_length_filter distinct_length_filter del: upt_Suc)
    ultimately show ?case using Cons.IH by (simp del: upt_Suc)
  qed (simp add: bin_of_def)
  moreover have "map (\<lambda>r. bin_of (Suc n) kvs r) [0..<Suc n] = ?bins" by (simp del: upt_Suc replicate_Suc)
  ultimately show ?thesis using ihash_bounds by (metis length_map length_upt diff_zero)
qed

end
