(* ===== verification/MR_Programs.thy ===== *)
theory MR_Programs
  imports MR_Master
begin

section \<open>MapReduce: word count and inverted index\<close>

text \<open>
  The programs \<^verbatim>\<open>src/main/wc.go\<close> and \<^verbatim>\<open>src/main/ii.go\<close>: their map and reduce functions and the choice that
  \<open>main\<close> makes from the command line. Texts are ASCII, so that a byte is a rune and \<open>unicode.IsLetter\<close> holds of
  the 52 letters.
\<close>

subsection \<open>Splitting a text into words\<close>

definition isLetter :: "char \<Rightarrow> bool" where
  "isLetter c \<longleftrightarrow> (let n = of_char c :: nat in 65 \<le> n \<and> n \<le> 90 \<or> 97 \<le> n \<and> n \<le> 122)"

text \<open>\<open>strings.FieldsFunc\<close>: the maximal runs of characters that are no separators.\<close>

fun fields_loop :: "(char \<Rightarrow> bool) \<Rightarrow> string \<Rightarrow> string \<Rightarrow> string list" where
  "fields_loop f cur [] = (if cur = [] then [] else [cur])"
| "fields_loop f cur (c # cs) =
     (if f c then (if cur = [] then fields_loop f [] cs else cur # fields_loop f [] cs) else fields_loop f (cur @ [c]) cs)"

definition FieldsFunc :: "string \<Rightarrow> (char \<Rightarrow> bool) \<Rightarrow> string list" where
  "FieldsFunc s f = fields_loop f [] s"

definition words_of :: "string \<Rightarrow> string list" where
  "words_of s = FieldsFunc s (\<lambda>r. \<not> isLetter r)"

subsection \<open>wc.go\<close>

definition wc_mapF :: "string \<Rightarrow> string \<Rightarrow> KeyValue list" where
  "wc_mapF filename contents = map (\<lambda>one. \<lparr>Key = one, Value = ''1''\<rparr>) (words_of contents)"

fun wc_loop :: "int \<Rightarrow> string list \<Rightarrow> int result" where
  "wc_loop wc [] = Inr wc"
| "wc_loop wc (val # values) =
     (case atoi val of
        None \<Rightarrow> Inl (Panicked ''strconv.Atoi'')
      | Some num \<Rightarrow> wc_loop (wc + num) values)"

definition wc_reduceF :: "string \<Rightarrow> string list \<Rightarrow> string result" where
  "wc_reduceF key values = rbind (wc_loop 0 values) (\<lambda>wc. Inr (itoa wc))"

subsection \<open>ii.go\<close>

definition ii_mapF :: "string \<Rightarrow> string \<Rightarrow> KeyValue list" where
  "ii_mapF document value = map (\<lambda>one. \<lparr>Key = one, Value = document\<rparr>) (words_of value)"

fun ii_distinct :: "(string \<rightharpoonup> bool) \<Rightarrow> string list \<Rightarrow> string list \<Rightarrow> string list" where
  "ii_distinct documentNameMap keys [] = keys"
| "ii_distinct documentNameMap keys (val # values) =
     (if documentNameMap val = None then ii_distinct (documentNameMap(val \<mapsto> True)) (keys @ [val]) values
      else ii_distinct documentNameMap keys values)"

fun ii_join :: "string \<Rightarrow> int \<Rightarrow> string list \<Rightarrow> string \<times> int" where
  "ii_join retStr sm [] = (retStr, sm)"
| "ii_join retStr sm (val # keys) = ii_join (retStr @ val @ '','') (sm + 1) keys"

definition ii_reduceF :: "string \<Rightarrow> string list \<Rightarrow> string result" where
  "ii_reduceF key values =
     (let keys = sort (ii_distinct Map.empty [] values) in
      case ii_join [] 0 keys of (retStr, sm) \<Rightarrow>
        rbind (slice_of retStr 0 (int (length retStr) - 1)) (\<lambda>s. Inr (itoa sm @ '' '' @ s)))"

subsection \<open>The command line\<close>

datatype invocation =
    Usage
  | InvokeSequential string "string list" int
  | InvokeDistributed string "string list" int string
  | InvokeWorker string string int

definition program_main :: "string \<Rightarrow> string list \<Rightarrow> invocation" where
  "program_main jobName args =
     (if length args < 4 then Usage
      else if args ! 1 = ''master'' then
        if args ! 2 = ''sequential'' then InvokeSequential jobName (drop 3 args) 3
        else InvokeDistributed jobName (drop 3 args) 3 (args ! 2)
      else InvokeWorker (args ! 2) (args ! 3) 100)"

definition wc_main :: "string list \<Rightarrow> invocation" where
  "wc_main args = program_main ''wcseq'' args"

definition ii_main :: "string list \<Rightarrow> invocation" where
  "ii_main args = program_main ''iiseq'' args"

subsection \<open>Words\<close>

text \<open>The words are non-empty, consist of letters, and together are the letters of the text.\<close>

lemma fields_loop_chars: "concat (fields_loop f cur s) = cur @ filter (\<lambda>c. \<not> f c) s"
  by (induction f cur s rule: fields_loop.induct) auto

definition is_word :: "(char \<Rightarrow> bool) \<Rightarrow> string \<Rightarrow> bool" where
  "is_word f w \<longleftrightarrow> w \<noteq> [] \<and> list_all (\<lambda>c. \<not> f c) w"

lemma fields_loop_words: "list_all (\<lambda>c. \<not> f c) cur \<Longrightarrow> list_all (is_word f) (fields_loop f cur s)"
  by (induction f cur s rule: fields_loop.induct) (simp_all add: is_word_def)

lemma fields_loop_cur: "list_all (\<lambda>c. \<not> f c) xs \<Longrightarrow> fields_loop f cur (xs @ ys) = fields_loop f (cur @ xs) ys"
  by (induction xs arbitrary: cur) simp_all

text \<open>Splitting undoes joining by a separator.\<close>

lemma FieldsFunc_join:
  "f sep \<Longrightarrow> list_all (is_word f) ws \<Longrightarrow> FieldsFunc (concat (map (\<lambda>w. w @ [sep]) ws)) f = ws"
proof (induction ws)
  case (Cons w ws)
  let ?rest = "concat (map (\<lambda>w. w @ [sep]) ws)"
  have w: "w \<noteq> []" "list_all (\<lambda>c. \<not> f c) w" using Cons.prems(2) by (simp_all add: is_word_def)
  have "FieldsFunc (concat (map (\<lambda>w. w @ [sep]) (w # ws))) f = fields_loop f w (sep # ?rest)"
    using fields_loop_cur [OF w(2), of "[]" "sep # ?rest"] by (simp add: FieldsFunc_def)
  also have "\<dots> = w # FieldsFunc ?rest f" using Cons.prems(1) w(1) by (simp add: FieldsFunc_def)
  also have "FieldsFunc ?rest f = ws" using Cons.prems by (intro Cons.IH) simp_all
  finally show ?case .
qed (simp add: FieldsFunc_def)

subsection \<open>Word count\<close>

lemma atoi_one: "atoi ''1'' = Some 1"
  by (simp add: atoi_def)

lemma wc_loop_ones: "wc_loop wc (replicate n ''1'') = Inr (wc + int n)"
  by (induction n arbitrary: wc) (simp_all add: atoi_one)

definition all_words :: "disk \<Rightarrow> string list \<Rightarrow> string list" where
  "all_words d fs = concat (map (\<lambda>f. words_of (mget [] (inputs d) f)) fs)"

lemma wc_pairs: "job_pairs d wc_mapF fs = map (\<lambda>w. \<lparr>Key = w, Value = ''1''\<rparr>) (all_words d fs)"
  by (simp add: job_pairs_def wc_mapF_def all_words_def map_concat comp_def)

lemma wc_values: "values_of (map (\<lambda>w. \<lparr>Key = w, Value = v\<rparr>) ws) k = replicate (count_list ws k) v"
  by (induction ws) (auto simp: values_of_def)

lemma keys_of_words: "keys_of (map (\<lambda>w. \<lparr>Key = w, Value = v w\<rparr>) ws) = sort (remdups ws)"
  by (simp add: keys_of_def comp_def)

text \<open>C30: the word count, run sequentially, writes one line for every word that occurs in the input files, in
  the order of the words, with the number of its occurrences in all files.\<close>

theorem wc_counts_words:
  assumes "ready_for d job (length fs) n" "0 < n" "\<And>f. f \<in> set fs \<Longrightarrow> inputs d f \<noteq> None"
  shows "\<exists>mr d'. Sequential d job fs (int n) wc_mapF wc_reduceF = Inr (mr, d') \<and> Wait mr \<and>
    files d' (''mrtmp.'' @ job) =
      Some (map (\<lambda>w. Line (w @ '': '' @ itoa (int (count_list (all_words d fs) w)) @ [CHR 0x0A])) (sort (remdups (all_words d fs))))"
proof -
  have "\<exists>mr d'. Sequential d job fs (int n) wc_mapF wc_reduceF = Inr (mr, d') \<and> Wait mr \<and>
    mr_jobName mr = job \<and> mr_files mr = fs \<and> mr_nReduce mr = int n \<and> mr_stats mr = [int (length fs + n)] \<and>
    files d' (''mrtmp.'' @ job) = Some (merged_lines (\<lambda>w. itoa (int (count_list (all_words d fs) w))) (keys_of (job_pairs d wc_mapF fs))) \<and>
    (\<forall>f \<in> job_names job (length fs) n. files d' f \<noteq> None) \<and> (\<forall>f. f \<notin> job_names job (length fs) n \<longrightarrow> files d' f = files d f)"
    using assms by (rule Sequential_output) (assumption | simp add: wc_pairs wc_values wc_reduceF_def wc_loop_ones)+
  then show ?thesis unfolding wc_pairs keys_of_words merged_lines_def by blast
qed

lemma itoa_small: "itoa 2 = ''2''" "itoa 1 = ''1''"
  by code_simp+

definition sample_texts :: disk where
  "sample_texts = \<lparr>inputs = [''f'' \<mapsto> ''to be, or'', ''g'' \<mapsto> ''not to be''], files = Map.empty, writable = (\<lambda>_. True)\<rparr>"

lemma sample_texts_ready: "ready_for sample_texts job m n" "f \<in> set [''f'', ''g''] \<Longrightarrow> inputs sample_texts f \<noteq> None"
  by (auto simp: ready_for_def sample_texts_def)

lemma sample_words: "all_words sample_texts [''f'', ''g''] = [''to'', ''be'', ''or'', ''not'', ''to'', ''be'']"
  by (simp add: all_words_def sample_texts_def mget_def words_of_def FieldsFunc_def isLetter_def)

theorem wc_counts_words_witness:
  "\<exists>mr d'. Sequential sample_texts ''j'' [''f'', ''g''] (int 3) wc_mapF wc_reduceF = Inr (mr, d') \<and> Wait mr \<and>
    files d' (''mrtmp.'' @ ''j'') = Some (map (\<lambda>(w, n). Line (w @ '': '' @ n @ [CHR 0x0A]))
      [(''be'', ''2''), (''not'', ''1''), (''or'', ''1''), (''to'', ''2'')])"
proof -
  let ?ws = "all_words sample_texts [''f'', ''g'']"
  have "\<exists>mr d'. Sequential sample_texts ''j'' [''f'', ''g''] (int 3) wc_mapF wc_reduceF = Inr (mr, d') \<and> Wait mr \<and>
      files d' (''mrtmp.'' @ ''j'') = Some (map (\<lambda>w. Line (w @ '': '' @ itoa (int (count_list ?ws w)) @ [CHR 0x0A])) (sort (remdups ?ws)))"
    by (rule wc_counts_words) (use sample_texts_ready in simp_all)
  moreover have "sort (remdups ?ws) = [''be'', ''not'', ''or'', ''to'']" unfolding sample_words by code_simp
  moreover note itoa_small
  ultimately show ?thesis by (simp add: sample_words)
qed

subsection \<open>Inverted index\<close>

fun comma_join :: "string list \<Rightarrow> string" where
  "comma_join [] = []"
| "comma_join [x] = x"
| "comma_join (x # xs) = x @ '','' @ comma_join xs"

lemma ii_distinct_set:
  "dom m = set keys \<Longrightarrow> distinct keys \<Longrightarrow> distinct (ii_distinct m keys vs) \<and> set (ii_distinct m keys vs) = set keys \<union> set vs"
proof (induction vs arbitrary: m keys)
  case (Cons v vs)
  have known: "m v = None \<longleftrightarrow> v \<notin> set keys" using Cons.prems(1) by (metis domIff)
  show ?case
  proof (cases "v \<in> set keys")
    case False
    have "dom (m(v \<mapsto> True)) = set (keys @ [v])" by (simp add: Cons.prems(1))
    moreover have "distinct (keys @ [v])" using Cons.prems(2) False by simp
    ultimately have "distinct (ii_distinct (m(v \<mapsto> True)) (keys @ [v]) vs) \<and> set (ii_distinct (m(v \<mapsto> True)) (keys @ [v]) vs) = set (keys @ [v]) \<union> set vs"
      by (rule Cons.IH)
    moreover have "ii_distinct m keys (v # vs) = ii_distinct (m(v \<mapsto> True)) (keys @ [v]) vs"
      using known False by (simp only: ii_distinct.simps if_True simp_thms)
    ultimately show ?thesis by (simp only: set_append list.set Un_insert_right Un_insert_left Un_empty_right simp_thms)
  next
    case True
    then have "ii_distinct m keys (v # vs) = ii_distinct m keys vs" using known by (simp only: ii_distinct.simps if_False simp_thms)
    moreover have "insert v (set keys) = set keys" using True by (rule insert_absorb)
    ultimately show ?thesis using Cons.IH [OF Cons.prems] by (simp only: list.set Un_insert_right simp_thms Un_insert_left [symmetric])
  qed
qed (simp only: ii_distinct.simps list.set Un_empty_right simp_thms)

lemma ii_join_eq: "ii_join s n ks = (s @ concat (map (\<lambda>k. k @ '','') ks), n + int (length ks))"
  by (induction s n ks rule: ii_join.induct) auto

lemma butlast_commas: "ks \<noteq> [] \<Longrightarrow> butlast (concat (map (\<lambda>k. k @ '','') ks)) = comma_join ks"
  by (induction ks rule: comma_join.induct) (simp_all add: butlast_append)

text \<open>The reduce function lists the distinct documents in order, after their number; it panics on an empty list.\<close>

lemma ii_reduceF_eq:
  "ii_reduceF k vs = (if vs = [] then Inl SliceBounds
     else Inr (itoa (int (card (set vs))) @ '' '' @ comma_join (sort (remdups vs))))"
proof -
  have d: "distinct (ii_distinct Map.empty [] vs)" "set (ii_distinct Map.empty [] vs) = set vs"
    using ii_distinct_set [of Map.empty "[]" vs] by simp_all
  have keys: "sort (ii_distinct Map.empty [] vs) = sort (remdups vs)"
    by (rule sorted_distinct_set_unique) (simp_all add: d)
  let ?s = "concat (map (\<lambda>k. k @ '','') (sort (remdups vs)))"
  have len: "length (sort (remdups vs)) = card (set vs)" by (simp add: length_remdups_card_conv)
  show ?thesis
  proof (cases "vs = []")
    case True
    then show ?thesis by (simp add: ii_reduceF_def keys slice_of_def)
  next
    case False
    then have ne: "sort (remdups vs) \<noteq> []" by (metis length_0_conv length_sort remdups_eq_nil_iff)
    then have "?s \<noteq> []" by (cases "sort (remdups vs)") simp_all
    then have "slice_of ?s 0 (int (length ?s) - 1) = Inr (butlast ?s)"
      by (simp add: slice_of_def butlast_conv_take Suc_le_eq nat_diff_distrib)
    then show ?thesis using False butlast_commas [OF ne] len by (simp add: ii_reduceF_def keys ii_join_eq Let_def)
  qed
qed

definition docs_of :: "disk \<Rightarrow> string list \<Rightarrow> string \<Rightarrow> string list" where
  "docs_of d fs w = sort (remdups (filter (\<lambda>f. w \<in> set (words_of (mget [] (inputs d) f))) fs))"

lemma ii_values: "set (values_of (job_pairs d ii_mapF fs) w) = set (filter (\<lambda>f. w \<in> set (words_of (mget [] (inputs d) f))) fs)"
  by (force simp: values_of_def job_pairs_def ii_mapF_def)

lemma ii_keys: "keys_of (job_pairs d ii_mapF fs) = sort (remdups (all_words d fs))"
proof -
  have "map Key (job_pairs d ii_mapF fs) = all_words d fs"
    by (simp add: job_pairs_def ii_mapF_def all_words_def map_concat comp_def)
  then show ?thesis by (simp add: keys_of_def)
qed

text \<open>The inverted index, run sequentially, writes one line for every word that occurs in the input files, in
  the order of the words, with the number of the files that contain it and their names in order, separated by
  commas.\<close>

theorem ii_indexes_words:
  assumes "ready_for d job (length fs) n" "0 < n" "\<And>f. f \<in> set fs \<Longrightarrow> inputs d f \<noteq> None"
  shows "\<exists>mr d'. Sequential d job fs (int n) ii_mapF ii_reduceF = Inr (mr, d') \<and> Wait mr \<and>
    files d' (''mrtmp.'' @ job) =
      Some (map (\<lambda>w. Line (w @ '': '' @ (itoa (int (length (docs_of d fs w))) @ '' '' @ comma_join (docs_of d fs w)) @ [CHR 0x0A]))
        (sort (remdups (all_words d fs))))"
proof -
  let ?out = "\<lambda>w. itoa (int (length (docs_of d fs w))) @ '' '' @ comma_join (docs_of d fs w)"
  have red: "ii_reduceF w (values_of (job_pairs d ii_mapF fs) w) = Inr (?out w)" if w: "w \<in> set (keys_of (job_pairs d ii_mapF fs))" for w
  proof -
    have "values_of (job_pairs d ii_mapF fs) w \<noteq> []" using w by (auto simp: keys_of_def values_of_def filter_empty_conv)
    moreover have "sort (remdups (values_of (job_pairs d ii_mapF fs) w)) = docs_of d fs w"
      unfolding docs_of_def by (rule sorted_distinct_set_unique) (simp_all add: ii_values)
    moreover from this have "card (set (values_of (job_pairs d ii_mapF fs) w)) = length (docs_of d fs w)"
      by (metis length_remdups_card_conv length_sort)
    ultimately show ?thesis by (simp add: ii_reduceF_eq)
  qed
  have "\<exists>mr d'. Sequential d job fs (int n) ii_mapF ii_reduceF = Inr (mr, d') \<and> Wait mr \<and>
    mr_jobName mr = job \<and> mr_files mr = fs \<and> mr_nReduce mr = int n \<and> mr_stats mr = [int (length fs + n)] \<and>
    files d' (''mrtmp.'' @ job) = Some (merged_lines ?out (keys_of (job_pairs d ii_mapF fs))) \<and>
    (\<forall>f \<in> job_names job (length fs) n. files d' f \<noteq> None) \<and> (\<forall>f. f \<notin> job_names job (length fs) n \<longrightarrow> files d' f = files d f)"
    using assms red by (rule Sequential_output)
  then show ?thesis unfolding ii_keys merged_lines_def by blast
qed

theorem ii_indexes_words_witness:
  "\<exists>mr d'. Sequential sample_texts ''j'' [''f'', ''g''] (int 3) ii_mapF ii_reduceF = Inr (mr, d') \<and> Wait mr \<and>
    files d' (''mrtmp.'' @ ''j'') = Some (map (\<lambda>(w, n). Line (w @ '': '' @ n @ [CHR 0x0A]))
      [(''be'', ''2 f,g''), (''not'', ''1 g''), (''or'', ''1 f''), (''to'', ''2 f,g'')])"
proof -
  let ?ws = "all_words sample_texts [''f'', ''g'']" and ?docs = "docs_of sample_texts [''f'', ''g'']"
  have "\<exists>mr d'. Sequential sample_texts ''j'' [''f'', ''g''] (int 3) ii_mapF ii_reduceF = Inr (mr, d') \<and> Wait mr \<and>
      files d' (''mrtmp.'' @ ''j'') = Some (map (\<lambda>w. Line (w @ '': '' @ (itoa (int (length (?docs w))) @ '' '' @ comma_join (?docs w)) @ [CHR 0x0A])) (sort (remdups ?ws)))"
    by (rule ii_indexes_words) (use sample_texts_ready in simp_all)
  moreover have "sort (remdups ?ws) = [''be'', ''not'', ''or'', ''to'']" unfolding sample_words by code_simp
  moreover have words: "words_of ''to be, or'' = [''to'', ''be'', ''or'']" "words_of ''not to be'' = [''not'', ''to'', ''be'']"
    by (simp_all add: words_of_def FieldsFunc_def isLetter_def)
  moreover have two: "sort [''f'', ''g''] = [''f'', ''g'']" by code_simp
  moreover have "?docs ''be'' = [''f'', ''g'']" "?docs ''to'' = [''f'', ''g'']" "?docs ''not'' = [''g'']" "?docs ''or'' = [''f'']"
    using two by (simp_all add: docs_of_def sample_texts_def mget_def words)
  moreover note itoa_small
  ultimately show ?thesis by simp
qed

end
