(* ===== verification/MR_Worker.thy ===== *)
theory MR_Worker
  imports MR_Master
begin

section \<open>MapReduce: workers\<close>

text \<open>
  \<^verbatim>\<open>src/mapreduce/worker.go\<close>. \<open>DoTask\<close> consists of the section under the lock that opens a task, the task
  itself and the section that closes it; two calls can overlap, so the first and the last are operations of their
  own. The object \<open>Parallelism\<close> is shared by the workers that are given one.
\<close>

record Parallelism =
  par_now :: int
  par_max :: int

record Worker =
  wk_name :: string
  wk_Map :: "string \<Rightarrow> string \<Rightarrow> KeyValue list"
  wk_Reduce :: "string \<Rightarrow> string list \<Rightarrow> string result"
  wk_nRPC :: int
  wk_nTasks :: int
  wk_concurrent :: int
  wk_listening :: bool

definition DoTask_open :: "Worker \<Rightarrow> Parallelism option \<Rightarrow> (Worker \<times> Parallelism option \<times> bool) result" where
  "DoTask_open wk parallelism =
     (let wk = wk\<lparr>wk_nTasks := wk_nTasks wk + 1, wk_concurrent := wk_concurrent wk + 1\<rparr>; nc = wk_concurrent wk in
      if nc > 1 then Inl (Fatal ''Worker.DoTask: more than one DoTask sent concurrently to a single worker'')
      else case parallelism of
        None \<Rightarrow> Inr (wk, None, False)
      | Some p \<Rightarrow>
          let p = p\<lparr>par_now := par_now p + 1\<rparr>;
              p = (if par_now p > par_max p then p\<lparr>par_max := par_now p\<rparr> else p)
          in Inr (wk, Some p, par_max p < 2))"

definition DoTask_task :: "Worker \<Rightarrow> DoTaskArgs \<Rightarrow> disk \<Rightarrow> disk result" where
  "DoTask_task wk arg d =
     (case dt_Phase arg of
        mapPhase \<Rightarrow> doMap d (dt_JobName arg) (dt_TaskNumber arg) (dt_File arg) (dt_NumOtherPhase arg) (wk_Map wk)
      | reducePhase \<Rightarrow> doReduce d (dt_JobName arg) (dt_TaskNumber arg) (mergeName (dt_JobName arg) (dt_TaskNumber arg))
          (dt_NumOtherPhase arg) (wk_Reduce wk))"

definition DoTask_close :: "Worker \<Rightarrow> Parallelism option \<Rightarrow> Worker \<times> Parallelism option" where
  "DoTask_close wk parallelism =
     (wk\<lparr>wk_concurrent := wk_concurrent wk - 1\<rparr>, map_option (\<lambda>p. p\<lparr>par_now := par_now p - 1\<rparr>) parallelism)"

text \<open>A call that no other call overlaps.\<close>

definition DoTask :: "Worker \<Rightarrow> Parallelism option \<Rightarrow> DoTaskArgs \<Rightarrow> disk \<Rightarrow> (Worker \<times> Parallelism option \<times> disk) result" where
  "DoTask wk parallelism arg d =
     rbind (DoTask_open wk parallelism) (\<lambda>(wk, parallelism, pause).
     rbind (DoTask_task wk arg d) (\<lambda>d.
       case DoTask_close wk parallelism of (wk, parallelism) \<Rightarrow> Inr (wk, parallelism, d)))"

definition Worker_Shutdown :: "Worker \<Rightarrow> Worker \<times> ShutdownReply" where
  "Worker_Shutdown wk = (wk\<lparr>wk_nRPC := 1\<rparr>, \<lparr>sr_Ntasks = wk_nTasks wk\<rparr>)"

text \<open>\<open>register\<close> calls the master; a call that fails is only reported.\<close>

definition worker_register :: "Worker \<Rightarrow> Master \<Rightarrow> bool \<Rightarrow> Master" where
  "worker_register wk mr delivered = (if delivered then Register mr \<lparr>ra_Worker = wk_name wk\<rparr> else mr)"

text \<open>The accept loop of \<open>RunWorker\<close>: each event is an accepted connection or an error of the listener, with
  whether a shutdown was served since the last one. The result counts the connections that were served.\<close>

fun accept_loop :: "Worker \<Rightarrow> nat \<Rightarrow> (bool \<times> bool) list \<Rightarrow> Worker \<times> nat" where
  "accept_loop wk served [] = (wk, served)"
| "accept_loop wk served ((shutdown, ok) # events) =
     (if wk_nRPC wk = 0 then (wk\<lparr>wk_listening := False\<rparr>, served)
      else let wk = (if shutdown then fst (Worker_Shutdown wk) else wk) in
        if ok then accept_loop (wk\<lparr>wk_nRPC := wk_nRPC wk - 1\<rparr>) (served + 1) events
        else (wk\<lparr>wk_listening := False\<rparr>, served))"

definition RunWorker ::
  "Master \<Rightarrow> string \<Rightarrow> (string \<Rightarrow> string \<Rightarrow> KeyValue list) \<Rightarrow> (string \<Rightarrow> string list \<Rightarrow> string result) \<Rightarrow> int \<Rightarrow> bool \<Rightarrow> bool \<Rightarrow>
     (bool \<times> bool) list \<Rightarrow> (Master \<times> Worker \<times> nat) result" where
  "RunWorker mr me MapFunc ReduceFunc nRPC can_listen delivered events =
     (if \<not> can_listen then Inl (Fatal ''RunWorker: worker '')
      else let wk = \<lparr>wk_name = me, wk_Map = MapFunc, wk_Reduce = ReduceFunc, wk_nRPC = nRPC, wk_nTasks = 0, wk_concurrent = 0, wk_listening = True\<rparr>;
               mr = worker_register wk mr delivered
        in case accept_loop wk 0 events of (wk, served) \<Rightarrow> Inr (mr, wk, served))"

subsection \<open>Tasks one after the other\<close>

definition idle :: "Worker \<Rightarrow> bool" where
  "idle wk \<longleftrightarrow> wk_concurrent wk = 0"

lemma DoTask_idle:
  "idle wk \<Longrightarrow> DoTask wk None arg d =
     rbind (DoTask_task wk arg d) (\<lambda>d. Inr (wk\<lparr>wk_nTasks := wk_nTasks wk + 1, wk_concurrent := 0\<rparr>, None, d))"
  by (simp add: DoTask_def DoTask_open_def DoTask_close_def DoTask_task_def idle_def Let_def cong: jobPhase.case_cong)

text \<open>Without a shutdown a worker serves at most as many connections as it was told to.\<close>

lemma accept_loop_bound:
  "0 \<le> wk_nRPC wk \<Longrightarrow> \<forall>(shutdown, ok) \<in> set events. \<not> shutdown \<Longrightarrow>
   int (snd (accept_loop wk served events)) \<le> int served + wk_nRPC wk"
proof (induction wk served events rule: accept_loop.induct)
  case (2 wk served shutdown ok events)
  show ?case
  proof (cases "wk_nRPC wk = 0 \<or> \<not> ok")
    case True
    then show ?thesis using "2.prems" by auto
  next
    case False
    then have "int (snd (accept_loop (wk\<lparr>wk_nRPC := wk_nRPC wk - 1\<rparr>) (served + 1) events)) \<le> int (served + 1) + wk_nRPC (wk\<lparr>wk_nRPC := wk_nRPC wk - 1\<rparr>)"
      using "2.IH" "2.prems" by auto
    then show ?thesis using False "2.prems" by simp
  qed
qed simp

end
