(* ===== verification/MR_Schedule.thy ===== *)
theory MR_Schedule
  imports MR_Worker
begin

section \<open>MapReduce: scheduling tasks on workers\<close>

text \<open>
  \<open>schedule\<close> of \<^verbatim>\<open>src/mapreduce/schedule.go\<close> as a transition system: the main function with its position, and the
  goroutines that it starts, one step for every access to what they share. A goroutine reads \<open>taskList[i]\<close> and
  \<open>workerAddr\<close>, which are variables of the main function, when it gets to run. A timer may fire in every
  \<open>select\<close>; the choice among the free workers is the order of a range over a map, hence open.
\<close>

subsection \<open>State\<close>

datatype goroutine =
    Spawned DoTaskArgs
  | Numbered DoTaskArgs int
  | Addressed DoTaskArgs int string
  | Calling DoTaskArgs int string string
  | Failing int string
  | Finishing

datatype sched_pc =
    Collecting
  | Picking
  | Waiting_wg
  | Draining
  | Listening
  | Sched_returned
  | Sched_crashed go_panic

record sched_args =
  sa_jobName :: string
  sa_mapFiles :: "string list"
  sa_nReduce :: int
  sa_phase :: jobPhase

record sched =
  sc_pc :: sched_pc
  sc_workerSet :: "string list"
  sc_workerState :: "string \<rightharpoonup> bool"
  sc_workerAddr :: string
  sc_runningTask :: nat
  sc_wg :: int
  sc_failedChan :: "(string \<times> int) list"
  sc_taskList :: "int list"
  sc_i :: nat
  sc_goroutines :: "goroutine list"
  sc_given :: "DoTaskArgs list"

text \<open>The field \<open>sc_given\<close> is the history of the arguments that goroutines were started with.\<close>

definition ntasks :: "sched_args \<Rightarrow> int" where
  "ntasks a = (case sa_phase a of mapPhase \<Rightarrow> int (length (sa_mapFiles a)) | reducePhase \<Rightarrow> sa_nReduce a)"

definition n_other :: "sched_args \<Rightarrow> int" where
  "n_other a = (case sa_phase a of mapPhase \<Rightarrow> sa_nReduce a | reducePhase \<Rightarrow> int (length (sa_mapFiles a)))"

definition sched_init :: sched where
  "sched_init = \<lparr>sc_pc = Collecting, sc_workerSet = [], sc_workerState = Map.empty, sc_workerAddr = [], sc_runningTask = 0,
     sc_wg = 0, sc_failedChan = [], sc_taskList = [], sc_i = 0, sc_goroutines = [], sc_given = []\<rparr>"

definition task_args :: "sched_args \<Rightarrow> int \<Rightarrow> DoTaskArgs result" where
  "task_args a t = rbind (at (sa_mapFiles a) t) (\<lambda>f.
     Inr \<lparr>dt_JobName = sa_jobName a, dt_File = f, dt_Phase = sa_phase a, dt_TaskNumber = t, dt_NumOtherPhase = n_other a\<rparr>)"

text \<open>The worker that a range over the map ends with: some free one, or the address used last.\<close>

definition picks :: "sched \<Rightarrow> string \<Rightarrow> bool" where
  "picks s w \<longleftrightarrow> (if \<exists>k. sc_workerState s k = Some False then sc_workerState s w = Some False else w = sc_workerAddr s)"

definition start_tasks :: "sched_args \<Rightarrow> sched \<Rightarrow> sched" where
  "start_tasks a s =
     (if ntasks a < 0 then s\<lparr>sc_pc := Sched_crashed (Panicked ''makechan: size out of range'')\<rparr>
      else s\<lparr>sc_pc := Picking, sc_runningTask := 0, sc_wg := int (length (sc_workerSet s)),
        sc_taskList := map int [0..<nat (ntasks a)], sc_i := 0\<rparr>)"

definition hand_out :: "sched \<Rightarrow> string \<Rightarrow> DoTaskArgs \<Rightarrow> sched" where
  "hand_out s w args =
     (let ws = (sc_workerState s)(w \<mapsto> True); n = sc_runningTask s + 1 in
      s\<lparr>sc_workerAddr := w, sc_goroutines := sc_goroutines s @ [Spawned args], sc_given := sc_given s @ [args],
        sc_runningTask := n, sc_workerState := ws, sc_pc := (if n = card (dom ws) then Waiting_wg else Listening)\<rparr>)"

definition new_round :: "sched \<Rightarrow> sched" where
  "new_round s =
     (let ws = (\<lambda>w. map_option (\<lambda>_. False) (sc_workerState s w)) in
      s\<lparr>sc_runningTask := 0, sc_workerState := ws, sc_wg := sc_wg s + int (card (dom ws)), sc_pc := Listening\<rparr>)"

subsection \<open>Steps\<close>

text \<open>One step of a goroutine: its successor, or none when it has ended, and what it does to the shared state.\<close>

fun go_step :: "sched_args \<Rightarrow> sched \<Rightarrow> bool \<Rightarrow> goroutine \<Rightarrow> (goroutine option \<times> sched) option" where
  "go_step a s ok (Spawned args) =
     (case at (sc_taskList s) (int (sc_i s)) of
        Inl e \<Rightarrow> Some (None, s\<lparr>sc_pc := Sched_crashed e\<rparr>)
      | Inr t \<Rightarrow> Some (Some (Numbered args t), s))"
| "go_step a s ok (Numbered args t) = Some (Some (Addressed args t (sc_workerAddr s)), s)"
| "go_step a s ok (Addressed args t w) = Some (Some (Calling args t w (sc_workerAddr s)), s)"
| "go_step a s ok (Calling args t w target) = Some (Some (if ok then Finishing else Failing t w), s)"
| "go_step a s ok (Failing t w) =
     (if int (length (sc_failedChan s)) < ntasks a
      then Some (Some Finishing, s\<lparr>sc_failedChan := sc_failedChan s @ [(w, t)]\<rparr>) else None)"
| "go_step a s ok Finishing =
     (if sc_wg s - 1 < 0 then Some (None, s\<lparr>sc_pc := Sched_crashed (Panicked ''sync: negative WaitGroup counter'')\<rparr>)
      else Some (None, s\<lparr>sc_wg := sc_wg s - 1\<rparr>))"

definition replace_go :: "goroutine list \<Rightarrow> nat \<Rightarrow> goroutine option \<Rightarrow> goroutine list" where
  "replace_go gs k g = take k gs @ (case g of None \<Rightarrow> [] | Some g \<Rightarrow> [g]) @ drop (Suc k) gs"

definition crashed :: "sched \<Rightarrow> bool" where
  "crashed s \<longleftrightarrow> (\<exists>e. sc_pc s = Sched_crashed e)"

inductive sched_step :: "sched_args \<Rightarrow> sched \<Rightarrow> sched \<Rightarrow> bool" for a :: sched_args where
  collect: "sc_pc s = Collecting \<Longrightarrow>
    sched_step a s (s\<lparr>sc_workerSet := sc_workerSet s @ [w], sc_workerState := (sc_workerState s)(w \<mapsto> False), sc_workerAddr := w\<rparr>)"
| collected: "sc_pc s = Collecting \<Longrightarrow> sched_step a s (start_tasks a s)"
| all_given: "sc_pc s = Picking \<Longrightarrow> length (sc_taskList s) \<le> sc_i s \<Longrightarrow> sched_step a s (s\<lparr>sc_pc := Sched_returned\<rparr>)"
| no_file: "sc_pc s = Picking \<Longrightarrow> sc_i s < length (sc_taskList s) \<Longrightarrow> picks s w \<Longrightarrow>
    task_args a (sc_taskList s ! sc_i s) = Inl e \<Longrightarrow> sched_step a s (s\<lparr>sc_workerAddr := w, sc_pc := Sched_crashed e\<rparr>)"
| pick: "sc_pc s = Picking \<Longrightarrow> sc_i s < length (sc_taskList s) \<Longrightarrow> picks s w \<Longrightarrow>
    task_args a (sc_taskList s ! sc_i s) = Inr args \<Longrightarrow> sched_step a s (hand_out s w args)"
| waited: "sc_pc s = Waiting_wg \<Longrightarrow> sc_wg s = 0 \<Longrightarrow> sched_step a s (s\<lparr>sc_pc := Draining\<rparr>)"
| drain: "sc_pc s = Draining \<Longrightarrow> sc_failedChan s = (w, t) # rest \<Longrightarrow>
    sched_step a s (s\<lparr>sc_failedChan := rest, sc_workerState := (sc_workerState s)(w := None), sc_taskList := sc_taskList s @ [t]\<rparr>)"
| drained: "sc_pc s = Draining \<Longrightarrow> sched_step a s (new_round s)"
| listen: "sc_pc s = Listening \<Longrightarrow>
    sched_step a s (s\<lparr>sc_workerAddr := w, sc_workerState := (sc_workerState s)(w \<mapsto> False), sc_wg := sc_wg s + 1\<rparr>)"
| listened: "sc_pc s = Listening \<Longrightarrow> sched_step a s (s\<lparr>sc_pc := Picking, sc_i := sc_i s + 1\<rparr>)"
| goroutine: "\<not> crashed s \<Longrightarrow> k < length (sc_goroutines s) \<Longrightarrow> go_step a s ok (sc_goroutines s ! k) = Some (g, s') \<Longrightarrow>
    sched_step a s (s'\<lparr>sc_goroutines := replace_go (sc_goroutines s) k g\<rparr>)"

inductive sched_run :: "sched_args \<Rightarrow> sched \<Rightarrow> bool" for a :: sched_args where
  start: "sched_run a sched_init"
| run_step: "sched_run a s \<Longrightarrow> sched_step a s s' \<Longrightarrow> sched_run a s'"

inductive_cases sched_stepE: "sched_step a s s'"

subsection \<open>The distributed job\<close>

text \<open>The phases are run by a scheduler, whose effect on the disk is an argument.\<close>

definition Distributed ::
  "disk \<Rightarrow> string \<Rightarrow> string list \<Rightarrow> int \<Rightarrow> string \<Rightarrow> bool \<Rightarrow> string list \<Rightarrow> (Master \<Rightarrow> disk \<Rightarrow> jobPhase \<Rightarrow> disk result) \<Rightarrow>
     int option list \<Rightarrow> bool \<Rightarrow> (Master \<times> disk) result" where
  "Distributed d jobName fs nreduce master can_listen registered phase_by replies delivered =
     rbind (startRPCServer (newMaster master) can_listen) (\<lambda>mr.
       run mr d jobName fs nreduce phase_by (\<lambda>mr.
         let mr = foldl (\<lambda>mr w. Register mr \<lparr>ra_Worker = w\<rparr>) mr registered in
         stopRPCServer (mr\<lparr>mr_stats := killWorkers mr replies\<rparr>) delivered))"

subsection \<open>Invariant\<close>

definition task_in_range :: "sched_args \<Rightarrow> int \<Rightarrow> bool" where
  "task_in_range a t \<longleftrightarrow> 0 \<le> t \<and> t < ntasks a"

fun go_ok :: "sched_args \<Rightarrow> goroutine \<Rightarrow> bool" where
  "go_ok a (Spawned args) = True"
| "go_ok a (Numbered args t) = task_in_range a t"
| "go_ok a (Addressed args t w) = task_in_range a t"
| "go_ok a (Calling args t w target) = task_in_range a t"
| "go_ok a (Failing t w) = task_in_range a t"
| "go_ok a Finishing = True"

text \<open>How many tasks of the list have been given out.\<close>

definition given_count :: "sched \<Rightarrow> nat" where
  "given_count s = (if sc_pc s \<in> {Waiting_wg, Draining, Listening} then Suc (sc_i s) else sc_i s)"

definition sched_inv :: "sched_args \<Rightarrow> sched \<Rightarrow> bool" where
  "sched_inv a s \<longleftrightarrow>
     list_all (task_in_range a) (sc_taskList s) \<and> list_all (\<lambda>(w, t). task_in_range a t) (sc_failedChan s) \<and>
     list_all (go_ok a) (sc_goroutines s) \<and>
     (sc_pc s = Collecting \<longrightarrow> sc_goroutines s = [] \<and> sc_given s = []) \<and>
     (sc_pc s \<noteq> Collecting \<and> \<not> crashed s \<longrightarrow>
        (\<exists>retries. sc_taskList s = map int [0..<nat (ntasks a)] @ retries) \<and> given_count s \<le> length (sc_taskList s) \<and>
        map (task_args a) (take (given_count s) (sc_taskList s)) = map Inr (sc_given s)) \<and>
     (sc_pc s = Sched_returned \<longrightarrow> sc_i s = length (sc_taskList s))"

lemma go_step_keeps:
  assumes "go_step a s ok g = Some (g', s')"
  shows "sc_taskList s' = sc_taskList s \<and> sc_i s' = sc_i s \<and> sc_given s' = sc_given s \<and> (sc_pc s' = sc_pc s \<or> crashed s')"
  using assms by (cases g) (auto simp: crashed_def split: sum.splits if_splits)

lemma go_step_ok:
  assumes "go_step a s ok g = Some (g', s')" "go_ok a g" "list_all (task_in_range a) (sc_taskList s)"
    and "list_all (\<lambda>(w, t). task_in_range a t) (sc_failedChan s)"
  shows "list_all (\<lambda>(w, t). task_in_range a t) (sc_failedChan s') \<and> (case g' of None \<Rightarrow> True | Some g' \<Rightarrow> go_ok a g')"
  using assms by (cases g) (auto simp: at_def list_all_iff split: sum.splits if_splits)

lemma replace_go_ok:
  "list_all (go_ok a) gs \<Longrightarrow> (case g of None \<Rightarrow> True | Some g \<Rightarrow> go_ok a g) \<Longrightarrow> list_all (go_ok a) (replace_go gs k g)"
  by (auto simp: replace_go_def list_all_iff split: option.splits dest: in_set_takeD in_set_dropD)

lemma crashed_simps [simp]:
  "crashed (s\<lparr>sc_pc := p\<rparr>) \<longleftrightarrow> (\<exists>e. p = Sched_crashed e)" "crashed (s\<lparr>sc_goroutines := gs\<rparr>) = crashed s"
  "crashed (s\<lparr>sc_workerAddr := w\<rparr>) = crashed s"
  by (simp_all add: crashed_def)

lemma inv_goroutine:
  assumes inv: "sched_inv a s" and nc: "\<not> crashed s" and k: "k < length (sc_goroutines s)"
    and st: "go_step a s ok (sc_goroutines s ! k) = Some (g, s')"
  shows "sched_inv a (s'\<lparr>sc_goroutines := replace_go (sc_goroutines s) k g\<rparr>)"
proof -
  note keep = go_step_keeps [OF st]
  have pc: "sc_pc s \<noteq> Collecting" using inv k by (auto simp: sched_inv_def)
  have lists: "list_all (task_in_range a) (sc_taskList s)" "list_all (\<lambda>(w, t). task_in_range a t) (sc_failedChan s)"
    "list_all (go_ok a) (sc_goroutines s)" using inv by (simp_all add: sched_inv_def)
  have "go_ok a (sc_goroutines s ! k)" using lists(3) k by (simp add: list_all_length)
  from go_step_ok [OF st this lists(1,2)]
  have new: "list_all (\<lambda>(w, t). task_in_range a t) (sc_failedChan s')" "list_all (go_ok a) (replace_go (sc_goroutines s) k g)"
    using replace_go_ok [OF lists(3)] by blast+
  show ?thesis
  proof (cases "crashed s'")
    case True
    then have "sc_pc s' \<noteq> Collecting" "sc_pc s' \<noteq> Sched_returned" by (auto simp: crashed_def)
    then show ?thesis using True new lists(1) keep by (simp add: sched_inv_def)
  next
    case False
    then have "sc_pc s' = sc_pc s" using keep by blast
    moreover from this have "given_count s' = given_count s" using keep by (simp add: given_count_def)
    moreover have "given_count (s'\<lparr>sc_goroutines := gs\<rparr>) = given_count s'" for gs by (simp add: given_count_def)
    ultimately show ?thesis using inv new lists(1) keep False nc pc by (simp add: sched_inv_def)
  qed
qed

lemma inv_hand_out:
  assumes inv: "sched_inv a s" and pc: "sc_pc s = Picking" "sc_i s < length (sc_taskList s)"
    and args: "task_args a (sc_taskList s ! sc_i s) = Inr args"
  shows "sched_inv a (hand_out s w args)"
proof -
  have "sc_pc (hand_out s w args) = Waiting_wg \<or> sc_pc (hand_out s w args) = Listening" by (simp add: hand_out_def Let_def)
  then have "given_count (hand_out s w args) = Suc (sc_i s)" by (auto simp: given_count_def hand_out_def Let_def)
  moreover have "take (Suc (sc_i s)) (sc_taskList s) = take (sc_i s) (sc_taskList s) @ [sc_taskList s ! sc_i s]"
    by (rule take_Suc_conv_app_nth [OF pc(2)])
  ultimately show ?thesis
    using inv pc args by (auto simp: sched_inv_def hand_out_def Let_def given_count_def crashed_def)
qed

lemma inv_drain:
  assumes inv: "sched_inv a s" and pc: "sc_pc s = Draining" and f: "sc_failedChan s = (w, t) # rest"
  shows "sched_inv a (s\<lparr>sc_failedChan := rest, sc_workerState := (sc_workerState s)(w := None), sc_taskList := sc_taskList s @ [t]\<rparr>)"
  using assms by (auto simp: sched_inv_def given_count_def crashed_def)

lemma inv_start: "sched_inv a s \<Longrightarrow> sc_pc s = Collecting \<Longrightarrow> sched_inv a (start_tasks a s)"
  by (auto simp: sched_inv_def start_tasks_def given_count_def list_all_iff task_in_range_def crashed_def)

lemma inv_new_round: "sched_inv a s \<Longrightarrow> sc_pc s = Draining \<Longrightarrow> sched_inv a (new_round s)"
  by (auto simp: sched_inv_def new_round_def given_count_def crashed_def Let_def)

lemma sched_step_inv:
  assumes "sched_inv a s" "sched_step a s s'"
  shows "sched_inv a s'"
  using assms(2,1)
proof (cases rule: sched_step.cases)
  case (collect w)
  then show ?thesis using assms(1) by (simp add: sched_inv_def crashed_def)
next
  case collected
  then show ?thesis using inv_start [OF assms(1)] by simp
next
  case all_given
  then show ?thesis using assms(1) by (simp add: sched_inv_def given_count_def crashed_def)
next
  case (no_file w e)
  then show ?thesis using assms(1) by (simp add: sched_inv_def)
next
  case (pick w args)
  then show ?thesis using inv_hand_out [OF assms(1)] by simp
next
  case waited
  then show ?thesis using assms(1) by (simp add: sched_inv_def given_count_def crashed_def)
next
  case (drain w t rest)
  then show ?thesis using inv_drain [OF assms(1)] by simp
next
  case drained
  then show ?thesis using inv_new_round [OF assms(1)] by simp
next
  case (listen w)
  then show ?thesis using assms(1) by (simp add: sched_inv_def given_count_def crashed_def)
next
  case listened
  then show ?thesis using assms(1) by (simp add: sched_inv_def given_count_def crashed_def)
next
  case (goroutine k ok g t)
  then show ?thesis using inv_goroutine [OF assms(1)] by blast
qed

lemma sched_run_inv: "sched_run a s \<Longrightarrow> sched_inv a s"
proof (induction rule: sched_run.induct)
  case start
  then show ?case by (simp add: sched_inv_def sched_init_def)
qed (rule sched_step_inv)

lemma returned_given:
  assumes "sched_run a s" "sc_pc s = Sched_returned"
  shows "\<exists>retries. map (task_args a) (map int [0..<nat (ntasks a)] @ retries) = map Inr (sc_given s) \<and> list_all (task_in_range a) retries"
proof -
  note inv = sched_run_inv [OF assms(1)]
  have "\<not> crashed s" using assms(2) by (simp add: crashed_def)
  then obtain retries where r: "sc_taskList s = map int [0..<nat (ntasks a)] @ retries"
    and all: "map (task_args a) (sc_taskList s) = map Inr (sc_given s)"
    using inv assms(2) by (auto simp: sched_inv_def given_count_def)
  moreover have "list_all (task_in_range a) retries" using inv unfolding sched_inv_def r by simp
  ultimately show ?thesis by metis
qed

subsection \<open>Properties of the scheduler\<close>


text \<open>A job with one map task and two workers.\<close>

definition sample_job :: sched_args where
  "sample_job = \<lparr>sa_jobName = ''j'', sa_mapFiles = [''f''], sa_nReduce = 2, sa_phase = mapPhase\<rparr>"

definition sample_args :: DoTaskArgs where
  "sample_args = \<lparr>dt_JobName = ''j'', dt_File = ''f'', dt_Phase = mapPhase, dt_TaskNumber = 0, dt_NumOtherPhase = 2\<rparr>"

lemma sample_job_simps [simp]: "ntasks sample_job = 1" "n_other sample_job = 2" "task_args sample_job 0 = Inr sample_args"
  by (simp_all add: ntasks_def n_other_def task_args_def sample_job_def sample_args_def at_def)

text \<open>The state of a scheduler, for writing down runs.\<close>

abbreviation sched_at ::
  "sched_pc \<Rightarrow> string list \<Rightarrow> (string \<rightharpoonup> bool) \<Rightarrow> string \<Rightarrow> nat \<Rightarrow> int \<Rightarrow> nat \<Rightarrow> goroutine list \<Rightarrow> DoTaskArgs list \<Rightarrow> sched" where
  "sched_at pc ws st w n wg i gs given \<equiv> \<lparr>sc_pc = pc, sc_workerSet = ws, sc_workerState = st, sc_workerAddr = w, sc_runningTask = n, sc_wg = wg,
     sc_failedChan = [], sc_taskList = (if pc = Collecting then [] else [0]), sc_i = i, sc_goroutines = gs, sc_given = given\<rparr>"

lemma run_by: "sched_run a s \<Longrightarrow> sched_step a s s' \<Longrightarrow> s' = t \<Longrightarrow> sched_run a t"
  using run_step by blast

lemma two_workers_run:
  "sched_run sample_job (sched_at Sched_returned [''v'', ''w''] [''v'' \<mapsto> False, ''w'' \<mapsto> True] ''w'' 1 2 1
     [Calling sample_args 0 ''w'' ''w''] [sample_args])"
proof -
  let ?ws = "[''v'', ''w'']" and ?free = "[''v'' \<mapsto> False, ''w'' \<mapsto> False]" and ?busy = "[''v'' \<mapsto> False, ''w'' \<mapsto> True]"
  have "sched_run sample_job (sched_at Collecting [''v''] [''v'' \<mapsto> False] ''v'' 0 0 0 [] [])"
    by (rule run_by [OF start sched_step.collect [where w = "''v''"]]) (simp_all add: sched_init_def)
  then have "sched_run sample_job (sched_at Collecting ?ws ?free ''w'' 0 0 0 [] [])"
    by (rule run_by [OF _ sched_step.collect [where w = "''w''"]]) simp_all
  then have "sched_run sample_job (sched_at Picking ?ws ?free ''w'' 0 2 0 [] [])"
    by (rule run_by [OF _ sched_step.collected]) (simp_all add: start_tasks_def)
  then have "sched_run sample_job (sched_at Listening ?ws ?busy ''w'' 1 2 0 [Spawned sample_args] [sample_args])"
    by (rule run_by [OF _ sched_step.pick [where w = "''w''"]]) (auto simp: picks_def hand_out_def)
  then have "sched_run sample_job (sched_at Listening ?ws ?busy ''w'' 1 2 0 [Numbered sample_args 0] [sample_args])"
    by (rule run_by [OF _ sched_step.goroutine [where k = 0]]) (auto simp: crashed_def at_def replace_go_def)
  then have "sched_run sample_job (sched_at Listening ?ws ?busy ''w'' 1 2 0 [Addressed sample_args 0 ''w''] [sample_args])"
    by (rule run_by [OF _ sched_step.goroutine [where k = 0]]) (auto simp: crashed_def replace_go_def)
  then have "sched_run sample_job (sched_at Listening ?ws ?busy ''w'' 1 2 0 [Calling sample_args 0 ''w'' ''w''] [sample_args])"
    by (rule run_by [OF _ sched_step.goroutine [where k = 0]]) (auto simp: crashed_def replace_go_def)
  then have "sched_run sample_job (sched_at Picking ?ws ?busy ''w'' 1 2 1 [Calling sample_args 0 ''w'' ''w''] [sample_args])"
    by (rule run_by [OF _ sched_step.listened]) simp_all
  then show ?thesis
    by (rule run_by [OF _ sched_step.all_given]) simp_all
qed


text \<open>\<open>schedule\<close> can return while the call of its last task is still running: it waits for its goroutines
  only when every worker has a task.\<close>

theorem schedule_returns_early:
  "\<exists>s. sched_run sample_job s \<and> sc_pc s = Sched_returned \<and> (\<exists>w v. Calling sample_args 0 w v \<in> set (sc_goroutines s))"
  using two_workers_run by force

text \<open>C36: with more reduce tasks than input files the reduce phase never ends: the scheduler looks up an input
  file for every reduce task and panics at the first one without.\<close>

theorem schedule_needs_a_file_per_reduce_task:
  assumes "sa_phase a = reducePhase" "int (length (sa_mapFiles a)) < sa_nReduce a" "sched_run a s"
  shows "sc_pc s \<noteq> Sched_returned"
proof
  assume "sc_pc s = Sched_returned"
  then obtain retries where r: "map (task_args a) (map int [0..<nat (ntasks a)] @ retries) = map Inr (sc_given s)"
    using returned_given [OF assms(3)] by blast
  let ?t = "int (length (sa_mapFiles a))"
  have "?t \<in> set (map int [0..<nat (ntasks a)])" using assms(1,2) by (auto simp: ntasks_def)
  then have "task_args a ?t \<in> set (map Inr (sc_given s))" unfolding r [symmetric] by auto
  then obtain x where "task_args a ?t = Inr x" by auto
  then show False by (simp add: task_args_def at_def)
qed

theorem schedule_needs_a_file_per_reduce_task_witness:
  "sc_pc (start_tasks \<lparr>sa_jobName = ''j'', sa_mapFiles = [''f''], sa_nReduce = 2, sa_phase = reducePhase\<rparr> sched_init) \<noteq> Sched_returned"
proof (rule schedule_needs_a_file_per_reduce_task)
  let ?a = "\<lparr>sa_jobName = ''j'', sa_mapFiles = [''f''], sa_nReduce = 2, sa_phase = reducePhase\<rparr>"
  show "sched_run ?a (start_tasks ?a sched_init)"
    by (rule run_step [OF start sched_step.collected]) (simp add: sched_init_def)
qed simp_all

text \<open>A worker that registers twice makes \<open>schedule\<close> wait for ever: the wait group counts it twice, but only
  one task is started for it.\<close>

theorem schedule_blocks_on_double_registration:
  "\<exists>s. sched_run sample_job s \<and> sc_pc s = Waiting_wg \<and> sc_goroutines s = [] \<and> (\<forall>s'. \<not> sched_step sample_job s s')"
proof -
  let ?ws = "[''v'', ''v'']" and ?busy = "[''v'' \<mapsto> True]"
  have "sched_run sample_job (sched_at Collecting [''v''] [''v'' \<mapsto> False] ''v'' 0 0 0 [] [])"
    by (rule run_by [OF start sched_step.collect [where w = "''v''"]]) (simp_all add: sched_init_def)
  then have "sched_run sample_job (sched_at Collecting ?ws [''v'' \<mapsto> False] ''v'' 0 0 0 [] [])"
    by (rule run_by [OF _ sched_step.collect [where w = "''v''"]]) simp_all
  then have "sched_run sample_job (sched_at Picking ?ws [''v'' \<mapsto> False] ''v'' 0 2 0 [] [])"
    by (rule run_by [OF _ sched_step.collected]) (simp_all add: start_tasks_def)
  then have "sched_run sample_job (sched_at Waiting_wg ?ws ?busy ''v'' 1 2 0 [Spawned sample_args] [sample_args])"
    by (rule run_by [OF _ sched_step.pick [where w = "''v''"]]) (auto simp: picks_def hand_out_def)
  then have "sched_run sample_job (sched_at Waiting_wg ?ws ?busy ''v'' 1 2 0 [Numbered sample_args 0] [sample_args])"
    by (rule run_by [OF _ sched_step.goroutine [where k = 0]]) (auto simp: crashed_def at_def replace_go_def)
  then have "sched_run sample_job (sched_at Waiting_wg ?ws ?busy ''v'' 1 2 0 [Addressed sample_args 0 ''v''] [sample_args])"
    by (rule run_by [OF _ sched_step.goroutine [where k = 0]]) (auto simp: crashed_def replace_go_def)
  then have "sched_run sample_job (sched_at Waiting_wg ?ws ?busy ''v'' 1 2 0 [Calling sample_args 0 ''v'' ''v''] [sample_args])"
    by (rule run_by [OF _ sched_step.goroutine [where k = 0]]) (auto simp: crashed_def replace_go_def)
  then have "sched_run sample_job (sched_at Waiting_wg ?ws ?busy ''v'' 1 2 0 [Finishing] [sample_args])"
    by (rule run_by [OF _ sched_step.goroutine [where k = 0 and ok = True]]) (auto simp: crashed_def replace_go_def)
  then have "sched_run sample_job (sched_at Waiting_wg ?ws ?busy ''v'' 1 1 0 [] [sample_args])"
    by (rule run_by [OF _ sched_step.goroutine [where k = 0]]) (auto simp: crashed_def replace_go_def)
  moreover have "\<not> sched_step sample_job (sched_at Waiting_wg ?ws ?busy ''v'' 1 1 0 [] [sample_args]) s'" for s'
    by (auto elim: sched_step.cases)
  ultimately show ?thesis by (intro exI [of _ "sched_at Waiting_wg ?ws ?busy ''v'' 1 1 0 [] [sample_args]"]) simp
qed

subsection \<open>Scheduled tasks against the sequential job\<close>

text \<open>A worker that is given tasks one after the other.\<close>

fun do_tasks :: "Worker \<Rightarrow> DoTaskArgs list \<Rightarrow> disk \<Rightarrow> disk result" where
  "do_tasks wk [] d = Inr d"
| "do_tasks wk (x # xs) d = rbind (DoTask wk None x d) (\<lambda>(wk, p, d). do_tasks wk xs d)"

lemma do_tasks_idle:
  "idle wk \<Longrightarrow> do_tasks wk (x # xs) d =
     rbind (DoTask_task wk x d) (\<lambda>d. do_tasks (wk\<lparr>wk_nTasks := wk_nTasks wk + 1, wk_concurrent := 0\<rparr>) xs d)"
  by (cases "DoTask_task wk x d") (simp_all add: DoTask_idle)

lemma idle_next: "idle (wk\<lparr>wk_nTasks := n, wk_concurrent := 0\<rparr>)"
  by (simp add: idle_def)

lemma do_map_tasks:
  "idle wk \<Longrightarrow> sa_phase a = mapPhase \<Longrightarrow> mr_jobName mr = sa_jobName a \<Longrightarrow> mr_nReduce mr = sa_nReduce a \<Longrightarrow>
   sa_mapFiles a = pre @ fs \<Longrightarrow> map Inr args = map (task_args a) (map int [length pre..<length (sa_mapFiles a)]) \<Longrightarrow>
   do_tasks wk args d = map_tasks mr (wk_Map wk) d (length pre) fs"
proof (induction fs arbitrary: wk pre args d)
  case (Cons f fs)
  have x: "task_args a (int (length pre)) = Inr \<lparr>dt_JobName = sa_jobName a, dt_File = f, dt_Phase = mapPhase, dt_TaskNumber = int (length pre), dt_NumOtherPhase = sa_nReduce a\<rparr>"
    using Cons.prems(2,5) by (simp add: task_args_def at_def n_other_def)
  obtain xs where args: "args = \<lparr>dt_JobName = sa_jobName a, dt_File = f, dt_Phase = mapPhase, dt_TaskNumber = int (length pre), dt_NumOtherPhase = sa_nReduce a\<rparr> # xs"
    and rest: "map Inr xs = map (task_args a) (map int [Suc (length pre)..<length (sa_mapFiles a)])"
  proof -
    have "[length pre..<length (sa_mapFiles a)] = length pre # [Suc (length pre)..<length (sa_mapFiles a)]"
      using Cons.prems(5) by (intro upt_conv_Cons) simp
    with Cons.prems(6) obtain x xs where "args = x # xs" "Inr x = task_args a (int (length pre))"
      "map Inr xs = map (task_args a) (map int [Suc (length pre)..<length (sa_mapFiles a)])" by (cases args) simp_all
    then show thesis using that x by simp
  qed
  let ?wk = "wk\<lparr>wk_nTasks := wk_nTasks wk + 1, wk_concurrent := 0\<rparr>"
  have "do_tasks ?wk xs e = map_tasks mr (wk_Map ?wk) e (length (pre @ [f])) fs" for e
    by (rule Cons.IH [OF idle_next Cons.prems(2-4)]) (use Cons.prems(5) rest in simp_all)
  then show ?case
    using Cons.prems(1-4) unfolding args by (simp add: do_tasks_idle DoTask_task_def del: do_tasks.simps)
qed (simp)

lemma do_reduce_tasks:
  "idle wk \<Longrightarrow> sa_phase a = reducePhase \<Longrightarrow> mr_jobName mr = sa_jobName a \<Longrightarrow> mr_files mr = sa_mapFiles a \<Longrightarrow>
   map Inr args = map (task_args a) rs \<Longrightarrow> do_tasks wk args d = reduce_tasks mr (wk_Reduce wk) d rs"
proof (induction rs arbitrary: wk args d)
  case (Cons r rs)
  then obtain x xs where args: "args = x # xs" "task_args a r = Inr x" "map Inr xs = map (task_args a) rs" by (cases args) auto
  then have x: "dt_Phase x = reducePhase" "dt_JobName x = sa_jobName a" "dt_TaskNumber x = r" "dt_NumOtherPhase x = int (length (sa_mapFiles a))"
    using Cons.prems(2) by (auto simp: task_args_def n_other_def rbind_Inr_conv)
  let ?wk = "wk\<lparr>wk_nTasks := wk_nTasks wk + 1, wk_concurrent := 0\<rparr>"
  have "do_tasks ?wk xs e = reduce_tasks mr (wk_Reduce ?wk) e rs" for e by (rule Cons.IH [OF idle_next Cons.prems(2-4) args(3)])
  then show ?case
    using Cons.prems(1-4) x unfolding args(1) by (simp add: do_tasks_idle DoTask_task_def del: do_tasks.simps)
qed simp

text \<open>C33: the tasks of a phase, given in the order in which \<open>schedule\<close> starts them to a worker that ends each before
  the next, leave the disk of the sequential phase.\<close>

theorem scheduled_phase_is_sequential:
  assumes "idle wk" "map Inr args = map (task_args a) (map int [0..<nat (ntasks a)])"
    and "mr_jobName mr = sa_jobName a" "mr_files mr = sa_mapFiles a" "mr_nReduce mr = sa_nReduce a"
  shows "do_tasks wk args d = sequential_phase (wk_Map wk) (wk_Reduce wk) mr d (sa_phase a)"
proof (cases "sa_phase a")
  case mapPhase
  have "do_tasks wk args d = map_tasks mr (wk_Map wk) d (length ([] :: string list)) (sa_mapFiles a)"
    by (rule do_map_tasks [OF assms(1) mapPhase assms(3,5)]) (use assms(2) mapPhase in \<open>simp_all add: ntasks_def\<close>)
  then show ?thesis using mapPhase assms(4) by (simp add: sequential_phase_def)
next
  case reducePhase
  have "do_tasks wk args d = reduce_tasks mr (wk_Reduce wk) d (map int [0..<nat (ntasks a)])"
    by (rule do_reduce_tasks [OF assms(1) reducePhase assms(3,4,2)])
  then show ?thesis using reducePhase assms(5) by (simp add: sequential_phase_def ntasks_def)
qed

definition sample_worker :: Worker where
  "sample_worker = \<lparr>wk_name = ''w'', wk_Map = sample_mapF, wk_Reduce = sample_reduceF, wk_nRPC = 1, wk_nTasks = 0, wk_concurrent = 0,
     wk_listening = True\<rparr>"

definition sample_master :: Master where
  "sample_master = (newMaster ''m'')\<lparr>mr_jobName := ''j'', mr_files := [''f''], mr_nReduce := 2\<rparr>"

theorem scheduled_phase_is_sequential_witness:
  "do_tasks sample_worker [sample_args] sample_disk =
   sequential_phase (wk_Map sample_worker) (wk_Reduce sample_worker) sample_master sample_disk (sa_phase sample_job)"
proof (rule scheduled_phase_is_sequential)
  show "idle sample_worker" by (simp add: idle_def sample_worker_def)
  show "map Inr [sample_args] = map (task_args sample_job) (map int [0..<nat (ntasks sample_job)])" by simp
qed (simp_all add: sample_master_def sample_job_def)

end
