(* ===== verification/Lab_RPC.thy ===== *)
theory Lab_RPC
  imports Go_Prelude
begin

section \<open>The simulated network\<close>

text \<open>
  \<^verbatim>\<open>src/labrpc/labrpc.go\<close>. Ends and servers have names of type \<open>'n\<close>; a server object is an address into the
  store of servers, so that a server that is replaced under its name is a different one. Messages have type \<open>'m\<close>,
  handlers change a world \<open>'w\<close>. What the network leaves open is an argument: the random numbers, the states of the
  network at the polls during a call, and whether the handler has returned by then. Delays change nothing else.
\<close>

subsection \<open>Messages, services and servers\<close>

record ('n, 'm) reqMsg =
  rq_endname :: 'n
  rq_svcMeth :: string
  rq_args :: 'm

record 'm replyMsg =
  rp_ok :: bool
  rp_reply :: "'m option"

abbreviation no_reply :: "'m replyMsg" where
  "no_reply \<equiv> \<lparr>rp_ok = False, rp_reply = None\<rparr>"

text \<open>What reflection tells of a method, and the method itself.\<close>

record ('w, 'm) rpc_method =
  rm_name :: string
  rm_exported :: bool
  rm_NumIn :: nat
  rm_In2_is_ptr :: bool
  rm_NumOut :: nat
  rm_func :: "'w \<Rightarrow> 'm \<Rightarrow> 'w \<times> 'm"

record ('w, 'm) Service =
  sv_name :: string
  sv_methods :: "string \<rightharpoonup> ('w \<Rightarrow> 'm \<Rightarrow> 'w \<times> 'm)"

fun add_methods :: "(string \<rightharpoonup> ('w \<Rightarrow> 'm \<Rightarrow> 'w \<times> 'm)) \<Rightarrow> ('w, 'm) rpc_method list \<Rightarrow> (string \<rightharpoonup> ('w \<Rightarrow> 'm \<Rightarrow> 'w \<times> 'm))" where
  "add_methods methods [] = methods"
| "add_methods methods (m # ms) =
     (if \<not> rm_exported m \<or> rm_NumIn m \<noteq> 3 \<or> \<not> rm_In2_is_ptr m \<or> rm_NumOut m \<noteq> 0 then add_methods methods ms
      else add_methods (methods(rm_name m \<mapsto> rm_func m)) ms)"

definition MakeService :: "string \<Rightarrow> ('w, 'm) rpc_method list \<Rightarrow> ('w, 'm) Service" where
  "MakeService name ms = \<lparr>sv_name = name, sv_methods = add_methods Map.empty ms\<rparr>"

definition Service_dispatch :: "('w, 'm) Service \<Rightarrow> string \<Rightarrow> ('n, 'm) reqMsg \<Rightarrow> 'w \<Rightarrow> ('w \<times> 'm replyMsg) result" where
  "Service_dispatch svc methname req w =
     (case sv_methods svc methname of
        Some f \<Rightarrow> (case f w (rq_args req) of (w, reply) \<Rightarrow> Inr (w, \<lparr>rp_ok = True, rp_reply = Some reply\<rparr>))
      | None \<Rightarrow> Inl (Fatal ''labrpc.Service.dispatch(): unknown method''))"

record ('w, 'm) Server =
  sr_services :: "string \<rightharpoonup> ('w, 'm) Service"
  sr_count :: int

definition MakeServer :: "('w, 'm) Server" where
  "MakeServer = \<lparr>sr_services = Map.empty, sr_count = 0\<rparr>"

definition AddService :: "('w, 'm) Server \<Rightarrow> ('w, 'm) Service \<Rightarrow> ('w, 'm) Server" where
  "AddService rs svc = rs\<lparr>sr_services := (sr_services rs)(sv_name svc \<mapsto> svc)\<rparr>"

text \<open>\<open>strings.LastIndex\<close> for a single character, and minus one if it does not occur.\<close>

fun LastIndex :: "string \<Rightarrow> char \<Rightarrow> int" where
  "LastIndex [] c = -1"
| "LastIndex (x # xs) c = (let i = LastIndex xs c in if i \<ge> 0 then i + 1 else if x = c then 0 else -1)"

definition Server_dispatch :: "('w, 'm) Server \<Rightarrow> ('n, 'm) reqMsg \<Rightarrow> 'w \<Rightarrow> (('w, 'm) Server \<times> 'w \<times> 'm replyMsg) result" where
  "Server_dispatch rs req w =
     (let rs = rs\<lparr>sr_count := sr_count rs + 1\<rparr>; dot = LastIndex (rq_svcMeth req) CHR ''.'' in
      rbind (slice_of (rq_svcMeth req) 0 dot) (\<lambda>serviceName.
      rbind (slice_of (rq_svcMeth req) (dot + 1) (int (length (rq_svcMeth req)))) (\<lambda>methodName.
        case sr_services rs serviceName of
          Some service \<Rightarrow> rbind (Service_dispatch service methodName req w) (\<lambda>(w, r). Inr (rs, w, r))
        | None \<Rightarrow> Inl (Fatal ''labrpc.Server.dispatch(): unknown service''))))"

definition Server_GetCount :: "('w, 'm) Server \<Rightarrow> int" where
  "Server_GetCount rs = sr_count rs"

subsection \<open>The network\<close>

record 'n Network =
  nw_reliable :: bool
  nw_longDelays :: bool
  nw_longReordering :: bool
  nw_ends :: "'n set"
  nw_enabled :: "'n \<rightharpoonup> bool"
  nw_servers :: "'n \<rightharpoonup> nat option"
  nw_connections :: "'n \<rightharpoonup> 'n option"
  nw_done :: bool
  nw_count :: "32 word"

definition MakeNetwork :: "'n Network" where
  "MakeNetwork = \<lparr>nw_reliable = True, nw_longDelays = False, nw_longReordering = False, nw_ends = {}, nw_enabled = Map.empty,
     nw_servers = Map.empty, nw_connections = Map.empty, nw_done = False, nw_count = 0\<rparr>"

definition Cleanup :: "'n Network \<Rightarrow> 'n Network result" where
  "Cleanup rn = (if nw_done rn then Inl (Panicked ''close of closed channel'') else Inr (rn\<lparr>nw_done := True\<rparr>))"

definition Reliable :: "'n Network \<Rightarrow> bool \<Rightarrow> 'n Network" where
  "Reliable rn yes = rn\<lparr>nw_reliable := yes\<rparr>"

definition LongReordering :: "'n Network \<Rightarrow> bool \<Rightarrow> 'n Network" where
  "LongReordering rn yes = rn\<lparr>nw_longReordering := yes\<rparr>"

definition LongDelays :: "'n Network \<Rightarrow> bool \<Rightarrow> 'n Network" where
  "LongDelays rn yes = rn\<lparr>nw_longDelays := yes\<rparr>"

definition ReadEndnameInfo :: "'n Network \<Rightarrow> 'n \<Rightarrow> bool \<times> 'n option \<times> nat option \<times> bool \<times> bool" where
  "ReadEndnameInfo rn endname =
     (let enabled = mget False (nw_enabled rn) endname; servername = mget None (nw_connections rn) endname;
          server = (case servername of None \<Rightarrow> None | Some s \<Rightarrow> mget None (nw_servers rn) s)
      in (enabled, servername, server, nw_reliable rn, nw_longReordering rn))"

definition IsServerDead :: "'n Network \<Rightarrow> 'n \<Rightarrow> 'n \<Rightarrow> nat \<Rightarrow> bool" where
  "IsServerDead rn endname servername server \<longleftrightarrow>
     mget False (nw_enabled rn) endname = False \<or> mget None (nw_servers rn) servername \<noteq> Some server"

definition MakeEnd :: "'n Network \<Rightarrow> 'n \<Rightarrow> 'n Network result" where
  "MakeEnd rn endname =
     (if endname \<in> nw_ends rn then Inl (Fatal ''MakeEnd: already exists'')
      else Inr (rn\<lparr>nw_ends := insert endname (nw_ends rn), nw_enabled := (nw_enabled rn)(endname \<mapsto> False),
        nw_connections := (nw_connections rn)(endname \<mapsto> None)\<rparr>))"

definition AddServer :: "'n Network \<Rightarrow> 'n \<Rightarrow> nat \<Rightarrow> 'n Network" where
  "AddServer rn servername rs = rn\<lparr>nw_servers := (nw_servers rn)(servername \<mapsto> Some rs)\<rparr>"

definition DeleteServer :: "'n Network \<Rightarrow> 'n \<Rightarrow> 'n Network" where
  "DeleteServer rn servername = rn\<lparr>nw_servers := (nw_servers rn)(servername \<mapsto> None)\<rparr>"

definition Connect :: "'n Network \<Rightarrow> 'n \<Rightarrow> 'n \<Rightarrow> 'n Network" where
  "Connect rn endname servername = rn\<lparr>nw_connections := (nw_connections rn)(endname \<mapsto> Some servername)\<rparr>"

definition Enable :: "'n Network \<Rightarrow> 'n \<Rightarrow> bool \<Rightarrow> 'n Network" where
  "Enable rn endname enabled = rn\<lparr>nw_enabled := (nw_enabled rn)(endname \<mapsto> enabled)\<rparr>"

definition Network_GetCount :: "'n Network \<Rightarrow> (nat \<Rightarrow> ('w, 'm) Server) \<Rightarrow> 'n \<Rightarrow> int result" where
  "Network_GetCount rn store servername =
     (case mget None (nw_servers rn) servername of
        None \<Rightarrow> Inl (Panicked ''nil pointer dereference'')
      | Some a \<Rightarrow> Inr (Server_GetCount (store a)))"

definition GetTotalCount :: "'n Network \<Rightarrow> int" where
  "GetTotalCount rn = sint (nw_count rn)"

definition accept_request :: "'n Network \<Rightarrow> 'n Network" where
  "accept_request rn = rn\<lparr>nw_count := nw_count rn + 1\<rparr>"

subsection \<open>A request\<close>

text \<open>The choices behind one request: two random numbers, the network at each poll while the handler runs, whether the
  handler returns after these polls, and the network at the end of the wait.\<close>

record 'n choices =
  ch_drop_request :: nat
  ch_polls :: "'n Network list"
  ch_returns :: bool
  ch_final :: "'n Network"
  ch_drop_reply :: nat

text \<open>The wait ends with a reply, at a poll that finds the server dead, or not at all.\<close>

fun await :: "'n \<Rightarrow> 'n \<Rightarrow> nat \<Rightarrow> bool \<Rightarrow> 'n Network list \<Rightarrow> bool option" where
  "await endname servername server returns [] = (if returns then Some True else None)"
| "await endname servername server returns (rn # polls) =
     (if IsServerDead rn endname servername server then Some False else await endname servername server returns polls)"

text \<open>The result has the world after the handler, if it was called, and the reply, unless the request is still
  waiting.\<close>

definition ProcessReq ::
  "'n Network \<Rightarrow> (nat \<Rightarrow> ('w, 'm) Server) \<Rightarrow> 'n choices \<Rightarrow> ('n, 'm) reqMsg \<Rightarrow> 'w \<Rightarrow>
     ((nat \<Rightarrow> ('w, 'm) Server) \<times> 'w \<times> 'm replyMsg option) result" where
  "ProcessReq rn store ch req w =
     (case ReadEndnameInfo rn (rq_endname req) of (enabled, servername, server, reliable, longreordering) \<Rightarrow>
      case (servername, server) of
        (Some s, Some a) \<Rightarrow>
          if \<not> enabled then Inr (store, w, Some no_reply)
          else if reliable = False \<and> ch_drop_request ch mod 1000 < 100 then Inr (store, w, Some no_reply)
          else rbind (Server_dispatch (store a) req w) (\<lambda>(rs, w, reply).
            let store = store(a := rs) in
            case await (rq_endname req) s a (ch_returns ch) (ch_polls ch) of
              None \<Rightarrow> Inr (store, w, None)
            | Some replyOK \<Rightarrow>
                let serverDead = IsServerDead (ch_final ch) (rq_endname req) s a in
                if replyOK = False \<or> serverDead then Inr (store, w, Some no_reply)
                else if reliable = False \<and> ch_drop_reply ch mod 1000 < 100 then Inr (store, w, Some no_reply)
                else Inr (store, w, Some reply))
      | _ \<Rightarrow> Inr (store, w, Some no_reply))"

text \<open>The client's side: the encoding of the arguments, the request, and the decoding of the reply.\<close>

definition Call_rpc ::
  "('a \<Rightarrow> 'm) \<Rightarrow> ('m \<Rightarrow> 'r option) \<Rightarrow> 'n Network \<Rightarrow> (nat \<Rightarrow> ('w, 'm) Server) \<Rightarrow> 'n choices \<Rightarrow> 'n \<Rightarrow> string \<Rightarrow> 'a \<Rightarrow> 'w \<Rightarrow>
     ((nat \<Rightarrow> ('w, 'm) Server) \<times> 'w \<times> 'r option) result" where
  "Call_rpc encode decode rn store ch endname svcMeth args w =
     (if nw_done rn then Inr (store, w, None)
      else rbind (ProcessReq (accept_request rn) store ch \<lparr>rq_endname = endname, rq_svcMeth = svcMeth, rq_args = encode args\<rparr> w) (\<lambda>(store, w, rep).
        case rep of
          None \<Rightarrow> Inl Blocked
        | Some rep \<Rightarrow>
            if rp_ok rep then
              (case rp_reply rep of
                 None \<Rightarrow> Inl (Fatal ''ClientEnd.Call(): decode reply'')
               | Some m \<Rightarrow> (case decode m of None \<Rightarrow> Inl (Fatal ''ClientEnd.Call(): decode reply'') | Some r \<Rightarrow> Inr (store, w, Some r)))
            else Inr (store, w, None)))"

subsection \<open>Which handler runs\<close>

lemma LastIndex_none: "c \<notin> set xs \<Longrightarrow> LastIndex xs c = -1"
  by (induction xs) (auto simp: Let_def)

lemma LastIndex_append: "c \<notin> set ys \<Longrightarrow> LastIndex (xs @ c # ys) c = int (length xs)"
proof (induction xs)
  case Nil
  then show ?case using LastIndex_none [of c ys] by (simp add: Let_def)
qed (simp add: Let_def)

text \<open>The handler of a method on a server.\<close>

definition handler_of :: "('w, 'm) Server \<Rightarrow> string \<Rightarrow> string \<Rightarrow> ('w \<Rightarrow> 'm \<Rightarrow> 'w \<times> 'm) option" where
  "handler_of rs svc meth = Option.bind (sr_services rs svc) (\<lambda>sv. sv_methods sv meth)"

lemma Server_dispatch_names:
  assumes "CHR ''.'' \<notin> set meth" "rq_svcMeth req = svc @ ''.'' @ meth" "handler_of rs svc meth = Some f" "f w (rq_args req) = (w', m)"
  shows "Server_dispatch rs req w = Inr (rs\<lparr>sr_count := sr_count rs + 1\<rparr>, w', \<lparr>rp_ok = True, rp_reply = Some m\<rparr>)"
proof -
  have "LastIndex (rq_svcMeth req) CHR ''.'' = int (length svc)" using LastIndex_append [OF assms(1), of svc] assms(2) by simp
  moreover obtain sv where "sr_services rs svc = Some sv" "sv_methods sv meth = Some f"
    using assms(3) by (auto simp: handler_of_def bind_eq_Some_conv)
  moreover have "nat (1 + int (length svc)) = Suc (length svc)" by simp
  ultimately show ?thesis using assms(2,4)
    by (simp add: Server_dispatch_def Service_dispatch_def slice_of_def Let_def add.commute)
qed

lemma Server_dispatch_Inr:
  assumes "Server_dispatch rs req w = Inr (rs', w', r)"
  shows "\<exists>svc meth f m. rq_svcMeth req = svc @ ''.'' @ meth \<and> CHR ''.'' \<notin> set meth \<and> handler_of rs svc meth = Some f \<and> f w (rq_args req) = (w', m) \<and>
    rs' = rs\<lparr>sr_count := sr_count rs + 1\<rparr> \<and> r = \<lparr>rp_ok = True, rp_reply = Some m\<rparr>"
proof -
  have dot: "CHR ''.'' \<in> set (rq_svcMeth req)"
  proof (rule ccontr)
    assume "CHR ''.'' \<notin> set (rq_svcMeth req)"
    then have "LastIndex (rq_svcMeth req) CHR ''.'' = -1" using LastIndex_none by blast
    then show False using assms by (simp add: Server_dispatch_def slice_of_def Let_def)
  qed
  then obtain svc meth where m: "rq_svcMeth req = svc @ CHR ''.'' # meth" "CHR ''.'' \<notin> set meth" by (metis split_list_last)
  have "LastIndex (rq_svcMeth req) CHR ''.'' = int (length svc)" unfolding m(1) by (rule LastIndex_append [OF m(2)])
  moreover have "nat (1 + int (length svc)) = Suc (length svc)" by simp
  ultimately obtain sv f where "sr_services rs svc = Some sv" "sv_methods sv meth = Some f" "rs' = rs\<lparr>sr_count := sr_count rs + 1\<rparr>"
    "w' = fst (f w (rq_args req))" "r = \<lparr>rp_ok = True, rp_reply = Some (snd (f w (rq_args req)))\<rparr>"
    using assms m(1) by (auto simp: Server_dispatch_def Service_dispatch_def slice_of_def Let_def add.commute split: option.splits prod.splits)
  then show ?thesis using m
    by (intro exI [of _ svc] exI [of _ meth] exI [of _ f] exI [of _ "snd (f w (rq_args req))"]) (simp add: handler_of_def)
qed

lemma await_True: "await e s a returns polls = Some True \<Longrightarrow> returns \<and> (\<forall>rn \<in> set polls. \<not> IsServerDead rn e s a)"
  by (induction polls) (auto split: if_splits)

lemma await_alive: "returns \<Longrightarrow> \<forall>rn \<in> set polls. \<not> IsServerDead rn e s a \<Longrightarrow> await e s a returns polls = Some True"
  by (induction polls) auto

text \<open>The server object that an end reaches, if the end is enabled.\<close>

definition reaches :: "'n Network \<Rightarrow> 'n \<Rightarrow> 'n \<Rightarrow> nat \<Rightarrow> bool" where
  "reaches rn endname s a \<longleftrightarrow> mget False (nw_enabled rn) endname \<and> mget None (nw_connections rn) endname = Some s \<and> mget None (nw_servers rn) s = Some a"

lemma ProcessReq_cases:
  assumes "ProcessReq rn store ch req w = Inr (store', w', rep)"
  obtains (quiet) "store' = store" "w' = w" "rep = Some no_reply"
  | (run) s a rs r where "reaches rn (rq_endname req) s a" "Server_dispatch (store a) req w = Inr (rs, w', r)" "store' = store(a := rs)"
      "rep = None \<or> rep = Some no_reply \<or> rep = Some r \<and> ch_returns ch \<and> \<not> IsServerDead (ch_final ch) (rq_endname req) s a"
proof -
  let ?e = "rq_endname req"
  consider "\<not> (\<exists>s a. reaches rn ?e s a)" | s a where "reaches rn ?e s a" by blast
  then show thesis
  proof cases
    case 1
    then show thesis
      using assms quiet by (auto simp: ProcessReq_def ReadEndnameInfo_def reaches_def Let_def split: option.splits if_splits)
  next
    case 2
    then have info: "ReadEndnameInfo rn ?e = (True, Some s, Some a, nw_reliable rn, nw_longReordering rn)"
      by (simp add: ReadEndnameInfo_def reaches_def)
    show thesis
    proof (cases "nw_reliable rn = False \<and> ch_drop_request ch mod 1000 < 100")
      case True
      then show thesis using assms quiet by (simp add: ProcessReq_def info)
    next
      case False
      then obtain rs w1 r where d: "Server_dispatch (store a) req w = Inr (rs, w1, r)"
        using assms by (cases "Server_dispatch (store a) req w") (auto simp: ProcessReq_def info)
      then have "store' = store(a := rs)" "w' = w1"
        "rep = None \<or> rep = Some no_reply \<or> rep = Some r \<and> ch_returns ch \<and> \<not> IsServerDead (ch_final ch) ?e s a"
        using assms False await_True [of ?e s a "ch_returns ch" "ch_polls ch"]
        by (auto simp: ProcessReq_def info Let_def split: option.splits if_splits)
      then show thesis using run [OF 2] d by simp
    qed
  qed
qed

subsection \<open>Properties of calls\<close>

text \<open>C37: however requests and replies are lost and servers are killed, one request runs its handler at most once: the
  world after it is the world before it, or what the handler of the named method of the server that the end was
  connected to makes of it.\<close>

theorem handler_runs_at_most_once:
  assumes "ProcessReq rn store ch req w = Inr (store', w', rep)"
  shows "(store' = store \<and> w' = w \<and> rep = Some no_reply) \<or>
    (\<exists>s a svc meth f. reaches rn (rq_endname req) s a \<and> rq_svcMeth req = svc @ ''.'' @ meth \<and> CHR ''.'' \<notin> set meth \<and>
       handler_of (store a) svc meth = Some f \<and> w' = fst (f w (rq_args req)) \<and>
       store' = store(a := (store a)\<lparr>sr_count := sr_count (store a) + 1\<rparr>))"
  using assms
proof (cases rule: ProcessReq_cases)
  case (run s a rs r)
  then show ?thesis using Server_dispatch_Inr [OF run(2)] by (metis fst_conv)
qed simp

text \<open>C38: a positive reply is the reply of the handler, and the server was still registered under its name, and the
  end enabled, after the handler had returned: a killed server confirms nothing.\<close>

theorem positive_reply_is_the_handlers:
  assumes "ProcessReq rn store ch req w = Inr (store', w', Some rep)" "rp_ok rep"
  shows "\<exists>s a svc meth f m. reaches rn (rq_endname req) s a \<and> rq_svcMeth req = svc @ ''.'' @ meth \<and> handler_of (store a) svc meth = Some f \<and>
    f w (rq_args req) = (w', m) \<and> rp_reply rep = Some m \<and> \<not> IsServerDead (ch_final ch) (rq_endname req) s a"
  using assms(1)
proof (cases rule: ProcessReq_cases)
  case quiet
  then show ?thesis using assms(2) by simp
next
  case (run s a rs r)
  then have "rep = r" "\<not> IsServerDead (ch_final ch) (rq_endname req) s a" using assms(2) by auto
  then show ?thesis using run(1) Server_dispatch_Inr [OF run(2)] by fastforce
qed

text \<open>C39: on a reliable network a call from an enabled end to a server that lives until the handler has returned gives
  the handler's reply, if the encoding of arguments and replies can be undone.\<close>

theorem reliable_call_succeeds:
  assumes "\<not> nw_done rn" "nw_reliable rn" "reaches rn e s a" "ch_returns ch" "\<forall>n \<in> set (ch_final ch # ch_polls ch). \<not> IsServerDead n e s a"
    and "handler_of (store a) svc meth = Some f" "CHR ''.'' \<notin> set meth" "f w (encode args) = (w', m)" "decode m = Some r"
  shows "Call_rpc encode decode rn store ch e (svc @ ''.'' @ meth) args w =
    Inr (store(a := (store a)\<lparr>sr_count := sr_count (store a) + 1\<rparr>), w', Some r)"
proof -
  let ?req = "\<lparr>rq_endname = e, rq_svcMeth = svc @ ''.'' @ meth, rq_args = encode args\<rparr>"
  have "ReadEndnameInfo (accept_request rn) e = (True, Some s, Some a, True, nw_longReordering rn)"
    using assms(2,3) by (simp add: ReadEndnameInfo_def reaches_def accept_request_def)
  moreover have "Server_dispatch (store a) ?req w = Inr ((store a)\<lparr>sr_count := sr_count (store a) + 1\<rparr>, w', \<lparr>rp_ok = True, rp_reply = Some m\<rparr>)"
    by (rule Server_dispatch_names [OF assms(7) _ assms(6)]) (use assms(8) in simp_all)
  moreover have "await e s a (ch_returns ch) (ch_polls ch) = Some True" by (rule await_alive) (use assms(4,5) in simp_all)
  ultimately have "ProcessReq (accept_request rn) store ch ?req w =
      Inr (store(a := (store a)\<lparr>sr_count := sr_count (store a) + 1\<rparr>), w', Some \<lparr>rp_ok = True, rp_reply = Some m\<rparr>)"
    using assms(5) by (simp add: ProcessReq_def Let_def)
  then show ?thesis using assms(1,9) by (simp add: Call_rpc_def)
qed

text \<open>A counter service on a network with one end.\<close>

definition sample_network :: "nat Network" where
  "sample_network = Enable (Connect (AddServer (MakeNetwork\<lparr>nw_ends := {1}\<rparr>) 9 0) 1 9) 1 True"

definition sample_server :: "(int, int) Server" where
  "sample_server = AddService MakeServer (MakeService ''Counter''
     [\<lparr>rm_name = ''Add'', rm_exported = True, rm_NumIn = 3, rm_In2_is_ptr = True, rm_NumOut = 0, rm_func = (\<lambda>w x. (w + x, w))\<rparr>])"

definition sample_choices :: "nat choices" where
  "sample_choices = \<lparr>ch_drop_request = 0, ch_polls = [sample_network], ch_returns = True, ch_final = sample_network, ch_drop_reply = 0\<rparr>"

lemma sample_call_facts:
  "reaches sample_network 1 9 0" "\<not> nw_done sample_network" "nw_reliable sample_network"
  "\<forall>n \<in> set (ch_final sample_choices # ch_polls sample_choices). \<not> IsServerDead n 1 9 0" "ch_returns sample_choices"
  "handler_of sample_server ''Counter'' ''Add'' = Some (\<lambda>w x. (w + x, w))"
  by (simp_all add: reaches_def sample_network_def MakeNetwork_def Enable_def Connect_def AddServer_def sample_choices_def IsServerDead_def
      handler_of_def sample_server_def AddService_def MakeServer_def MakeService_def)

theorem reliable_call_succeeds_witness:
  "Call_rpc (\<lambda>x. x) Some sample_network (\<lambda>_. sample_server) sample_choices 1 (''Counter'' @ ''.'' @ ''Add'') 5 7 =
    Inr ((\<lambda>_. sample_server)(0 := sample_server\<lparr>sr_count := sr_count sample_server + 1\<rparr>), 12, Some 7)"
  by (rule reliable_call_succeeds [OF sample_call_facts(2,3,1,5,4,6)]) simp_all

lemma sample_request:
  "ProcessReq sample_network (\<lambda>_. sample_server) sample_choices \<lparr>rq_endname = 1, rq_svcMeth = ''Counter.Add'', rq_args = 5\<rparr> 7 =
    Inr ((\<lambda>_. sample_server)(0 := sample_server\<lparr>sr_count := sr_count sample_server + 1\<rparr>), 12, Some \<lparr>rp_ok = True, rp_reply = Some 7\<rparr>)"
proof -
  let ?req = "\<lparr>rq_endname = 1, rq_svcMeth = ''Counter.Add'', rq_args = 5\<rparr> :: (nat, int) reqMsg"
  have "ReadEndnameInfo sample_network 1 = (True, Some 9, Some 0, True, nw_longReordering sample_network)"
    using sample_call_facts(1,3) by (simp add: ReadEndnameInfo_def reaches_def)
  moreover have "Server_dispatch sample_server ?req 7 = Inr (sample_server\<lparr>sr_count := sr_count sample_server + 1\<rparr>, 12, \<lparr>rp_ok = True, rp_reply = Some 7\<rparr>)"
    by (rule Server_dispatch_names [OF _ _ sample_call_facts(6)]) simp_all
  moreover have "await 1 9 0 (ch_returns sample_choices) (ch_polls sample_choices) = Some True"
    by (rule await_alive) (use sample_call_facts(4,5) in simp_all)
  ultimately show ?thesis using sample_call_facts(4) by (simp add: ProcessReq_def Let_def)
qed

theorem handler_runs_at_most_once_witness:
  "((\<lambda>_. sample_server)(0 := sample_server\<lparr>sr_count := sr_count sample_server + 1\<rparr>) = (\<lambda>_. sample_server) \<and> (12 :: int) = 7 \<and>
      Some \<lparr>rp_ok = True, rp_reply = Some (7 :: int)\<rparr> = Some no_reply) \<or>
   (\<exists>s a svc meth f. reaches sample_network 1 s a \<and> ''Counter.Add'' = svc @ ''.'' @ meth \<and> CHR ''.'' \<notin> set meth \<and>
     handler_of sample_server svc meth = Some f \<and> 12 = fst (f 7 5) \<and>
     (\<lambda>_. sample_server)(0 := sample_server\<lparr>sr_count := sr_count sample_server + 1\<rparr>) = (\<lambda>_. sample_server)(a := sample_server\<lparr>sr_count := sr_count sample_server + 1\<rparr>))"
  using handler_runs_at_most_once [OF sample_request] by simp

theorem positive_reply_is_the_handlers_witness:
  "\<exists>s a svc meth f m. reaches sample_network 1 s a \<and> ''Counter.Add'' = svc @ ''.'' @ meth \<and> handler_of sample_server svc meth = Some f \<and>
    f 7 5 = (12, m) \<and> Some 7 = Some m \<and> \<not> IsServerDead (ch_final sample_choices) 1 s a"
  using positive_reply_is_the_handlers [OF sample_request] by simp

end
