(* ===== verification/Lab_Gob.thy ===== *)
theory Lab_Gob
  imports Go_Prelude
begin

section \<open>The encoder wrapper\<close>

text \<open>
  \<^verbatim>\<open>src/labgob/labgob.go\<close>. What reflection gives of a type is a table from type numbers to their kinds, so that types
  may refer to each other; of a value, its tree. The package variables \<open>checked\<close> and \<open>errorCount\<close> and the printed
  warnings are the state; the encoder of \<open>encoding/gob\<close> is an argument. Field names are ASCII. The recursion of
  \<open>checkType\<close> has fuel, and more fuel than there are unchecked types is enough.
\<close>

subsection \<open>State\<close>

datatype go_type =
    TStruct "(string \<times> nat) list"
  | TElem nat
  | TMap nat nat
  | TBasic

datatype go_value =
    VStruct "(string \<times> go_value) list"
  | VPtr "go_value option"
  | VBasic string bool
  | VOther

record gob_state =
  gs_checked :: "nat set"
  gs_errorCount :: int
  gs_warnings :: "string list"

definition isUpper_name :: "string \<Rightarrow> bool" where
  "isUpper_name s \<longleftrightarrow> s \<noteq> [] \<and> 65 \<le> (of_char (hd s) :: nat) \<and> (of_char (hd s) :: nat) \<le> 90"

subsection \<open>Checking types\<close>

fun checkType :: "nat \<Rightarrow> (nat \<Rightarrow> go_type) \<Rightarrow> gob_state \<Rightarrow> nat \<Rightarrow> gob_state option"
  and check_fields :: "nat \<Rightarrow> (nat \<Rightarrow> go_type) \<Rightarrow> gob_state \<Rightarrow> (string \<times> nat) list \<Rightarrow> gob_state option" where
  "checkType 0 types st t = None"
| "checkType (Suc n) types st t =
     (if t \<in> gs_checked st then Some st
      else let st = st\<lparr>gs_checked := insert t (gs_checked st)\<rparr> in
        case types t of
          TStruct fs \<Rightarrow> check_fields n types st fs
        | TElem e \<Rightarrow> checkType n types st e
        | TMap e k \<Rightarrow> (case checkType n types st e of None \<Rightarrow> None | Some st \<Rightarrow> checkType n types st k)
        | TBasic \<Rightarrow> Some st)"
| "check_fields n types st [] = Some st"
| "check_fields n types st ((f, t) # fs) =
     (let st = (if isUpper_name f then st else st\<lparr>gs_errorCount := gs_errorCount st + 1, gs_warnings := gs_warnings st @ [f]\<rparr>) in
      case checkType n types st t of None \<Rightarrow> None | Some st \<Rightarrow> check_fields n types st fs)"

subsection \<open>Checking for default values\<close>

definition warn_nondefault :: "gob_state \<Rightarrow> string \<Rightarrow> string \<Rightarrow> gob_state" where
  "warn_nondefault st name tname =
     (let st = (if gs_errorCount st < 1 then st\<lparr>gs_warnings := gs_warnings st @ [if name = [] then tname else name]\<rparr> else st)
      in st\<lparr>gs_errorCount := gs_errorCount st + 1\<rparr>)"

fun checkDefault1 :: "go_value \<Rightarrow> nat \<Rightarrow> string \<Rightarrow> gob_state \<Rightarrow> gob_state"
  and default_fields :: "(string \<times> go_value) list \<Rightarrow> nat \<Rightarrow> string \<Rightarrow> gob_state \<Rightarrow> gob_state" where
  "checkDefault1 (VStruct fs) depth name st = (if depth > 3 then st else default_fields fs depth name st)"
| "checkDefault1 (VPtr None) depth name st = st"
| "checkDefault1 (VPtr (Some v)) depth name st = (if depth > 3 then st else checkDefault1 v (depth + 1) name st)"
| "checkDefault1 (VBasic tname isdefault) depth name st =
     (if depth > 3 then st else if isdefault then st else warn_nondefault st name tname)"
| "checkDefault1 VOther depth name st = st"
| "default_fields [] depth name st = st"
| "default_fields ((f, v) # fs) depth name st =
     default_fields fs depth name (checkDefault1 v (depth + 1) (if name \<noteq> [] then name @ ''.'' @ f else f) st)"

definition checkDefault :: "go_value option \<Rightarrow> gob_state \<Rightarrow> gob_state" where
  "checkDefault v st = (case v of None \<Rightarrow> st | Some v \<Rightarrow> checkDefault1 v 1 [] st)"

subsection \<open>Encoding and decoding\<close>

definition checkValue :: "nat \<Rightarrow> (nat \<Rightarrow> go_type) \<Rightarrow> gob_state \<Rightarrow> nat \<Rightarrow> gob_state option" where
  "checkValue fuel types st t = checkType fuel types st t"

text \<open>Values of type number \<open>t\<close>; the buffer is what the encoder has written so far.\<close>

definition Encode :: "('b \<Rightarrow> 'v \<Rightarrow> 'b option) \<Rightarrow> nat \<Rightarrow> (nat \<Rightarrow> go_type) \<Rightarrow> gob_state \<Rightarrow> 'b \<Rightarrow> nat \<Rightarrow> 'v \<Rightarrow> (gob_state \<times> 'b option) option" where
  "Encode gob_Encode fuel types st buf t e = map_option (\<lambda>st. (st, gob_Encode buf e)) (checkValue fuel types st t)"

definition EncodeValue :: "('b \<Rightarrow> 'v \<Rightarrow> 'b option) \<Rightarrow> nat \<Rightarrow> (nat \<Rightarrow> go_type) \<Rightarrow> gob_state \<Rightarrow> 'b \<Rightarrow> nat \<Rightarrow> 'v \<Rightarrow> (gob_state \<times> 'b option) option" where
  "EncodeValue gob_EncodeValue fuel types st buf t e = map_option (\<lambda>st. (st, gob_EncodeValue buf e)) (checkValue fuel types st t)"

definition Decode ::
  "('b \<Rightarrow> ('v \<times> 'b) option) \<Rightarrow> nat \<Rightarrow> (nat \<Rightarrow> go_type) \<Rightarrow> gob_state \<Rightarrow> 'b \<Rightarrow> nat \<Rightarrow> go_value option \<Rightarrow> (gob_state \<times> ('v \<times> 'b) option) option" where
  "Decode gob_Decode fuel types st buf t target =
     map_option (\<lambda>st. (checkDefault target st, gob_Decode buf)) (checkValue fuel types st t)"

definition gob_Register :: "nat \<Rightarrow> (nat \<Rightarrow> go_type) \<Rightarrow> gob_state \<Rightarrow> nat set \<Rightarrow> nat \<Rightarrow> (gob_state \<times> nat set) option" where
  "gob_Register fuel types st registered t = map_option (\<lambda>st. (st, insert t registered)) (checkValue fuel types st t)"

definition gob_RegisterName ::
  "nat \<Rightarrow> (nat \<Rightarrow> go_type) \<Rightarrow> gob_state \<Rightarrow> (string \<rightharpoonup> nat) \<Rightarrow> string \<Rightarrow> nat \<Rightarrow> (gob_state \<times> (string \<rightharpoonup> nat)) option" where
  "gob_RegisterName fuel types st names name t = map_option (\<lambda>st. (st, names(name \<mapsto> t))) (checkValue fuel types st t)"

subsection \<open>Every type is checked once\<close>

text \<open>The types a type refers to, and the number of its fields that will not be sent.\<close>

definition refs :: "go_type \<Rightarrow> nat set" where
  "refs ty = (case ty of TStruct fs \<Rightarrow> snd ` set fs | TElem e \<Rightarrow> {e} | TMap e k \<Rightarrow> {e, k} | TBasic \<Rightarrow> {})"

definition lower_fields :: "(string \<times> nat) list \<Rightarrow> nat" where
  "lower_fields fs = length (filter (\<lambda>(f, t). \<not> isUpper_name f) fs)"

definition lower_in :: "go_type \<Rightarrow> nat" where
  "lower_in ty = (case ty of TStruct fs \<Rightarrow> lower_fields fs | _ \<Rightarrow> 0)"

definition closed_types :: "(nat \<Rightarrow> go_type) \<Rightarrow> nat set \<Rightarrow> bool" where
  "closed_types types T \<longleftrightarrow> finite T \<and> (\<forall>t \<in> T. refs (types t) \<subseteq> T)"

text \<open>From \<open>st\<close> to \<open>st'\<close> only types of \<open>T\<close> are checked, and the errors are those of the newly checked types and \<open>k\<close> more.\<close>

definition extends_by :: "(nat \<Rightarrow> go_type) \<Rightarrow> nat set \<Rightarrow> nat \<Rightarrow> gob_state \<Rightarrow> gob_state \<Rightarrow> bool" where
  "extends_by types T k st st' \<longleftrightarrow> gs_checked st \<subseteq> gs_checked st' \<and> gs_checked st' - gs_checked st \<subseteq> T \<and>
     gs_errorCount st' = gs_errorCount st + int k + (\<Sum>u \<in> gs_checked st' - gs_checked st. int (lower_in (types u)))"

lemma extends_refl: "extends_by types T 0 st st"
  by (simp add: extends_by_def)

lemma extends_trans:
  assumes "finite T" "extends_by types T j st st1" "extends_by types T k st1 st2"
  shows "extends_by types T (j + k) st st2"
proof -
  have split: "gs_checked st2 - gs_checked st = (gs_checked st1 - gs_checked st) \<union> (gs_checked st2 - gs_checked st1)"
    using assms(2,3) by (auto simp: extends_by_def)
  have "finite (gs_checked st1 - gs_checked st)" "finite (gs_checked st2 - gs_checked st1)"
    using assms by (auto simp: extends_by_def intro: finite_subset)
  then have "(\<Sum>u \<in> gs_checked st2 - gs_checked st. int (lower_in (types u))) =
      (\<Sum>u \<in> gs_checked st1 - gs_checked st. int (lower_in (types u))) + (\<Sum>u \<in> gs_checked st2 - gs_checked st1. int (lower_in (types u)))"
    unfolding split by (intro sum.union_disjoint) auto
  then show ?thesis using assms(2,3) by (auto simp: extends_by_def)
qed

lemma fewer_unchecked: "finite T \<Longrightarrow> extends_by types T k st st' \<Longrightarrow> card (T - gs_checked st') \<le> card (T - gs_checked st)"
  by (rule card_mono) (auto simp: extends_by_def)

lemma extends_mark:
  assumes "finite T" "t \<in> T" "t \<notin> gs_checked st" "extends_by types T (lower_in (types t)) (st\<lparr>gs_checked := insert t (gs_checked st)\<rparr>) st'"
  shows "extends_by types T 0 st st' \<and> t \<in> gs_checked st'"
proof -
  let ?new = "gs_checked st' - insert t (gs_checked st)"
  have sub: "insert t (gs_checked st) \<subseteq> gs_checked st'" "?new \<subseteq> T" using assms(4) by (simp_all add: extends_by_def)
  then have split: "gs_checked st' - gs_checked st = insert t ?new" using assms(3) by auto
  have "finite ?new" using sub(2) assms(1) by (rule finite_subset)
  then have "(\<Sum>u \<in> gs_checked st' - gs_checked st. int (lower_in (types u))) = int (lower_in (types t)) + (\<Sum>u \<in> ?new. int (lower_in (types u)))"
    unfolding split by simp
  moreover have "gs_errorCount st' = gs_errorCount st + int (lower_in (types t)) + (\<Sum>u \<in> ?new. int (lower_in (types u)))"
    using assms(4) by (simp add: extends_by_def)
  ultimately have "gs_errorCount st' = gs_errorCount st + (\<Sum>u \<in> gs_checked st' - gs_checked st. int (lower_in (types u)))" by linarith
  moreover have "gs_checked st' - gs_checked st \<subseteq> T" using sub(2) assms(2) unfolding split by blast
  ultimately show ?thesis using sub(1) by (simp add: extends_by_def)
qed

lemma check_fields_ok:
  assumes fin: "finite T"
    and IH: "\<And>st t. t \<in> T \<Longrightarrow> card (T - gs_checked st) < n \<Longrightarrow> \<exists>st'. checkType n types st t = Some st' \<and> extends_by types T 0 st st'"
  shows "snd ` set fs \<subseteq> T \<Longrightarrow> card (T - gs_checked st) < n \<Longrightarrow>
    \<exists>st'. check_fields n types st fs = Some st' \<and> extends_by types T (lower_fields fs) st st'"
proof (induction fs arbitrary: st)
  case Nil
  then show ?case by (simp add: lower_fields_def extends_refl)
next
  case (Cons x fs)
  obtain f t where x: "x = (f, t)" by fastforce
  define st0 where "st0 = (if isUpper_name f then st else st\<lparr>gs_errorCount := gs_errorCount st + 1, gs_warnings := gs_warnings st @ [f]\<rparr>)"
  have e0: "extends_by types T (lower_fields [x]) st st0" by (simp add: st0_def x extends_by_def lower_fields_def)
  have "t \<in> T" "card (T - gs_checked st0) < n" using Cons.prems by (simp_all add: x st0_def)
  then obtain st1 where st1: "checkType n types st0 t = Some st1" "extends_by types T 0 st0 st1" using IH by blast
  have "card (T - gs_checked st1) < n" using fewer_unchecked [OF fin st1(2)] \<open>card (T - gs_checked st0) < n\<close> by simp
  then obtain st2 where st2: "check_fields n types st1 fs = Some st2" "extends_by types T (lower_fields fs) st1 st2"
    using Cons.IH [of st1] Cons.prems(1) by auto
  have "extends_by types T (lower_fields [x] + 0 + lower_fields fs) st st2"
    by (rule extends_trans [OF fin extends_trans [OF fin e0 st1(2)] st2(2)])
  moreover have "lower_fields [x] + 0 + lower_fields fs = lower_fields (x # fs)" by (simp add: lower_fields_def)
  moreover have "check_fields n types st (x # fs) = Some st2" using st1(1) st2(1) by (simp add: x st0_def Let_def)
  ultimately show ?case by simp
qed

lemma checkType_ok:
  assumes closed: "closed_types types T"
  shows "t \<in> T \<Longrightarrow> card (T - gs_checked st) < n \<Longrightarrow> \<exists>st'. checkType n types st t = Some st' \<and> extends_by types T 0 st st' \<and> t \<in> gs_checked st'"
proof (induction n arbitrary: st t)
  case (Suc n)
  have fin: "finite T" and refs: "refs (types t) \<subseteq> T" using closed Suc.prems(1) by (auto simp: closed_types_def)
  show ?case
  proof (cases "t \<in> gs_checked st")
    case True
    then show ?thesis by (simp add: extends_refl)
  next
    case False
    let ?st = "st\<lparr>gs_checked := insert t (gs_checked st)\<rparr>"
    have "card (T - gs_checked ?st) < card (T - gs_checked st)"
      using fin False Suc.prems(1) by (intro psubset_card_mono) auto
    then have room: "card (T - gs_checked ?st) < n" using Suc.prems(2) by simp
    have IH: "\<exists>st'. checkType n types s u = Some st' \<and> extends_by types T 0 s st'" if "u \<in> T" "card (T - gs_checked s) < n" for s u
      using Suc.IH [OF that] by blast
    have "\<exists>st'. checkType (Suc n) types st t = Some st' \<and> extends_by types T (lower_in (types t)) ?st st'"
    proof (cases "types t")
      case (TStruct fs)
      have "snd ` set fs \<subseteq> T" using refs by (simp add: TStruct refs_def)
      then show ?thesis using check_fields_ok [OF fin IH _ room, of fs] False by (simp add: TStruct lower_in_def)
    next
      case (TElem e)
      have "e \<in> T" using refs by (simp add: TElem refs_def)
      from IH [OF this room] show ?thesis using False by (simp add: TElem lower_in_def)
    next
      case (TMap e k)
      have "e \<in> T" and k: "k \<in> T" using refs by (simp_all add: TMap refs_def)
      then obtain st1 where st1: "checkType n types ?st e = Some st1" "extends_by types T 0 ?st st1" using IH room by blast
      have "card (T - gs_checked st1) < n" using fewer_unchecked [OF fin st1(2)] room by simp
      then obtain st2 where st2: "checkType n types st1 k = Some st2" "extends_by types T 0 st1 st2" using IH [OF k] by blast
      show ?thesis using extends_trans [OF fin st1(2) st2(2)] st1(1) st2(1) False by (simp add: TMap lower_in_def)
    next
      case TBasic
      then show ?thesis using False by (simp add: lower_in_def extends_refl)
    qed
    then show ?thesis using extends_mark [OF fin Suc.prems(1) False] by blast
  qed
qed simp


text \<open>A list whose nodes point to the next one and have one lower-case field.\<close>

definition sample_types :: "nat \<Rightarrow> go_type" where
  "sample_types t = (if t = 0 then TStruct [(''Next'', 1), (''val'', 2)] else if t = 1 then TElem 0 else TBasic)"


subsection \<open>Default values\<close>

text \<open>The leaves of a value with their depth and whether they differ from the default.\<close>

fun leaves :: "nat \<Rightarrow> go_value \<Rightarrow> (nat \<times> bool) list" where
  "leaves depth (VStruct fs) = concat (map (\<lambda>(f, v). leaves (depth + 1) v) fs)"
| "leaves depth (VPtr None) = []"
| "leaves depth (VPtr (Some v)) = leaves (depth + 1) v"
| "leaves depth (VBasic tname isdefault) = [(depth, \<not> isdefault)]"
| "leaves depth VOther = []"

definition visible :: "(nat \<times> bool) list \<Rightarrow> nat" where
  "visible ls = length (filter (\<lambda>(depth, nondefault). depth \<le> 3 \<and> nondefault) ls)"

lemma visible_append: "visible (xs @ ys) = visible xs + visible ys"
  by (simp add: visible_def)

lemma visible_deep: "3 < depth \<Longrightarrow> visible (leaves depth v) = 0"
proof (induction depth v rule: leaves.induct)
  case (1 depth fs)
  then have "\<forall>x \<in> set fs. visible (leaves (depth + 1) (snd x)) = 0" by force
  then show ?case by (induction fs) (auto simp: visible_append visible_def)
qed (auto simp: visible_def)

lemma checkDefault1_counts:
  "gs_errorCount (checkDefault1 v depth name st) = gs_errorCount st + int (visible (leaves depth v))"
  "gs_errorCount (default_fields fs depth name st) = gs_errorCount st + int (visible (concat (map (\<lambda>(f, v). leaves (depth + 1) v) fs)))"
proof (induction v depth name st and fs depth name st rule: checkDefault1_default_fields.induct)
  case (1 fs depth name st)
  then show ?case using visible_deep [of depth "VStruct fs"] by auto
next
  case (3 v depth name st)
  then show ?case using visible_deep [of depth "VPtr (Some v)"] by auto
qed (auto simp: warn_nondefault_def Let_def visible_append, auto simp: visible_def)

end
