(* ===== verification/Spec2Isabelle.thy ===== *)
theory Spec2Isabelle
  imports KV_Clerk Shard_Clerks Lin_KV MR_Programs MR_Schedule Lab_RPC Lab_Gob
begin

text \<open>
  A verification library for the MIT 6.824 distributed-systems code under \<^verbatim>\<open>src/src\<close>: a replicated log
  (package \<^verbatim>\<open>raft\<close>), a key/value service on top of it (\<^verbatim>\<open>kvraft\<close>), a configuration service for shards
  (\<^verbatim>\<open>shardmaster\<close>), the sharded store and its clients (\<^verbatim>\<open>shardkv\<close>), the checker for linearizable histories
  (\<^verbatim>\<open>linearizability\<close>), the MapReduce library (\<^verbatim>\<open>mapreduce\<close>) with its programs (\<^verbatim>\<open>main/wc.go\<close>, \<^verbatim>\<open>main/ii.go\<close>), the
  simulated network (\<^verbatim>\<open>labrpc\<close>) and the wrapper of the gob encoder (\<^verbatim>\<open>labgob\<close>).

  \<^bold>\<open>How the parts interact.\<close> A service hands commands to its raft peer with \<open>Start\<close>; the peers elect a
  leader (\<open>RequestVote\<close>), which replicates its log (\<open>AppendEntry\<close>, \<open>InstallSnapShot\<close>); committed commands
  come back, in log order, over the channel \<open>applyCh\<close>; the service applies them to its state and answers the
  clients that wait for them. Clients number their requests, so that a command that got into the log
  twice is executed once. The MapReduce library stands apart: a master runs a map and a reduce phase, in
  sequence or by giving tasks to workers that register with it, and merges the outputs.

  \<^bold>\<open>Conventions\<close> (theory \<open>Go_Prelude\<close>). A panic or an endless block is the left value of a sum; slices are
  lists with the bounds checks of Go written out; maps are partial functions, or association lists where the
  code ranges over them; \<open>int\<close> is unbounded, identifiers and bit sets are words of their width. Code that runs
  under a lock is one definition; a loop around a select is a step function over events; a handler that
  waits is a \<open>begin\<close> and a \<open>poll\<close> definition; what a network call returns is an argument (\<open>None\<close> for a call
  that failed). Streams of the gob encoder are lists of typed values, and their size in bytes is a parameter.

  \<^bold>\<open>Raft\<close> (\<^verbatim>\<open>raft/persister.go\<close>, \<^verbatim>\<open>raft/raft.go\<close>).
  \<^item> \<open>Raft_State\<close>: the record \<open>Raft\<close>, the persister, index arithmetic over a truncated log, \<open>persist\<close> and
    \<open>readPersist\<close>; the well-formedness that every operation keeps.
  \<^item> \<open>Raft_Vote\<close>: \<open>RequestVote\<close> and \<open>CandidateProcess\<close>; exactly when votes are granted, at most one vote per term
    for a follower, shared voters of two winners, and where the code falls short of that.
  \<^item> \<open>Raft_Append\<close>: \<open>AppendEntry\<close>; that it keeps committed entries and delivers them in order, and what an accepted
    call does.
  \<^item> \<open>Raft_Snapshot\<close>: \<open>TakeSnapshots\<close>, \<open>InstallSnapShot\<close>, \<open>sendSnapShot\<close>, \<open>Make\<close>; snapshots keep later entries
    and a restart recovers what is on disk.
  \<^item> \<open>Raft_Leader\<close>: \<open>Start\<close> and \<open>LeaderProcess\<close>; the commit index is the majority's, a replication round copies
    the log, the goroutine per follower ends.
  \<^item> \<open>Raft_Node\<close>: a peer as a transition system whose steps are all these operations; the locale
    \<open>service_promise\<close> is what a service relies on, with one interpretation per operation, and the
    invariant of all reachable states rests on them.

  \<^bold>\<open>Services.\<close>
  \<^item> \<open>Dedup\<close>: the locale \<open>at_most_once\<close>, the contract of a state machine that skips numbered requests it has
    seen, with the replay and exactly-once lemmas that both services use.
  \<^item> \<open>KV_Server\<close> and \<open>KV_Clerk\<close> (\<^verbatim>\<open>kvraft/server.go\<close>, \<^verbatim>\<open>kvraft/client.go\<close>): the store is the replay of the log, a
    read is answered from its log position, the client returns the first answer of a leader.
  \<^item> \<open>Shard_Master\<close> and \<open>Shard_Clerks\<close> (\<^verbatim>\<open>shardmaster/server.go\<close> and the clients): the history of configurations
    is that of each change executed once, rebalancing is even, and the defects of \<open>rebalance\<close>; a client of the
    sharded store asks the group that owns the key. The handlers of \<^verbatim>\<open>shardkv/server.go\<close> are empty in the source.

  \<^bold>\<open>Linearizability checker.\<close>
  \<^item> \<open>Lin_Bitset\<close> (\<^verbatim>\<open>bitset.go\<close>): bit sets as sets of numbers, the locale \<open>position_set\<close> that the search relies
    on, and the bit-parallel population count.
  \<^item> \<open>Lin_Model\<close> (\<^verbatim>\<open>model.go\<close>, \<^verbatim>\<open>models.go\<close>, the entries of \<^verbatim>\<open>linearizability.go\<close>) and the definition of a
    linearizable set of operations.
  \<^item> \<open>Lin_List\<close>: the doubly linked list in an explicit store; \<open>unlift\<close> undoes \<open>lift\<close> exactly.
  \<^item> \<open>Lin_Check\<close>: \<open>checkSingle\<close>. Its loop is a partial function into \<open>option\<close>; it is shown to compute a
    depth-first search by recursion, which always ends, and that search finds an order exactly if there is one.

  \<^item> \<open>Lin_Entries\<close>: \<open>checkSingle\<close> on the entries that \<open>makeEntries\<close> and \<open>convertEntries\<close> build; it decides
    whether the operations are linearizable.
  \<^item> \<open>Lin_Operations\<close>: \<open>CheckOperations\<close>, \<open>CheckEvents\<close> and their time limits. Which verdict or timer arrives
    next is an argument; \<open>None\<close> means that the function still waits. The locale \<open>renumbered\<close> holds what
    \<open>renumber\<close> promises.
  \<^item> \<open>Lin_KV\<close>: with \<open>KvModel\<close> the verdict is that of one map from keys to values, over the whole history and not
    per key; the type assertions of the model succeed exactly on key/value histories.

  \<^bold>\<open>MapReduce.\<close>
  \<^item> \<open>MR_Files\<close> (\<^verbatim>\<open>common.go\<close>, \<^verbatim>\<open>common_rpc.go\<close>): names, messages, and a disk whose files are the JSON values and
    lines written to them. That JSON gives back what was written is assumed by this representation, and
    the inputs are kept apart from the files of the job. Texts are ASCII.
  \<^item> \<open>MR_Tasks\<close> (\<^verbatim>\<open>common_map.go\<close>, \<^verbatim>\<open>common_reduce.go\<close>): \<open>doMap\<close>, \<open>doReduce\<close>, the hash at 32 bits.
  \<^item> \<open>MR_Master\<close> (\<^verbatim>\<open>master.go\<close>, \<^verbatim>\<open>master_splitmerge.go\<close>, \<^verbatim>\<open>master_rpc.go\<close>): a sequential job writes one line per
    key with the reduced value of all its values, \<open>CleanupFiles\<close> undoes its files, and a map task that runs
    twice loses its output.
  \<^item> \<open>MR_Programs\<close> (\<^verbatim>\<open>main/wc.go\<close>, \<^verbatim>\<open>main/ii.go\<close>): the two jobs count and index the words of their inputs.
  \<^item> \<open>MR_Worker\<close> (\<^verbatim>\<open>worker.go\<close>): \<open>DoTask\<close> in the sections between its locks, and the accept loop.
  \<^item> \<open>MR_Schedule\<close> (\<^verbatim>\<open>schedule.go\<close>): the function and its goroutines as a transition system, in which a
    goroutine reads the variables it shares with the function when it runs. A returned scheduler has started
    a call for every task; the theory also shows where it returns early, panics or blocks.

  \<^bold>\<open>Network and encoder.\<close>
  \<^item> \<open>Lab_RPC\<close> (\<^verbatim>\<open>labrpc.go\<close>): the network, its servers and services. The random numbers, the network as it is
    when a call looks at it again, and whether the handler has returned are arguments. A handler runs at most
    once per request, a positive reply is the handler's, and a reliable network delivers.
  \<^item> \<open>Lab_Gob\<close> (\<^verbatim>\<open>labgob.go\<close>): the checks of types and values as they appear by reflection, over a table of
    types that may refer to each other.

  \<^bold>\<open>Bounds.\<close> The recursive search of the checker takes the number of list elements as its depth, which is never
  reached before the list is empty. \<open>checkType\<close> takes fuel, and more than the number of unchecked types is
  shown to be enough. Every other loop recurses over the list of its events, answers or entries.

  \<^bold>\<open>Not modelled.\<close> The test harnesses (\<^verbatim>\<open>config.go\<close> of each package) drive servers in real time for the tests; the
  RPC stubs of raft only forward to the network; debug output only writes a log file (and panics when it cannot be opened). Real time is left out (a timeout is an
  event), as are sockets (whether listening and calling succeed is an argument), lengths of delays, and data races
  outside the locks other than those of \<^verbatim>\<open>schedule.go\<close>. The remaining programs under \<^verbatim>\<open>main\<close> start packages
  (\<^verbatim>\<open>diskv\<close>, \<^verbatim>\<open>lockservice\<close>, \<^verbatim>\<open>pbservice\<close>, \<^verbatim>\<open>viewservice\<close>) that the repository does not have.
\<close>

end
